(* ===== verification/Xv6_Prelude.thy ===== *)
theory Xv6_Prelude
  imports Main "HOL-Library.Word" "HOL-Library.Monad_Syntax"
begin

unbundle bit_operations_syntax

text \<open>
  Shared vocabulary of the development: the C integer types of \<^verbatim>\<open>common.h\<close> as machine
  words, error numbers, raw memory (a block of bytes indexed by offset) with the typed loads
  and stores the sources make through casts, and the C string functions they call.

  Functions of the program are written in explicit state passing inside the option monad:
  \<^theory_text>\<open>None\<close> is "the call does not return" (a kernel panic raised by
  \<^verbatim>\<open>xv6_assert\<close>, a self-deadlock, or a loop that never ends), \<^theory_text>\<open>Some\<close> carries the C
  return value, the out-parameters and the next state. C error returns keep their C values:
  0 for success, \<^verbatim>\<open>-E...\<close> as a negative integer.
\<close>

section \<open>Types\<close>

type_synonym u8 = "8 word"
type_synonym u16 = "16 word"
type_synonym u32 = "32 word"
type_synonym u64 = "64 word"

type_synonym block = "nat \<Rightarrow> u8"
type_synonym bytes = "u8 list"

named_theorems mem_simps "loads after stores"
named_theorems frame_simps "fields of the state an operation leaves alone"

section \<open>Error numbers\<close>

abbreviation EIO :: int where "EIO \<equiv> 5"
abbreviation ENOMEM :: int where "ENOMEM \<equiv> 12"
abbreviation EFAULT :: int where "EFAULT \<equiv> 14"
abbreviation EBUSY :: int where "EBUSY \<equiv> 16"
abbreviation EEXIST :: int where "EEXIST \<equiv> 17"
abbreviation ENOTDIR :: int where "ENOTDIR \<equiv> 20"
abbreviation ENOENT :: int where "ENOENT \<equiv> 2"
abbreviation EINVAL :: int where "EINVAL \<equiv> 22"
abbreviation EFBIG :: int where "EFBIG \<equiv> 27"
abbreviation ENOSPC :: int where "ENOSPC \<equiv> 28"
abbreviation EROFS :: int where "EROFS \<equiv> 30"
abbreviation ENAMETOOLONG :: int where "ENAMETOOLONG \<equiv> 36"
abbreviation ENOTEMPTY :: int where "ENOTEMPTY \<equiv> 39"
abbreviation ETOOMANYREFS :: int where "ETOOMANYREFS \<equiv> 109"

section \<open>Generic lemmas\<close>

lemma bind_SomeE:
  assumes "Option.bind m f = Some r"
  obtains x where "m = Some x" and "f x = Some r"
  using assms by (auto simp: Option.bind_eq_Some_conv)

lemma word_less_unat: "(a :: 'a::len word) < b \<longleftrightarrow> unat a < unat b"
  by (fact word_less_nat_alt)

lemma word_le_unat: "(a :: 'a::len word) \<le> b \<longleftrightarrow> unat a \<le> unat b"
  by (fact word_le_nat_alt)

lemma unat_Suc_less: "(a :: u32) < b \<Longrightarrow> unat (a + 1) = Suc (unat a)"
  by unat_arith

lemma measure_Suc: "(a :: u32) < b \<Longrightarrow> unat b - unat (a + 1) < unat b - unat a"
  using unat_Suc_less [of a b] by (simp add: word_less_unat)

lemma unat_lt2p: "unat (x :: u32) < 2 ^ 32"
  using unsigned_less [of x] by simp

lemma unat_ucast_u64 [simp]: "unat (ucast (x :: u32) :: u64) = unat x"
  using unat_lt2p [of x] by (simp add: unsigned_ucast_eq take_bit_nat_eq_self_iff)

lemma unat_add_no_wrap:
  "unat (a :: u32) + unat b < 2 ^ 32 \<Longrightarrow> unat (a + b) = unat a + unat b"
  by (simp add: unat_word_ariths)

lemma unat_of_nat32: "n < 2 ^ 32 \<Longrightarrow> unat (of_nat n :: u32) = n"
  by (simp add: unat_of_nat)

lemma word_eq_unat: "(a :: 'a::len word) = b \<longleftrightarrow> unat a = unat b"
  by (fact word_unat_eq_iff)

lemma div_mod_eq_nat: "a div n = b div n \<Longrightarrow> a mod n = b mod n \<Longrightarrow> a = (b :: nat)"
  by (metis div_mult_mod_eq)

lemma and_mask_bit_zero [simp]: "(2 ^ n AND w = 0) \<longleftrightarrow> \<not> bit (w :: u32) n"
  by (metis and.commute and_exp_eq_0_iff_not_bit)

lemma bit_or_mask [simp]: "bit ((w :: u32) OR 2 ^ n) k \<longleftrightarrow> bit w k \<or> (k = n \<and> n < 32)"
  by (auto simp: bit_or_iff bit_exp_iff possible_bit_def)

lemma bit_and_not_mask [simp]:
  "bit ((w :: u32) AND NOT (2 ^ n)) k \<longleftrightarrow> bit w k \<and> k \<noteq> n"
  by (auto simp: bit_and_iff bit_not_iff bit_exp_iff possible_bit_def dest: bit_imp_le_length)

section \<open>Raw memory\<close>

text \<open>
  A 32-bit or 16-bit value is stored least significant byte first: the on-disk byte order
  of xv6 and the native order of the hosts the module is built for.
\<close>

definition byte32 :: "nat \<Rightarrow> u32 \<Rightarrow> u8" where
  "byte32 k v = ucast (drop_bit (8 * k) v)"

definition cat32 :: "u8 \<Rightarrow> u8 \<Rightarrow> u8 \<Rightarrow> u8 \<Rightarrow> u32" where
  "cat32 b0 b1 b2 b3 = ucast b0 OR push_bit 8 (ucast b1) OR push_bit 16 (ucast b2)
     OR push_bit 24 (ucast b3)"

definition byte16 :: "nat \<Rightarrow> u16 \<Rightarrow> u8" where
  "byte16 k v = ucast (drop_bit (8 * k) v)"

definition cat16 :: "u8 \<Rightarrow> u8 \<Rightarrow> u16" where
  "cat16 b0 b1 = ucast b0 OR push_bit 8 (ucast b1)"

definition rd16 :: "block \<Rightarrow> nat \<Rightarrow> u16" where
  "rd16 b o' = cat16 (b o') (b (o' + 1))"

definition rd32 :: "block \<Rightarrow> nat \<Rightarrow> u32" where
  "rd32 b o' = cat32 (b o') (b (o' + 1)) (b (o' + 2)) (b (o' + 3))"

text \<open>\<open>put b off bs\<close> is \<^verbatim>\<open>memcpy(b + off, bs, n)\<close>, \<open>get b off n\<close> the bytes read back.\<close>

definition put :: "block \<Rightarrow> nat \<Rightarrow> bytes \<Rightarrow> block" where
  "put b off bs = (\<lambda>i. if off \<le> i \<and> i < off + length bs then bs ! (i - off) else b i)"

definition get :: "block \<Rightarrow> nat \<Rightarrow> nat \<Rightarrow> bytes" where
  "get b off n = map (\<lambda>i. b (off + i)) [0..<n]"

definition wr16 :: "block \<Rightarrow> nat \<Rightarrow> u16 \<Rightarrow> block" where
  "wr16 b off v = b(off := byte16 0 v, off + 1 := byte16 1 v)"

definition wr32 :: "block \<Rightarrow> nat \<Rightarrow> u32 \<Rightarrow> block" where
  "wr32 b off v = b(off := byte32 0 v, off + 1 := byte32 1 v, off + 2 := byte32 2 v,
     off + 3 := byte32 3 v)"

fun wr32s :: "block \<Rightarrow> nat \<Rightarrow> u32 list \<Rightarrow> block" where
  "wr32s b off [] = b"
| "wr32s b off (v # vs) = wr32s (wr32 b off v) (off + 4) vs"

definition rd32s :: "block \<Rightarrow> nat \<Rightarrow> nat \<Rightarrow> u32 list" where
  "rd32s b off n = map (\<lambda>i. rd32 b (off + 4 * i)) [0..<n]"

abbreviation zero_block :: block where "zero_block \<equiv> (\<lambda>_. 0)"

lemma cat32_bytes [simp]: "cat32 (byte32 0 v) (byte32 1 v) (byte32 2 v) (byte32 3 v) = v"
proof (rule bit_word_eqI)
  fix n assume "n < LENGTH(32)"
  then consider "n < 8" | "8 \<le> n" "n < 16" | "16 \<le> n" "n < 24" | "24 \<le> n" "n < 32"
    by fastforce
  then show "bit (cat32 (byte32 0 v) (byte32 1 v) (byte32 2 v) (byte32 3 v)) n = bit v n"
    by cases (auto simp: cat32_def byte32_def bit_simps)
qed

lemma cat16_bytes [simp]: "cat16 (byte16 0 v) (byte16 1 v) = v"
  by (rule bit_word_eqI)
    (auto simp: cat16_def byte16_def bit_or_iff bit_push_bit_iff bit_ucast_iff bit_drop_bit_eq)

lemma cat32_zero [simp]: "cat32 0 0 0 0 = 0" and cat16_zero [simp]: "cat16 0 0 = 0"
  by (simp_all add: cat32_def cat16_def)

lemma rd32_zero_block [simp]: "rd32 zero_block off = 0" and rd16_zero_block [simp]: "rd16 zero_block off = 0"
  by (simp_all add: rd32_def rd16_def)

lemma wr16_other [mem_simps]: "i < off \<or> off + 2 \<le> i \<Longrightarrow> wr16 b off v i = b i"
  by (auto simp: wr16_def)

lemma wr32_other [mem_simps]: "i < off \<or> off + 4 \<le> i \<Longrightarrow> wr32 b off v i = b i"
  by (auto simp: wr32_def)

lemma put_other [mem_simps]: "i < off \<or> off + length bs \<le> i \<Longrightarrow> put b off bs i = b i"
  by (auto simp: put_def)

lemma put_in: "k < length bs \<Longrightarrow> put b off bs (off + k) = bs ! k"
  by (simp add: put_def)

lemma wr32s_other [mem_simps]:
  "i < off \<or> off + 4 * length vs \<le> i \<Longrightarrow> wr32s b off vs i = b i"
  by (induction vs arbitrary: b off) (auto simp: wr32_other)

lemma rd16_wr16 [mem_simps]: "rd16 (wr16 b off v) off = v"
  using cat16_bytes [of v] by (simp add: rd16_def wr16_def)

lemma rd32_wr32 [mem_simps]: "rd32 (wr32 b off v) off = v"
  using cat32_bytes [of v] by (simp add: rd32_def wr32_def)

lemma rd16_agree: "b i = b' i \<Longrightarrow> b (Suc i) = b' (Suc i) \<Longrightarrow> rd16 b i = rd16 b' i"
  by (simp add: rd16_def)

lemma rd32_agree: "(\<And>k. k < 4 \<Longrightarrow> b (i + k) = b' (i + k)) \<Longrightarrow> rd32 b i = rd32 b' i"
proof -
  assume *: "\<And>k. k < 4 \<Longrightarrow> b (i + k) = b' (i + k)"
  from * [of 0] * [of 1] * [of 2] * [of 3] show ?thesis by (simp add: rd32_def)
qed

lemma rd32_other [mem_simps]:
  "i + 4 \<le> off \<or> off + 2 \<le> i \<Longrightarrow> rd32 (wr16 b off v16) i = rd32 b i"
  "i + 4 \<le> off \<or> off + 4 \<le> i \<Longrightarrow> rd32 (wr32 b off v32) i = rd32 b i"
  "i + 4 \<le> off \<or> off + length bs \<le> i \<Longrightarrow> rd32 (put b off bs) i = rd32 b i"
  "i + 4 \<le> off \<or> off + 4 * length vs \<le> i \<Longrightarrow> rd32 (wr32s b off vs) i = rd32 b i"
  by (auto intro!: rd32_agree wr16_other wr32_other put_other wr32s_other)

lemma rd16_other [mem_simps]:
  "i + 2 \<le> off \<or> off + 2 \<le> i \<Longrightarrow> rd16 (wr16 b off v16) i = rd16 b i"
  "i + 2 \<le> off \<or> off + 4 \<le> i \<Longrightarrow> rd16 (wr32 b off v32) i = rd16 b i"
  "i + 2 \<le> off \<or> off + length bs \<le> i \<Longrightarrow> rd16 (put b off bs) i = rd16 b i"
  "i + 2 \<le> off \<or> off + 4 * length vs \<le> i \<Longrightarrow> rd16 (wr32s b off vs) i = rd16 b i"
  by (auto intro!: rd16_agree wr16_other wr32_other put_other wr32s_other)

lemma length_get [simp]: "length (get b off n) = n"
  by (simp add: get_def)

lemma nth_get [simp]: "i < n \<Longrightarrow> get b off n ! i = b (off + i)"
  by (simp add: get_def)

lemma get_put [mem_simps]: "n = length bs \<Longrightarrow> get (put b off bs) off n = bs"
  by (auto intro: nth_equalityI simp: put_in)

lemma get_other [mem_simps]:
  "i + n \<le> off \<or> off + 2 \<le> i \<Longrightarrow> get (wr16 b off v16) i n = get b i n"
  "i + n \<le> off \<or> off + 4 \<le> i \<Longrightarrow> get (wr32 b off v32) i n = get b i n"
  "i + n \<le> off \<or> off + length bs \<le> i \<Longrightarrow> get (put b off bs) i n = get b i n"
  by (auto intro!: nth_equalityI wr16_other wr32_other put_other)

lemma length_rd32s [simp]: "length (rd32s b off n) = n"
  by (simp add: rd32s_def)

lemma nth_rd32s [simp]: "i < n \<Longrightarrow> rd32s b off n ! i = rd32 b (off + 4 * i)"
  by (simp add: rd32s_def)

lemma rd32_wr32s: "i < length vs \<Longrightarrow> rd32 (wr32s b off vs) (off + 4 * i) = vs ! i"
proof (induction vs arbitrary: b off i)
  case (Cons v vs)
  show ?case
  proof (cases i)
    case 0
    then show ?thesis by (simp add: mem_simps)
  next
    case (Suc j)
    then have "rd32 (wr32s (wr32 b off v) (off + 4) vs) (off + 4 + 4 * j) = vs ! j"
      using Cons by simp
    with Suc show ?thesis by (simp add: algebra_simps)
  qed
qed simp

lemma rd32s_wr32s [mem_simps]: "n = length vs \<Longrightarrow> rd32s (wr32s b off vs) off n = vs"
  by (rule nth_equalityI) (simp_all add: rd32_wr32s)

lemma rd32s_other [mem_simps]:
  "i + 4 * n \<le> off \<or> off + 2 \<le> i \<Longrightarrow> rd32s (wr16 b off v16) i n = rd32s b i n"
  "i + 4 * n \<le> off \<or> off + 4 \<le> i \<Longrightarrow> rd32s (wr32 b off v32) i n = rd32s b i n"
  "i + 4 * n \<le> off \<or> off + length bs \<le> i \<Longrightarrow> rd32s (put b off bs) i n = rd32s b i n"
  "i + 4 * n \<le> off \<or> off + 4 * length vs \<le> i \<Longrightarrow> rd32s (wr32s b off vs) i n = rd32s b i n"
  by (auto intro!: nth_equalityI rd32_other)

text \<open>Slots of an array of \<open>w\<close>-byte elements do not overlap.\<close>

lemma slots_disjoint: "i \<noteq> j \<Longrightarrow> w * i + w \<le> w * j \<or> w * j + w \<le> w * (i :: nat)"
proof -
  assume "i \<noteq> j"
  then consider "Suc i \<le> j" | "Suc j \<le> i" by linarith
  then show ?thesis
    by cases (metis mult_Suc_right add.commute mult_le_mono2)+
qed

lemma rd32_wr32_slot [mem_simps]:
  "rd32 (wr32 b (4 * i) v) (4 * j) = (if i = j then v else rd32 b (4 * j))"
  using slots_disjoint [of i j 4] by (auto simp: rd32_other rd32_wr32)

section \<open>C strings\<close>

text \<open>
  A C string argument is the list of its bytes before the terminator; reading at or past
  the end of the list gives the NUL. \<^verbatim>\<open>strncmp\<close> on two buffers compares at most
  \<open>n\<close> bytes and stops at a NUL; only "is it 0" is used by the program.
\<close>

fun strncmp0 :: "bytes \<Rightarrow> bytes \<Rightarrow> nat \<Rightarrow> bool" where
  "strncmp0 a b 0 = True"
| "strncmp0 a b (Suc n) =
     (let x = (case a of [] \<Rightarrow> 0 | c # _ \<Rightarrow> c); y = (case b of [] \<Rightarrow> 0 | c # _ \<Rightarrow> c)
      in if x \<noteq> y then False else if x = 0 then True else strncmp0 (tl a) (tl b) n)"

definition cstr :: "nat \<Rightarrow> bytes \<Rightarrow> bytes" where
  "cstr n bs = takeWhile (\<lambda>c. c \<noteq> 0) (take n bs)"

definition strncpy_bytes :: "bytes \<Rightarrow> nat \<Rightarrow> bytes" where
  "strncpy_bytes s n = take n (cstr n s) @ replicate (n - length (cstr n s)) 0"

lemma strncmp0_cstr: "strncmp0 a b n \<longleftrightarrow> cstr n a = cstr n b"
proof (induction n arbitrary: a b)
  case (Suc n)
  then show ?case
    by (cases a; cases b) (auto simp: cstr_def Let_def)
qed (simp add: cstr_def)

lemma strncmp0_refl [simp]: "strncmp0 a a n"
  by (simp add: strncmp0_cstr)

lemma length_cstr: "length (cstr n s) \<le> n"
  unfolding cstr_def by (rule order.trans [OF length_takeWhile_le]) simp

lemma length_strncpy [simp]: "length (strncpy_bytes s n) = n"
  using length_cstr [of n s] by (simp add: strncpy_bytes_def)

lemma takeWhile_zeros: "takeWhile (\<lambda>c. c \<noteq> 0) (replicate k (0 :: u8)) = []"
  by (cases k) auto

lemma cstr_strncpy [simp]: "cstr n (strncpy_bytes s n) = cstr n s"
proof -
  let ?c = "cstr n s"
  have nz: "\<forall>x \<in> set ?c. x \<noteq> 0"
    by (auto simp: cstr_def dest: set_takeWhileD)
  have "take n (strncpy_bytes s n) = ?c @ replicate (n - length ?c) 0"
    using length_cstr [of n s] length_strncpy [of s n]
    by (simp add: strncpy_bytes_def)
  then have "cstr n (strncpy_bytes s n) = takeWhile (\<lambda>c. c \<noteq> 0) (?c @ replicate (n - length ?c) 0)"
    by (simp only: cstr_def [of n "strncpy_bytes s n"])
  also have "\<dots> = ?c"
    using nz by (simp add: takeWhile_append2 takeWhile_zeros)
  finally show ?thesis .
qed

end
