(* ===== verification/Disk_Layout.thy ===== *)
theory Disk_Layout
  imports Xv6_Prelude
begin

text \<open>
  The on-disk format of \<^verbatim>\<open>fs.h\<close> and the byte-order helpers of \<^verbatim>\<open>xv6c++.h\<close>,
  \<^verbatim>\<open>check.cpp\<close> and \<^verbatim>\<open>mkxv6.c\<close>. A packed C structure is a record with the
  source's fields; the array of such structures in a block is read and written by
  \<open>rd_dinode\<close>, \<open>wr_dinode\<close>, \<open>rd_dirent\<close>, \<open>wr_dirent\<close> (element \<open>k\<close> of the cast pointer).
\<close>

section \<open>Constants\<close>

definition BSIZE :: nat where "BSIZE = 1024"
definition T_DIR :: u16 where "T_DIR = 1"
definition T_FILE :: u16 where "T_FILE = 2"
definition T_DEVICE :: u16 where "T_DEVICE = 3"
definition ROOTINO :: u32 where "ROOTINO = 1"
definition FSMAGIC :: u32 where "FSMAGIC = 0x10203040"
definition NDIRECT :: nat where "NDIRECT = 12"
definition NINDIRECT :: nat where "NINDIRECT = BSIZE div 4"
definition MAXFILE :: nat where "MAXFILE = NDIRECT + NINDIRECT"
definition IPB :: u32 where "IPB = of_nat (BSIZE div 64)"
definition BPB :: u32 where "BPB = of_nat (BSIZE * 8)"
definition DIRSIZ :: nat where "DIRSIZ = 14"

definition INODE_BLOCKS :: "u32 \<Rightarrow> u32" where
  "INODE_BLOCKS inodes = inodes div IPB + 1"

definition BITMAP_BLOCKS :: "u32 \<Rightarrow> u32" where
  "BITMAP_BLOCKS fssize = fssize div BPB + 1"

lemma IPB_val: "IPB = 16" and BPB_val: "BPB = 8192"
  by (simp_all add: IPB_def BPB_def BSIZE_def)

lemma NINDIRECT_val: "NINDIRECT = 256" and MAXFILE_val: "MAXFILE = 268"
  by (simp_all add: NINDIRECT_def MAXFILE_def NDIRECT_def BSIZE_def)

lemmas layout_vals = BSIZE_def NDIRECT_def NINDIRECT_val MAXFILE_val IPB_val BPB_val DIRSIZ_def

section \<open>On-disk structures\<close>

record superblock =
  sb_magic :: u32
  sb_size :: u32
  sb_nblocks :: u32
  sb_ninodes :: u32
  sb_nlog :: u32
  sb_logstart :: u32
  sb_inodestart :: u32
  sb_bmapstart :: u32

record dinode =
  di_type :: u16
  di_major :: u16
  di_minor :: u16
  di_nlink :: u16
  di_size :: u32
  di_addrs :: "u32 list"

record dirent =
  de_inum :: u16
  de_name :: bytes

definition zero_dinode :: dinode where
  "zero_dinode = \<lparr>di_type = 0, di_major = 0, di_minor = 0, di_nlink = 0, di_size = 0,
     di_addrs = replicate (NDIRECT + 1) 0\<rparr>"

definition zero_dirent :: dirent where
  "zero_dirent = \<lparr>de_inum = 0, de_name = replicate DIRSIZ 0\<rparr>"

definition wf_dinode :: "dinode \<Rightarrow> bool" where
  "wf_dinode d \<longleftrightarrow> length (di_addrs d) = NDIRECT + 1"

definition wf_dirent :: "dirent \<Rightarrow> bool" where
  "wf_dirent d \<longleftrightarrow> length (de_name d) = DIRSIZ"

definition rd_superblock :: "block \<Rightarrow> superblock" where
  "rd_superblock b = \<lparr>sb_magic = rd32 b 0, sb_size = rd32 b 4, sb_nblocks = rd32 b 8,
     sb_ninodes = rd32 b 12, sb_nlog = rd32 b 16, sb_logstart = rd32 b 20,
     sb_inodestart = rd32 b 24, sb_bmapstart = rd32 b 28\<rparr>"

definition wr_superblock :: "block \<Rightarrow> superblock \<Rightarrow> block" where
  "wr_superblock b sb = wr32s b 0 [sb_magic sb, sb_size sb, sb_nblocks sb, sb_ninodes sb,
     sb_nlog sb, sb_logstart sb, sb_inodestart sb, sb_bmapstart sb]"

definition rd_dinode :: "block \<Rightarrow> nat \<Rightarrow> dinode" where
  "rd_dinode b k = (let o' = 64 * k in
     \<lparr>di_type = rd16 b o', di_major = rd16 b (o' + 2), di_minor = rd16 b (o' + 4),
      di_nlink = rd16 b (o' + 6), di_size = rd32 b (o' + 8),
      di_addrs = rd32s b (o' + 12) (NDIRECT + 1)\<rparr>)"

definition wr_dinode :: "block \<Rightarrow> nat \<Rightarrow> dinode \<Rightarrow> block" where
  "wr_dinode b k d = (let o' = 64 * k in
     wr32s (wr32 (wr16 (wr16 (wr16 (wr16 b o' (di_type d)) (o' + 2) (di_major d))
       (o' + 4) (di_minor d)) (o' + 6) (di_nlink d)) (o' + 8) (di_size d)) (o' + 12) (di_addrs d))"

definition rd_dirent :: "block \<Rightarrow> nat \<Rightarrow> dirent" where
  "rd_dirent b k = \<lparr>de_inum = rd16 b (16 * k), de_name = get b (16 * k + 2) DIRSIZ\<rparr>"

definition wr_dirent :: "block \<Rightarrow> nat \<Rightarrow> dirent \<Rightarrow> block" where
  "wr_dirent b k d = put (wr16 b (16 * k) (de_inum d)) (16 * k + 2) (de_name d)"

lemma wf_rd [simp]: "wf_dinode (rd_dinode b k)" "wf_dirent (rd_dirent b k)" "wf_dinode zero_dinode"
    "wf_dirent zero_dirent"
  by (simp_all add: wf_dinode_def wf_dirent_def rd_dinode_def rd_dirent_def Let_def zero_dinode_def
      zero_dirent_def)

lemma length_di_addrs_rd [simp]: "length (di_addrs (rd_dinode b k)) = 13"
  by (simp add: rd_dinode_def Let_def NDIRECT_def)

lemma length_de_name_rd [simp]: "length (de_name (rd_dirent b k)) = 14"
  by (simp add: rd_dirent_def DIRSIZ_def)

lemma rd_dinode_zero [simp]: "rd_dinode zero_block k = zero_dinode"
  by (auto simp: rd_dinode_def zero_dinode_def Let_def simp del: replicate_Suc intro!: nth_equalityI)

lemma rd_dirent_zero [simp]: "rd_dirent zero_block k = zero_dirent"
  by (auto simp: rd_dirent_def zero_dirent_def intro!: nth_equalityI)

lemma rd_superblock_wr [mem_simps]: "rd_superblock (wr_superblock b sb) = sb"
proof -
  let ?vs = "[sb_magic sb, sb_size sb, sb_nblocks sb, sb_ninodes sb,
     sb_nlog sb, sb_logstart sb, sb_inodestart sb, sb_bmapstart sb]"
  have *: "rd32 (wr32s b 0 ?vs) (0 + 4 * i) = ?vs ! i" if "i < 8" for i
    using that by (intro rd32_wr32s) simp
  show ?thesis
    using * [of 0] * [of 1] * [of 2] * [of 3] * [of 4] * [of 5] * [of 6] * [of 7]
    by (simp add: rd_superblock_def wr_superblock_def del: wr32s.simps)
qed

lemma rd_dinode_wr_same: "wf_dinode d \<Longrightarrow> rd_dinode (wr_dinode b k d) k = d"
  by (simp add: rd_dinode_def wr_dinode_def Let_def mem_simps wf_dinode_def)

lemma rd_dinode_wr_other:
  "wf_dinode d \<Longrightarrow> i \<noteq> k \<Longrightarrow> rd_dinode (wr_dinode b k d) i = rd_dinode b i"
  using slots_disjoint [of i k 64]
  by (auto simp: rd_dinode_def wr_dinode_def Let_def wf_dinode_def NDIRECT_def rd16_other rd32_other
      rd32s_other)

lemma rd_dinode_wr [mem_simps]:
  "wf_dinode d \<Longrightarrow> rd_dinode (wr_dinode b k d) i = (if i = k then d else rd_dinode b i)"
  by (simp add: rd_dinode_wr_same rd_dinode_wr_other)

lemma rd_dirent_wr_same: "wf_dirent d \<Longrightarrow> rd_dirent (wr_dirent b k d) k = d"
  by (simp add: rd_dirent_def wr_dirent_def mem_simps wf_dirent_def)

lemma rd_dirent_wr_other:
  "wf_dirent d \<Longrightarrow> i \<noteq> k \<Longrightarrow> rd_dirent (wr_dirent b k d) i = rd_dirent b i"
  using slots_disjoint [of i k 16]
  by (auto simp: rd_dirent_def wr_dirent_def wf_dirent_def DIRSIZ_def rd16_other get_other)

lemma rd_dirent_wr [mem_simps]:
  "wf_dirent d \<Longrightarrow> rd_dirent (wr_dirent b k d) i = (if i = k then d else rd_dirent b i)"
  by (simp add: rd_dirent_wr_same rd_dirent_wr_other)

lemma wr16_rd16: "wr16 b off (rd16 b off) = b"
proof -
  have "byte16 0 (cat16 x y) = x" "byte16 (Suc 0) (cat16 x y) = y" for x y
    by (rule bit_word_eqI, auto simp: byte16_def cat16_def bit_simps dest: bit_imp_le_length)+
  then show ?thesis by (simp add: wr16_def rd16_def fun_eq_iff)
qed

lemma put_get [simp]: "put b off (get b off n) = b"
  by (auto simp: put_def fun_eq_iff)

lemma wr_dirent_same [simp]: "wr_dirent b k (rd_dirent b k) = b"
  by (simp only: wr_dirent_def rd_dirent_def dirent.simps wr16_rd16 put_get)

text \<open>Storing an element never leaves the 1024 bytes of the block.\<close>

lemma wr_dinode_in_block: "wf_dinode d \<Longrightarrow> k < 16 \<Longrightarrow> BSIZE \<le> i \<Longrightarrow> wr_dinode b k d i = b i"
  by (simp add: wr_dinode_def Let_def wf_dinode_def layout_vals mem_simps wr16_other wr32_other
      wr32s_other)

lemma wr_dirent_in_block: "wf_dirent d \<Longrightarrow> k < 64 \<Longrightarrow> BSIZE \<le> i \<Longrightarrow> wr_dirent b k d i = b i"
  by (simp add: wr_dirent_def wf_dirent_def layout_vals put_other wr16_other)

section \<open>Byte order helpers\<close>

text \<open>
  \<open>mem32 e x\<close> is the object representation of a \<^verbatim>\<open>uint\<close> on a host of byte order
  \<open>e\<close>, \<open>val32 e\<close> the value of such a representation. The helpers read and write that
  representation through \<^verbatim>\<open>unsigned char\<close> pointers.
\<close>

datatype endian = LittleEndian | BigEndian

fun mem32 :: "endian \<Rightarrow> u32 \<Rightarrow> bytes" where
  "mem32 LittleEndian x = [byte32 0 x, byte32 1 x, byte32 2 x, byte32 3 x]"
| "mem32 BigEndian x = [byte32 3 x, byte32 2 x, byte32 1 x, byte32 0 x]"

fun val32 :: "endian \<Rightarrow> bytes \<Rightarrow> u32" where
  "val32 LittleEndian bs = cat32 (bs ! 0) (bs ! 1) (bs ! 2) (bs ! 3)"
| "val32 BigEndian bs = cat32 (bs ! 3) (bs ! 2) (bs ! 1) (bs ! 0)"

fun mem16 :: "endian \<Rightarrow> u16 \<Rightarrow> bytes" where
  "mem16 LittleEndian x = [byte16 0 x, byte16 1 x]"
| "mem16 BigEndian x = [byte16 1 x, byte16 0 x]"

fun val16 :: "endian \<Rightarrow> bytes \<Rightarrow> u16" where
  "val16 LittleEndian bs = cat16 (bs ! 0) (bs ! 1)"
| "val16 BigEndian bs = cat16 (bs ! 1) (bs ! 0)"

definition cpp_to_le32 :: "endian \<Rightarrow> u32 \<Rightarrow> u32" where
  "cpp_to_le32 e a = val32 e [ucast (a AND 0xff), ucast (drop_bit 8 a AND 0xff),
     ucast (drop_bit 16 a AND 0xff), ucast (drop_bit 24 a)]"

definition cpp_to_cpu16 :: "endian \<Rightarrow> u16 \<Rightarrow> u16" where
  "cpp_to_cpu16 e a = (let src = mem16 e a in ucast (src ! 0) OR push_bit 8 1 * ucast (src ! 1))"

definition cpp_to_cpu32 :: "endian \<Rightarrow> u32 \<Rightarrow> u32" where
  "cpp_to_cpu32 e a = (let src = mem32 e a in
     ucast (src ! 0) OR push_bit 8 1 * ucast (src ! 1) OR push_bit 16 1 * ucast (src ! 2)
       OR push_bit 24 1 * ucast (src ! 3))"

text \<open>\<^verbatim>\<open>check.cpp\<close>: \<^verbatim>\<open>xuint\<close>, with its loop over the four bytes.\<close>

fun xuint_loop :: "bytes \<Rightarrow> u32 \<Rightarrow> u32 \<Rightarrow> u32" where
  "xuint_loop [] msk ret = ret"
| "xuint_loop (p # ps) msk ret = xuint_loop ps (msk * 256) (ret OR msk * ucast p)"

definition xuint :: "endian \<Rightarrow> u32 \<Rightarrow> u32" where
  "xuint e x = xuint_loop (mem32 e x) 1 0"

text \<open>\<^verbatim>\<open>mkxv6.c\<close>: \<^verbatim>\<open>xshort\<close> and \<^verbatim>\<open>xint\<close>.\<close>

definition xshort :: "endian \<Rightarrow> u16 \<Rightarrow> u16" where
  "xshort e x = val16 e [ucast x, ucast (drop_bit 8 x)]"

definition xint :: "endian \<Rightarrow> u32 \<Rightarrow> u32" where
  "xint e x = val32 e [ucast x, ucast (drop_bit 8 x), ucast (drop_bit 16 x), ucast (drop_bit 24 x)]"

lemma ucast_and_ff: "(ucast (x AND 0xff :: u32) :: u8) = ucast x"
proof -
  have ff: "(0xff :: u32) = mask 8" by (simp add: mask_eq_exp_minus_1)
  show ?thesis
    unfolding ff take_bit_eq_mask [symmetric] by (rule bit_word_eqI) (auto simp: bit_simps)
qed

lemma byte32_unfold: "byte32 0 v = ucast v" "byte32 (Suc 0) v = ucast (drop_bit 8 v)"
    "byte32 2 v = ucast (drop_bit 16 v)" "byte32 3 v = ucast (drop_bit 24 v)"
  by (simp_all add: byte32_def)

lemma mult_push_bits: "256 * w = push_bit 8 (w :: u32)" "65536 * w = push_bit 16 (w :: u32)"
    "16777216 * w = push_bit 24 (w :: u32)" "256 * h = push_bit 8 (h :: u16)"
  by (simp_all add: push_bit_eq_mult mult.commute)

lemma cat32_unfold: "cat32 b0 b1 b2 b3 = ucast b0 OR 256 * ucast b1 OR 65536 * ucast b2
     OR 16777216 * ucast b3"
  by (simp add: cat32_def push_bit_eq_mult mult.commute)

lemma cat16_unfold: "cat16 b0 b1 = ucast b0 OR 256 * ucast b1"
  by (simp add: cat16_def push_bit_eq_mult mult.commute)

lemma val32_mem32 [simp]: "val32 e (mem32 e x) = x"
  using cat32_bytes [of x] by (cases e) simp_all

lemma mem32_val32: "length bs = 4 \<Longrightarrow> mem32 e (val32 e bs) = bs"
proof -
  have byte_cat: "byte32 0 (cat32 a b c d) = a" "byte32 (Suc 0) (cat32 a b c d) = b"
      "byte32 2 (cat32 a b c d) = c" "byte32 3 (cat32 a b c d) = d" for a b c d
    by (rule bit_word_eqI, auto simp: byte32_def cat32_def bit_simps dest: bit_imp_le_length)+
  assume "length bs = 4"
  then obtain p q r s where "bs = [p, q, r, s]"
    by (auto simp: length_Suc_conv eval_nat_numeral)
  then show ?thesis by (cases e) (simp_all add: byte_cat)
qed

lemma xuint_eq: "xuint e x = cpp_to_cpu32 e x"
  by (cases e) (simp_all add: xuint_def cpp_to_cpu32_def Let_def eval_nat_numeral or.assoc)

text \<open>
  Byte-order helpers are correct on hosts of either byte order: reading four bytes of a
  block as a native \<^verbatim>\<open>uint\<close> and converting it with \<^verbatim>\<open>__le32_to_cpu\<close> gives the
  little-endian value of these bytes, and the memory image of a value converted with
  \<^verbatim>\<open>__cpu_to_le32\<close> (also \<^verbatim>\<open>xint\<close>) is its little-endian encoding, so the two are
  inverse to each other.
\<close>

lemma byte_order_roundtrip:
  "cpp_to_cpu32 e (val32 e [b0, b1, b2, b3]) = cat32 b0 b1 b2 b3
   \<and> mem32 e (cpp_to_le32 e x) = [byte32 0 x, byte32 1 x, byte32 2 x, byte32 3 x]
   \<and> cpp_to_cpu32 e (cpp_to_le32 e x) = x \<and> xint e x = cpp_to_le32 e x"
proof -
  have 1: "cpp_to_cpu32 e (val32 e [p, q, r, s]) = cat32 p q r s" for p q r s
    unfolding cpp_to_cpu32_def by (simp add: mem32_val32 cat32_unfold Let_def)
  have le: "cpp_to_le32 e x = val32 e [byte32 0 x, byte32 1 x, byte32 2 x, byte32 3 x]"
    by (simp add: cpp_to_le32_def byte32_unfold ucast_and_ff)
  have "xint e x = cpp_to_le32 e x"
    by (simp add: le xint_def byte32_unfold)
  moreover have "mem32 e (cpp_to_le32 e x) = [byte32 0 x, byte32 1 x, byte32 2 x, byte32 3 x]"
    unfolding le by (rule mem32_val32) simp
  ultimately show ?thesis
    using 1 cat32_bytes [of x] by (simp add: le)
qed

end
