(* ===== verification/Buffer_Cache.thy ===== *)
theory Buffer_Cache
  imports Disk_Layout
begin

text \<open>
  The state of a mounted file system and the kernel services the module calls. The module's
  own state is \<^verbatim>\<open>struct xv6_fs_info\<close> (\<^verbatim>\<open>fsinfo.h\<close>): its geometry is the record
  \<open>xv6_fs_info\<close>, its mutable members (allocation hint, locks) are fields of \<open>fs\<close>.
  The services of the Linux kernel are not part of this repository; the model keeps what
  their documentation says:
  \<^item> \<^verbatim>\<open>sb_bread\<close> returns the (shared) buffer of a block with one more reference, or
    \<^verbatim>\<open>NULL\<close> on a read error; \<^verbatim>\<open>brelse\<close> drops the reference. \<open>cache\<close> is the content
    of the buffers, \<open>refs\<close> the references the module holds;
  \<^item> \<^verbatim>\<open>mark_buffer_dirty\<close> flags a buffer, \<^verbatim>\<open>sync_dirty_buffer\<close> writes a flagged
    buffer to \<open>disk\<close> and returns 0, or returns an error and the block is not written;
  \<^item> a mutex taken twice by its holder never returns;
  \<^item> \<^verbatim>\<open>copy_to_user\<close>, \<^verbatim>\<open>clear_user\<close> and \<^verbatim>\<open>copy_from_user\<close> report a page fault
    (\<open>env_fault\<close>); \<^verbatim>\<open>copy_from_user\<close> has then copied a prefix (of \<open>env_copied\<close> bytes) and
    fills the rest with zeros.
  Which calls fail is a parameter: \<open>env\<close> answers for each service call, indexed by the
  number \<open>now\<close> of service calls made before, so theorems hold for every fault pattern.
\<close>

section \<open>State\<close>

record xv6_fs_info =
  fi_size :: u32
  fi_nblocks :: u32
  fi_ninodes :: u32
  fi_nlog :: u32
  fi_logstart :: u32
  fi_inodestart :: u32
  fi_bmapstart :: u32
  fi_ninode_blocks :: u32
  fi_nbmap_blocks :: u32
  fi_uid :: u32
  fi_gid :: u32

record kenv =
  env_bread :: "nat \<Rightarrow> u32 \<Rightarrow> bool"
  env_sync :: "nat \<Rightarrow> u32 \<Rightarrow> int"
  env_alloc :: "nat \<Rightarrow> bool"
  env_fault :: "nat \<Rightarrow> bool"
  env_random :: "nat \<Rightarrow> u32"
  env_copied :: "nat \<Rightarrow> nat"

text \<open>The VFS inode: the members of \<^verbatim>\<open>struct inode\<close> the module reads or writes.\<close>

datatype fops = XV6_FILE_OPS | XV6_DIRECTORY_OPS

datatype rwsem = Unlocked | Shared | Exclusive

record vinode =
  i_ino :: u32
  i_mode :: u16
  i_uid :: u32
  i_gid :: u32
  i_nlink :: u32
  i_size :: u64
  i_generation :: u32
  i_fop :: fops
  i_times :: u64
  i_private :: "u32 list option"
  i_dirty :: bool
  i_rwsem :: rwsem

type_synonym iref = nat

record fs =
  env :: kenv
  now :: nat
  cache :: "u32 \<Rightarrow> block"
  disk :: "u32 \<Rightarrow> block"
  dirty :: "u32 \<Rightarrow> bool"
  refs :: "u32 \<Rightarrow> int"
  rdonly :: bool
  info :: xv6_fs_info
  balloc_hint :: u64
  balloc_lock :: bool
  itable_lock :: bool
  inodes :: "iref \<Rightarrow> vinode"
  inode_tree :: "iref list"
  itree_lock :: bool
  refcount :: "iref \<Rightarrow> int"
  next_iref :: iref

section \<open>Kernel services\<close>

definition xv6_assert :: "bool \<Rightarrow> unit option" where
  "xv6_assert c = (if c then Some () else None)"

definition tick :: "fs \<Rightarrow> fs" where
  "tick s = s\<lparr>now := Suc (now s)\<rparr>"

definition sb_bread :: "u32 \<Rightarrow> fs \<Rightarrow> u32 option \<times> fs" where
  "sb_bread b s =
     (if env_bread (env s) (now s) b
      then (Some b, s\<lparr>now := Suc (now s), refs := (refs s)(b := refs s b + 1)\<rparr>)
      else (None, s\<lparr>now := Suc (now s)\<rparr>))"

definition brelse :: "u32 \<Rightarrow> fs \<Rightarrow> fs" where
  "brelse bh s = s\<lparr>refs := (refs s)(bh := refs s bh - 1)\<rparr>"

definition b_data :: "u32 \<Rightarrow> fs \<Rightarrow> block" where
  "b_data bh s = cache s bh"

definition b_store :: "u32 \<Rightarrow> block \<Rightarrow> fs \<Rightarrow> fs" where
  "b_store bh d s = s\<lparr>cache := (cache s)(bh := d)\<rparr>"

definition mark_buffer_dirty :: "u32 \<Rightarrow> fs \<Rightarrow> fs" where
  "mark_buffer_dirty bh s = s\<lparr>dirty := (dirty s)(bh := True)\<rparr>"

definition sync_dirty_buffer :: "u32 \<Rightarrow> fs \<Rightarrow> int \<times> fs" where
  "sync_dirty_buffer bh s =
     (if dirty s bh
      then (let e = env_sync (env s) (now s) bh;
                s' = s\<lparr>now := Suc (now s), dirty := (dirty s)(bh := False)\<rparr>
            in if e = 0 then (0, s'\<lparr>disk := (disk s)(bh := cache s bh)\<rparr>) else (e, s'))
      else (0, s))"

definition mutex_lock_balloc :: "fs \<Rightarrow> fs option" where
  "mutex_lock_balloc s = (if balloc_lock s then None else Some (s\<lparr>balloc_lock := True\<rparr>))"

definition mutex_unlock_balloc :: "fs \<Rightarrow> fs" where
  "mutex_unlock_balloc s = s\<lparr>balloc_lock := False\<rparr>"

definition xv6_lock_itable :: "fs \<Rightarrow> fs option" where
  "xv6_lock_itable s = (if itable_lock s then None else Some (s\<lparr>itable_lock := True\<rparr>))"

definition xv6_unlock_itable :: "fs \<Rightarrow> fs" where
  "xv6_unlock_itable s = s\<lparr>itable_lock := False\<rparr>"

lemma xv6_assert_Some [simp]: "xv6_assert c = Some u \<longleftrightarrow> c"
  and xv6_assert_True [simp]: "xv6_assert True = Some ()"
  and xv6_assert_False [simp]: "xv6_assert False = None"
  by (auto simp: xv6_assert_def)

text \<open>
  \<open>quiet s s'\<close>: nothing but the service counter changed. \<open>same_view s s'\<close>: the
  buffer contents, geometry and flags agree (references and counters may differ).
\<close>

definition quiet :: "fs \<Rightarrow> fs \<Rightarrow> bool" where
  "quiet s s' \<longleftrightarrow> s' = s\<lparr>now := now s'\<rparr>"

lemma quiet_refl [simp]: "quiet s s"
  by (simp add: quiet_def)

lemma quiet_now [simp]: "quiet s (s\<lparr>now := n\<rparr>)"
  by (simp add: quiet_def)

lemma quiet_trans: "quiet s s' \<Longrightarrow> quiet s' s'' \<Longrightarrow> quiet s s''"
  by (cases s; cases s'; cases s''; simp add: quiet_def)

lemma quietD:
  assumes "quiet s s'"
  shows "cache s' = cache s" "disk s' = disk s" "dirty s' = dirty s" "refs s' = refs s"
    "info s' = info s" "rdonly s' = rdonly s" "env s' = env s" "balloc_hint s' = balloc_hint s"
    "balloc_lock s' = balloc_lock s" "itable_lock s' = itable_lock s" "inodes s' = inodes s"
  using assms by (cases s; cases s'; simp add: quiet_def)+

lemma sb_bread_cases:
  obtains (fail) s' where "sb_bread b s = (None, s')" "quiet s s'"
  | (ok) s' where "sb_bread b s = (Some b, s')" "s' = s\<lparr>now := Suc (now s), refs := (refs s)(b := refs s b + 1)\<rparr>"
  by (cases "env_bread (env s) (now s) b") (auto simp: sb_bread_def quiet_def)

lemma bread_brelse: "sb_bread b s = (Some bh, s') \<Longrightarrow> bh = b \<and> quiet s (brelse bh s')"
  by (auto simp: sb_bread_def brelse_def quiet_def split: if_splits)

text \<open>The common pattern of the module: store into a buffer, mark it dirty, write it out.\<close>

lemma store_flush:
  "sync_dirty_buffer bh (mark_buffer_dirty bh (b_store bh d s)) = (err, s') \<Longrightarrow>
   s' = s\<lparr>now := Suc (now s), cache := (cache s)(bh := d), dirty := (dirty s)(bh := False),
          disk := (if err = 0 then (disk s)(bh := d) else disk s)\<rparr>"
  by (auto simp: sync_dirty_buffer_def mark_buffer_dirty_def b_store_def Let_def split: if_splits)

text \<open>
  \<open>touches B s s'\<close>: apart from the service counter and the allocation hint, only the
  buffers, disk blocks and dirty flags of the blocks in \<open>B\<close> may differ. In particular
  every buffer reference taken was dropped, and no lock changed hands.
\<close>

definition touches :: "u32 set \<Rightarrow> fs \<Rightarrow> fs \<Rightarrow> bool" where
  "touches B s s' \<longleftrightarrow>
     s' = s\<lparr>now := now s', cache := cache s', disk := disk s', dirty := dirty s',
            balloc_hint := balloc_hint s'\<rparr>
     \<and> (\<forall>x. x \<notin> B \<longrightarrow> cache s' x = cache s x \<and> disk s' x = disk s x \<and> dirty s' x = dirty s x)"

lemma touchesD:
  assumes "touches B s s'"
  shows "refs s' = refs s" "info s' = info s" "rdonly s' = rdonly s" "env s' = env s"
    "balloc_lock s' = balloc_lock s" "itable_lock s' = itable_lock s" "inodes s' = inodes s"
  using assms by (cases s; cases s'; simp add: touches_def)+

lemma touches_cache: "touches B s s' \<Longrightarrow> x \<notin> B \<Longrightarrow> cache s' x = cache s x"
  by (auto simp: touches_def)

lemma touches_disk: "touches B s s' \<Longrightarrow> x \<notin> B \<Longrightarrow> disk s' x = disk s x"
  by (auto simp: touches_def)

lemma touches_mono: "touches B s s' \<Longrightarrow> B \<subseteq> B' \<Longrightarrow> touches B' s s'"
  by (cases s; cases s'; simp add: touches_def) blast

lemma touches_trans: "touches B s s' \<Longrightarrow> touches B s' s'' \<Longrightarrow> touches B s s''"
  by (cases s; cases s'; cases s''; simp add: touches_def)

lemma quiet_touches: "quiet s s' \<Longrightarrow> touches B s s'"
  by (cases s; cases s'; simp add: quiet_def touches_def)

lemma touches_refl [simp]: "touches B s s"
  by (simp add: quiet_touches)

lemma touches_hint: "touches B s s' \<Longrightarrow> touches B s (s'\<lparr>balloc_hint := h\<rparr>)"
  by (cases s; cases s'; simp add: touches_def)

section \<open>A sample state\<close>

text \<open>
  A concrete mounted file system for examples: the geometry \<^verbatim>\<open>mkxv6\<close> gives an image
  (2000 blocks, 31 log blocks, 200 inodes), all buffers zero, no service call ever fails.
\<close>

definition sample_env :: kenv where
  "sample_env = \<lparr>env_bread = (\<lambda>_ _. True), env_sync = (\<lambda>_ _. 0), env_alloc = (\<lambda>_. True),
     env_fault = (\<lambda>_. False), env_random = (\<lambda>_. 0),
     env_copied = (\<lambda>_. 0)\<rparr>"

definition sample_info :: xv6_fs_info where
  "sample_info = \<lparr>fi_size = 2000, fi_nblocks = 1954, fi_ninodes = 200, fi_nlog = 31, fi_logstart = 1,
     fi_inodestart = 32, fi_bmapstart = 45, fi_ninode_blocks = 13, fi_nbmap_blocks = 1,
     fi_uid = 0, fi_gid = 0\<rparr>"

definition sample_inode :: vinode where
  "sample_inode = \<lparr>i_ino = 0, i_mode = 0, i_uid = 0, i_gid = 0, i_nlink = 0, i_size = 0,
     i_generation = 0, i_fop = XV6_FILE_OPS, i_times = 0, i_private = None, i_dirty = False,
     i_rwsem = Unlocked\<rparr>"

definition sample_fs :: fs where
  "sample_fs = \<lparr>env = sample_env, now = 0, cache = (\<lambda>_. zero_block), disk = (\<lambda>_. zero_block),
     dirty = (\<lambda>_. False), refs = (\<lambda>_. 0), rdonly = False, info = sample_info, balloc_hint = 46,
     balloc_lock = False, itable_lock = False, inodes = (\<lambda>_. sample_inode),
     inode_tree = [], itree_lock = False, refcount = (\<lambda>_. 0), next_iref = 0\<rparr>"

lemmas sample_defs = sample_fs_def sample_info_def sample_env_def

lemma sample_faultfree [simp]: "env_bread (env sample_fs) n b" "env_sync (env sample_fs) n b = 0"
  by (simp_all add: sample_defs)

end
