(* ===== verification/Block_Alloc.thy ===== *)
theory Block_Alloc
  imports Buffer_Cache
begin

text \<open>
  The block allocator of \<^verbatim>\<open>balloc.c\<close>: a bitmap of one bit per block, scanned from a
  hint. The kernel reads the bitmap as an array of native \<^verbatim>\<open>unsigned int\<close>.
\<close>

section \<open>The operations\<close>

definition bit_mask :: "u32 \<Rightarrow> u32" where
  "bit_mask block = push_bit (unat (block mod 32)) 1"

definition bit_index :: "u32 \<Rightarrow> nat" where
  "bit_index block = unat ((block mod BPB) div 32)"

definition xv6_bzero :: "u32 \<Rightarrow> fs \<Rightarrow> int \<times> fs" where
  "xv6_bzero block s =
     (if rdonly s then (- EROFS, s)
      else case sb_bread block s of
        (None, s) \<Rightarrow> (- EIO, s)
      | (Some bh, s) \<Rightarrow>
          (let s = b_store bh zero_block s;
               s = mark_buffer_dirty bh s;
               (error, s) = sync_dirty_buffer bh s;
               s = brelse bh s
           in (error, s)))"

definition xv6_bfree_unsafe :: "u32 \<Rightarrow> fs \<Rightarrow> (int \<times> fs) option" where
  "xv6_bfree_unsafe block s =
     (if rdonly s then Some (- EROFS, s)
      else do {
        _ \<leftarrow> xv6_assert (block < fi_size (info s));
        _ \<leftarrow> xv6_assert (block \<ge> fi_bmapstart (info s) + BITMAP_BLOCKS (fi_size (info s)));
        let msk = bit_mask block;
        let index = bit_index block;
        let bitmap_block = block div BPB + fi_bmapstart (info s);
        case sb_bread bitmap_block s of
          (None, s) \<Rightarrow> Some (- EIO, s)
        | (Some bh, s) \<Rightarrow>
            (let word = rd32 (b_data bh s) (4 * index)
             in if word AND msk = 0 then Some (0, brelse bh s)
                else
                  (let s = b_store bh (wr32 (b_data bh s) (4 * index) (word AND NOT msk)) s;
                       s = mark_buffer_dirty bh s;
                       (error, s) = sync_dirty_buffer bh s;
                       s = brelse bh s
                   in Some (error, s)))
      })"

text \<open>
  \<^verbatim>\<open>xv6_balloc_rng\<close>: \<open>balloc_claim\<close> is the branch of the inner loop that has found
  a clear bit, \<open>balloc_while\<close> the inner loop over one bitmap block, the recursion of
  \<open>xv6_balloc_rng\<close> the jump back to \<^verbatim>\<open>try_balloc\<close>. The results are the flag
  \<^verbatim>\<open>succ\<close>, the cursor \<^verbatim>\<open>alloc\<close>, \<^verbatim>\<open>error\<close>, \<^verbatim>\<open>*block\<close> and the state.
\<close>

definition balloc_claim :: "u32 \<Rightarrow> u32 \<Rightarrow> u32 \<Rightarrow> fs \<Rightarrow> int \<times> u32 \<times> fs" where
  "balloc_claim bh alloc blk s =
     (let (error, s) = xv6_bzero alloc s
      in if error \<noteq> 0 then (error, blk, s\<lparr>balloc_hint := ucast alloc\<rparr>)
         else
           (let word = rd32 (b_data bh s) (4 * bit_index alloc);
                s = b_store bh (wr32 (b_data bh s) (4 * bit_index alloc) (word OR bit_mask alloc)) s;
                s = mark_buffer_dirty bh s;
                (error, s) = sync_dirty_buffer bh s
            in (error, alloc, s\<lparr>balloc_hint := ucast (alloc + 1)\<rparr>)))"

function balloc_while ::
    "u32 \<Rightarrow> u32 \<Rightarrow> u32 \<Rightarrow> u32 \<Rightarrow> fs \<Rightarrow> bool \<times> u32 \<times> int \<times> u32 \<times> fs" where
  "balloc_while bh alloc iter_end blk s =
     (if alloc < iter_end
      then if bit_mask alloc AND rd32 (b_data bh s) (4 * bit_index alloc) = 0
           then (let (error, blk, s) = balloc_claim bh alloc blk s
                 in (True, alloc, error, blk, s))
           else balloc_while bh (alloc + 1) iter_end blk s
      else (False, alloc, 0, blk, s))"
  by pat_completeness auto
termination
  by (relation "measure (\<lambda>(bh, alloc, iter_end, blk, s). unat iter_end - unat alloc)")
    (auto intro: measure_Suc)

declare balloc_while.simps [simp del]

partial_function (option) xv6_balloc_rng ::
    "u32 \<Rightarrow> u32 \<Rightarrow> u32 \<Rightarrow> fs \<Rightarrow> (int \<times> u32 \<times> fs) option" where
  "xv6_balloc_rng alloc end blk s =
     (let bitblock = alloc div BPB + fi_bmapstart (info s)
      in case sb_bread bitblock s of
        (None, s) \<Rightarrow> Some (- EIO, blk, s\<lparr>balloc_hint := ucast alloc\<rparr>)
      | (Some bh, s) \<Rightarrow>
          (let iter_end = (alloc + BPB - 1) div BPB * BPB;
               iter_end = (if iter_end > end then end else iter_end);
               (succ, alloc, error, blk, s) = balloc_while bh alloc iter_end blk s;
               s = brelse bh s
           in if \<not> succ \<and> alloc < end then xv6_balloc_rng alloc end blk s
              else Some (error, blk, s)))"

definition balloc_wrap_hint :: "u32 \<Rightarrow> u32 \<Rightarrow> fs \<Rightarrow> fs" where
  "balloc_wrap_hint data_start data_end s =
     (let hint = (ucast (balloc_hint s) :: u32)
      in s\<lparr>balloc_hint := (if hint \<ge> data_end then ucast data_start else ucast hint)\<rparr>)"

definition xv6_balloc_unsafe :: "u32 \<Rightarrow> fs \<Rightarrow> (int \<times> u32 \<times> fs) option" where
  "xv6_balloc_unsafe blk s =
     (if rdonly s then Some (- EROFS, blk, s)
      else do {
        let data_start = fi_bmapstart (info s) + BITMAP_BLOCKS (fi_size (info s));
        let data_end = fi_size (info s);
        let hint = (ucast (balloc_hint s) :: u32);
        (error, blk, s) \<leftarrow>
          (if hint < data_end then xv6_balloc_rng hint data_end 0 s else Some (0, 0, s));
        if hint < data_end \<and> (blk \<noteq> 0 \<or> error \<noteq> 0)
        then Some (error, blk, balloc_wrap_hint data_start data_end s)
        else do {
          (error, blk, s) \<leftarrow>
            (if data_start < hint then xv6_balloc_rng data_start hint blk s
             else Some (error, blk, s));
          if data_start < hint \<and> (blk \<noteq> 0 \<or> error \<noteq> 0)
          then Some (error, blk, balloc_wrap_hint data_start data_end s)
          else Some (0, blk, s)
        }
      })"

definition xv6_balloc :: "u32 \<Rightarrow> fs \<Rightarrow> (int \<times> u32 \<times> fs) option" where
  "xv6_balloc blk s = do {
     s \<leftarrow> mutex_lock_balloc s;
     (error, blk, s) \<leftarrow> xv6_balloc_unsafe blk s;
     Some (error, blk, mutex_unlock_balloc s)
   }"

definition xv6_bfree :: "u32 \<Rightarrow> fs \<Rightarrow> (int \<times> fs) option" where
  "xv6_bfree block s = do {
     s \<leftarrow> mutex_lock_balloc s;
     (error, s) \<leftarrow> xv6_bfree_unsafe block s;
     Some (error, mutex_unlock_balloc s)
   }"

section \<open>The bitmap\<close>

definition data_start :: "xv6_fs_info \<Rightarrow> u32" where
  "data_start i = fi_bmapstart i + BITMAP_BLOCKS (fi_size i)"

definition bmblk :: "xv6_fs_info \<Rightarrow> u32 \<Rightarrow> u32" where
  "bmblk i b = b div BPB + fi_bmapstart i"

definition blk_bit :: "block \<Rightarrow> u32 \<Rightarrow> bool" where
  "blk_bit d b = bit (rd32 d (4 * bit_index b)) (unat (b mod 32))"

definition bm_used :: "fs \<Rightarrow> u32 \<Rightarrow> bool" where
  "bm_used s b = blk_bit (cache s (bmblk (info s) b)) b"

text \<open>The geometry mounting establishes: the bitmap lies inside the disk.\<close>

definition wf_geom :: "xv6_fs_info \<Rightarrow> bool" where
  "wf_geom i \<longleftrightarrow> 0 < fi_bmapstart i
     \<and> unat (fi_bmapstart i) + unat (BITMAP_BLOCKS (fi_size i)) \<le> unat (fi_size i)"

lemma unat_BITMAP_BLOCKS: "unat (BITMAP_BLOCKS n) = unat n div 8192 + 1"
proof -
  have "unat n div 8192 + 1 < 2 ^ 32"
    using unat_lt2p [of n] by simp
  then show ?thesis
    by (simp add: BITMAP_BLOCKS_def BPB_val unat_word_ariths unat_div)
qed

lemma unat_data_start:
  "wf_geom i \<Longrightarrow> unat (data_start i) = unat (fi_bmapstart i) + unat (BITMAP_BLOCKS (fi_size i))"
  unfolding data_start_def wf_geom_def using unat_lt2p [of "fi_size i"]
  by (intro unat_add_no_wrap) simp

lemma data_start_le_size: "wf_geom i \<Longrightarrow> data_start i \<le> fi_size i"
  using unat_data_start [of i] by (simp add: word_le_unat wf_geom_def)

lemma unat_bmblk:
  "wf_geom i \<Longrightarrow> b < fi_size i \<Longrightarrow> unat (bmblk i b) = unat b div 8192 + unat (fi_bmapstart i)"
proof -
  assume w: "wf_geom i" "b < fi_size i"
  then have "unat b div 8192 \<le> unat (fi_size i) div 8192"
    by (intro div_le_mono) (simp add: word_less_unat)
  with w have "unat (b div BPB) + unat (fi_bmapstart i) < 2 ^ 32"
    using unat_lt2p [of "fi_size i"] by (simp add: wf_geom_def unat_BITMAP_BLOCKS unat_div BPB_val)
  from unat_add_no_wrap [OF this] show ?thesis
    by (simp add: bmblk_def unat_div BPB_val)
qed

text \<open>Every bit of a block of the disk lies in a bitmap block, and no data block is one.\<close>

lemma bmblk_bounds:
  assumes "wf_geom i" "b < fi_size i"
  shows "fi_bmapstart i \<le> bmblk i b" "bmblk i b < data_start i"
proof -
  have "unat b div 8192 \<le> unat (fi_size i) div 8192"
    using assms by (intro div_le_mono) (simp add: word_less_unat)
  then show "fi_bmapstart i \<le> bmblk i b" "bmblk i b < data_start i"
    using assms by (simp_all add: word_le_unat word_less_unat unat_bmblk unat_data_start
        unat_BITMAP_BLOCKS)
qed

lemma data_not_bmblk: "wf_geom i \<Longrightarrow> x < fi_size i \<Longrightarrow> data_start i \<le> f \<Longrightarrow> bmblk i x \<noteq> f"
  using bmblk_bounds(2) [of i x] by auto

lemma bmblk_eq_iff: "bmblk i x = bmblk i y \<longleftrightarrow> x div BPB = y div BPB"
  by (simp add: bmblk_def)

lemma bit_pos_inj:
  assumes "x div BPB = y div BPB" "bit_index x = bit_index y" "unat (x mod 32) = unat (y mod 32)"
  shows "x = y"
proof -
  have d: "unat x div 8192 = unat y div 8192"
    using assms(1) by (simp add: word_eq_unat unat_div BPB_val)
  have i: "unat x mod 8192 div 32 = unat y mod 8192 div 32"
    using assms(2) by (simp add: bit_index_def unat_div unat_mod BPB_val)
  have m: "unat x mod 8192 mod 32 = unat y mod 8192 mod 32"
    using assms(3) by (simp add: unat_mod mod_mod_cancel)
  from i m have "unat x mod 8192 = unat y mod 8192"
    by (rule div_mod_eq_nat)
  with d have "unat x = unat y"
    by (rule div_mod_eq_nat)
  then show ?thesis by (simp add: word_eq_unat)
qed

lemma bit_index_bound: "bit_index b < 256"
proof -
  have "unat b mod 8192 < 8192" by simp
  then show ?thesis
    by (simp add: bit_index_def unat_div unat_mod BPB_val div_less_iff_less_mult)
qed

lemma mod32_bound: "unat (b mod 32 :: u32) < 32"
  by (simp add: unat_mod)

lemma bit_mask_pow: "bit_mask b = 2 ^ unat (b mod 32)"
  by (simp add: bit_mask_def)

lemma mask_test: "bit_mask b AND rd32 d (4 * bit_index b) = 0 \<longleftrightarrow> \<not> blk_bit d b"
    "rd32 d (4 * bit_index b) AND bit_mask b = 0 \<longleftrightarrow> \<not> blk_bit d b"
  by (simp_all add: bit_mask_pow blk_bit_def and.commute [of "rd32 d (4 * bit_index b)"])

lemma blk_bit_set:
  "x div BPB = f div BPB \<Longrightarrow>
   blk_bit (wr32 d (4 * bit_index f) (rd32 d (4 * bit_index f) OR bit_mask f)) x
     \<longleftrightarrow> blk_bit d x \<or> x = f"
  using bit_pos_inj [of x f] mod32_bound [of f]
  by (auto simp: blk_bit_def bit_mask_pow rd32_wr32_slot simp del: mod32_bound)

lemma blk_bit_clear:
  "x div BPB = f div BPB \<Longrightarrow>
   blk_bit (wr32 d (4 * bit_index f) (rd32 d (4 * bit_index f) AND NOT (bit_mask f))) x
     \<longleftrightarrow> blk_bit d x \<and> x \<noteq> f"
  using bit_pos_inj [of x f]
  by (auto simp: blk_bit_def bit_mask_pow rd32_wr32_slot)

section \<open>The scan\<close>

text \<open>The bitmap block of \<open>f\<close> with the bit of \<open>f\<close> set.\<close>

definition bitmap_with :: "fs \<Rightarrow> u32 \<Rightarrow> block" where
  "bitmap_with s f = (let d = cache s (bmblk (info s) f)
     in wr32 d (4 * bit_index f) (rd32 d (4 * bit_index f) OR bit_mask f))"

text \<open>\<open>f\<close> was handed out as \<open>b\<close>: zeroed and marked in the buffers (perhaps not on disk).\<close>

definition claim_cached :: "fs \<Rightarrow> u32 \<Rightarrow> u32 \<Rightarrow> fs \<Rightarrow> bool" where
  "claim_cached s f b s' \<longleftrightarrow> b = f \<and> cache s' f = zero_block \<and> cache s' (bmblk (info s) f) = bitmap_with s f"

definition claimed :: "fs \<Rightarrow> u32 \<Rightarrow> fs \<Rightarrow> bool" where
  "claimed s f s' \<longleftrightarrow> (let bb = bmblk (info s) f;
        d = bitmap_with s f
     in s' = s\<lparr>now := now s', cache := (cache s)(f := zero_block, bb := d),
          disk := (disk s)(f := zero_block, bb := d),
          dirty := (dirty s)(f := False, bb := False), balloc_hint := balloc_hint s'\<rparr>)"

lemma claimedD:
  assumes "claimed s f s'"
  shows "info s' = info s" "rdonly s' = rdonly s" "refs s' = refs s" "env s' = env s"
    "balloc_lock s' = balloc_lock s" "itable_lock s' = itable_lock s" "inodes s' = inodes s"
    "cache s' = (cache s)(f := zero_block, bmblk (info s) f := bitmap_with s f)"
    "disk s' = (disk s)(f := zero_block, bmblk (info s) f := bitmap_with s f)"
  using assms by (cases s; cases s'; simp add: claimed_def Let_def)+

lemma claimed_touches: "claimed s f s' \<Longrightarrow> touches {f, bmblk (info s) f} s s'"
  by (cases s; cases s') (simp add: claimed_def touches_def Let_def)

lemma bzero_ok:
  "xv6_bzero a s = (0, s') \<Longrightarrow> s' = s\<lparr>now := now s', cache := (cache s)(a := zero_block),
     disk := (disk s)(a := zero_block), dirty := (dirty s)(a := False)\<rparr>"
  unfolding xv6_bzero_def sb_bread_def b_store_def mark_buffer_dirty_def
      sync_dirty_buffer_def brelse_def Let_def
  by (auto split: if_splits)

lemma bzero_touches: "xv6_bzero a s = (e, s') \<Longrightarrow> touches {a} s s'"
  by (auto simp: touches_def xv6_bzero_def sb_bread_def b_store_def mark_buffer_dirty_def
      sync_dirty_buffer_def brelse_def Let_def split: if_splits)

lemma balloc_claim_ok:
  assumes "balloc_claim bh f blk s = (0, b, s')" "bh = bmblk (info s) f" "bh \<noteq> f"
  shows "b = f \<and> claimed s f s'"
proof -
  obtain e1 s1 where bz: "xv6_bzero f s = (e1, s1)" by force
  with assms(1) have e1: "e1 = 0" by (auto simp: balloc_claim_def split: if_splits)
  from bzero_ok [OF bz [unfolded e1]] assms bz e1 show ?thesis
    by (cases s; cases s1) (auto simp: balloc_claim_def claimed_def bitmap_with_def b_data_def b_store_def mark_buffer_dirty_def
        sync_dirty_buffer_def Let_def fun_upd_twist split: if_splits)
qed

lemma balloc_claim_touches:
  assumes "balloc_claim bh f blk s = (e, b, s')"
  shows "touches {f, bh} s s' \<and> (b = blk \<or> b = f)
    \<and> (balloc_hint s' = ucast f \<or> balloc_hint s' = ucast (f + 1))
    \<and> (bh = bmblk (info s) f \<longrightarrow> bh \<noteq> f \<longrightarrow>
         (b = blk \<and> cache s' bh = cache s bh) \<or> claim_cached s f b s')"
proof -
  obtain e1 s1 where bz: "xv6_bzero f s = (e1, s1)" by force
  then have t1: "touches {f, bh} s s1"
    using bzero_touches touches_mono by blast
  have c1: "bh \<noteq> f \<Longrightarrow> cache s1 bh = cache s bh"
    using touches_cache [OF bzero_touches [OF bz]] by simp
  show ?thesis
  proof (cases "e1 = 0")
    case False
    with assms bz t1 show ?thesis
      using c1 by (auto simp: balloc_claim_def intro: touches_hint)
  next
    case True
    have z: "cache s1 f = zero_block" "info s1 = info s"
      using bzero_ok [OF bz [unfolded True]] touchesD(2) [OF t1] by (cases s; cases s1; simp)+
    from True assms bz have "touches {f, bh} s1 s'" "b = f" "balloc_hint s' = ucast (f + 1)"
        "bh = bmblk (info s) f \<longrightarrow> bh \<noteq> f \<longrightarrow> claim_cached s f b s'"
      using c1 z
      by (auto simp: bitmap_with_def claim_cached_def touches_def balloc_claim_def b_data_def b_store_def mark_buffer_dirty_def
          sync_dirty_buffer_def Let_def split: if_splits)
    with t1 show ?thesis by (blast intro: touches_trans)
  qed
qed

lemma word_interval_step:
  "a < (e :: u32) \<Longrightarrow> (a + 1 \<le> x) \<longleftrightarrow> a < x"
  using unat_Suc_less [of a e] by (simp add: word_less_unat word_le_unat Suc_le_eq)

lemma balloc_while_cases:
  assumes "a \<le> e"
  obtains (full) "\<And>x. a \<le> x \<Longrightarrow> x < e \<Longrightarrow> blk_bit (cache s bh) x"
      "balloc_while bh a e blk s = (False, e, 0, blk, s)"
  | (hit) f err b s' where "a \<le> f" "f < e" "\<not> blk_bit (cache s bh) f"
      "\<And>x. a \<le> x \<Longrightarrow> x < f \<Longrightarrow> blk_bit (cache s bh) x"
      "balloc_claim bh f blk s = (err, b, s')"
      "balloc_while bh a e blk s = (True, f, err, b, s')"
  using assms
proof (induction bh a e blk s arbitrary: thesis rule: balloc_while.induct)
  case (1 bh a e blk s)
  consider "a = e" | "a < e" "\<not> blk_bit (cache s bh) a" | "a < e" "blk_bit (cache s bh) a"
    using "1.prems"(3) by force
  then show ?case
  proof cases
    case 1
    then show ?thesis
      using "1.prems"(1) by (auto simp: balloc_while.simps)
  next
    case 2
    obtain err b s' where "balloc_claim bh a blk s = (err, b, s')" by (metis prod_cases3)
    with 2 show ?thesis
      using "1.prems"(2) [of a err b s'] by (auto simp: balloc_while.simps mask_test b_data_def)
  next
    case 3
    have rec: "balloc_while bh a e blk s = balloc_while bh (a + 1) e blk s"
      using 3 by (subst balloc_while.simps) (simp add: mask_test b_data_def)
    have le: "a + 1 \<le> e" using 3(1) word_interval_step by blast
    have used: "blk_bit (cache s bh) x" if "a \<le> x" "a + 1 \<le> x \<Longrightarrow> blk_bit (cache s bh) x" for x
      using 3 that word_interval_step [OF 3(1), of x] by (cases "x = a") auto
    show ?thesis
    proof (rule "1.IH" [OF 3(1) _ _ _ le])
      show "bit_mask a AND rd32 (b_data bh s) (4 * bit_index a) \<noteq> 0"
        using 3 by (simp add: mask_test b_data_def)
    next
      assume *: "\<And>x. a + 1 \<le> x \<Longrightarrow> x < e \<Longrightarrow> blk_bit (cache s bh) x"
        "balloc_while bh (a + 1) e blk s = (False, e, 0, blk, s)"
      show thesis
        by (rule "1.prems"(1)) (use * rec used in auto)
    next
      fix f err b s'
      assume *: "a + 1 \<le> f" "f < e" "\<not> blk_bit (cache s bh) f"
        "\<And>x. a + 1 \<le> x \<Longrightarrow> x < f \<Longrightarrow> blk_bit (cache s bh) x"
        "balloc_claim bh f blk s = (err, b, s')"
        "balloc_while bh (a + 1) e blk s = (True, f, err, b, s')"
      have "a \<le> f" using *(1) word_interval_step [OF 3(1), of f] by simp
      then show thesis
        by (rule "1.prems"(2)) (use * rec used in auto)
    qed
  qed
qed

definition chunk_end :: "u32 \<Rightarrow> u32" where
  "chunk_end a = (a + BPB - 1) div BPB * BPB"

lemma unat_chunk_end:
  "unat a + 8191 < 2 ^ 32 \<Longrightarrow> unat (chunk_end a) = (unat a + 8191) div 8192 * 8192"
  "2 ^ 32 \<le> unat a + 8191 \<Longrightarrow> chunk_end a = 0"
proof -
  have eq: "a + BPB - 1 = a + 8191" by (simp add: BPB_val)
  {
    assume lt: "unat a + 8191 < 2 ^ 32"
    then have "unat (a + 8191) = unat a + 8191"
      using unat_add_no_wrap [of a 8191] by simp
    moreover have "(unat a + 8191) div 8192 * 8192 \<le> unat a + 8191" by simp
    ultimately show "unat (chunk_end a) = (unat a + 8191) div 8192 * 8192"
      using lt by (simp add: chunk_end_def eq unat_word_ariths unat_div BPB_val)
  next
    assume ge: "2 ^ 32 \<le> unat a + 8191"
    have "unat (a + 8191) = (unat a + 8191) mod 2 ^ 32"
      by (simp add: unat_word_ariths)
    also have "\<dots> = unat a + 8191 - 2 ^ 32"
      using ge unat_lt2p [of a] by (simp add: mod_if)
    finally have "unat (a + 8191) < 8192"
      using unat_lt2p [of a] by simp
    then have "(a + 8191) div BPB = 0"
      by (simp add: word_eq_unat unat_div BPB_val)
    then show "chunk_end a = 0"
      by (simp add: chunk_end_def eq)
  }
qed

lemma chunk_same_block:
  assumes "a \<le> x" "x < chunk_end a"
  shows "x div BPB = a div BPB"
proof -
  have nw: "unat a + 8191 < 2 ^ 32"
    using assms(2) unat_chunk_end(2) [of a] by (cases "unat a + 8191 < 2 ^ 32") auto
  have "unat x < (unat a + 8191) div 8192 * 8192"
    using assms(2) by (simp add: word_less_unat unat_chunk_end(1) [OF nw])
  then have "unat x div 8192 < (unat a + 8191) div 8192"
    by (simp add: less_mult_imp_div_less)
  moreover have "(unat a + 8191) div 8192 \<le> (unat a + 8192) div 8192"
    by (intro div_le_mono) simp
  moreover have "unat a div 8192 \<le> unat x div 8192"
    using assms(1) by (intro div_le_mono) (simp add: word_le_unat)
  ultimately have "unat x div 8192 = unat a div 8192" by simp
  then show ?thesis by (simp add: word_eq_unat unat_div BPB_val)
qed

text \<open>
  What a scan of \<open>[a, e)\<close> can end with: the bitmap block cannot be read; a clear bit was
  found, and claiming it failed or succeeded; or every bit is set.
\<close>

definition first_free :: "fs \<Rightarrow> u32 \<Rightarrow> u32 \<Rightarrow> u32 \<Rightarrow> bool" where
  "first_free s a e f \<longleftrightarrow> a \<le> f \<and> f < e \<and> \<not> bm_used s f \<and> (\<forall>x. a \<le> x \<and> x < f \<longrightarrow> bm_used s x)"

definition hint_near :: "fs \<Rightarrow> u32 \<Rightarrow> u32 \<Rightarrow> bool" where
  "hint_near s a e \<longleftrightarrow> (\<exists>g. a \<le> g \<and> g < e \<and> (balloc_hint s = ucast g \<or> balloc_hint s = ucast (g + 1)))"

definition rng_post :: "fs \<Rightarrow> u32 \<Rightarrow> u32 \<Rightarrow> u32 \<Rightarrow> int \<times> u32 \<times> fs \<Rightarrow> bool" where
  "rng_post s a e blk r = (case r of (err, b, s') \<Rightarrow>
     (err \<noteq> 0 \<and> b = blk \<and> touches {} s s' \<and> hint_near s' a e)
     \<or> (\<exists>f. first_free s a e f \<and> err \<noteq> 0 \<and> touches {f, bmblk (info s) f} s s'
          \<and> hint_near s' a e
          \<and> (b = blk \<and> cache s' (bmblk (info s) f) = cache s (bmblk (info s) f)
             \<or> claim_cached s f b s'))
     \<or> (first_free s a e b \<and> err = 0 \<and> claimed s b s' \<and> hint_near s' a e)
     \<or> (err = 0 \<and> b = blk \<and> quiet s s' \<and> (\<forall>x. a \<le> x \<and> x < e \<longrightarrow> bm_used s x)))"

lemma quiet_used: "quiet s s' \<Longrightarrow> bm_used s' = bm_used s"
  by (rule ext) (simp add: bm_used_def quietD)

lemma claimed_quiet: "quiet s s1 \<Longrightarrow> claimed s1 f s' \<Longrightarrow> claimed s f s'"
  by (cases s; cases s1; cases s') (simp add: quiet_def claimed_def bitmap_with_def Let_def)

lemma quiet_then_touches: "quiet s s1 \<Longrightarrow> touches B s1 s' \<Longrightarrow> touches B s s'"
  by (blast intro: touches_trans quiet_touches)

lemma chunk_bits:
  assumes "bh = bmblk (info s) a" "a \<le> x" "x < chunk_end a"
  shows "blk_bit (cache s bh) x \<longleftrightarrow> bm_used s x"
  using chunk_same_block [OF assms(2,3)] assms(1) by (simp add: bm_used_def bmblk_def)

text \<open>One pass of the \<^verbatim>\<open>try_balloc\<close> loop.\<close>

definition rng_pre :: "fs \<Rightarrow> u32 \<Rightarrow> u32 \<Rightarrow> bool" where
  "rng_pre s a e \<longleftrightarrow> wf_geom (info s) \<and> \<not> rdonly s \<and> data_start (info s) \<le> a \<and> a < e \<and> e \<le> fi_size (info s)"

definition rng_pass :: "(u32 \<Rightarrow> u32 \<Rightarrow> u32 \<Rightarrow> fs \<Rightarrow> (int \<times> u32 \<times> fs) option) \<Rightarrow>
    u32 \<Rightarrow> u32 \<Rightarrow> u32 \<Rightarrow> fs \<Rightarrow> (int \<times> u32 \<times> fs) option" where
  "rng_pass again a e blk s =
     (case sb_bread (bmblk (info s) a) s of
        (None, s) \<Rightarrow> Some (- EIO, blk, s\<lparr>balloc_hint := ucast a\<rparr>)
      | (Some bh, s) \<Rightarrow>
          (let (succ, alloc, error, blk, s) = balloc_while bh a (min (chunk_end a) e) blk s
           in if \<not> succ \<and> alloc < e then again alloc e blk (brelse bh s)
              else Some (error, blk, brelse bh s)))"

lemma rng_pass_eq:
  "(let bitblock = a div BPB + fi_bmapstart (info s)
    in case sb_bread bitblock s of
      (None, s) \<Rightarrow> Some (- EIO, blk, s\<lparr>balloc_hint := ucast a\<rparr>)
    | (Some bh, s) \<Rightarrow>
        (let iter_end = (a + BPB - 1) div BPB * BPB;
             iter_end = (if iter_end > e then e else iter_end);
             (succ, alloc, error, blk, s) = balloc_while bh a iter_end blk s;
             s = brelse bh s
         in if \<not> succ \<and> alloc < e then again alloc e blk s else Some (error, blk, s)))
   = rng_pass again a e blk s"
proof -
  have m: "(if e < chunk_end a then e else chunk_end a) = min (chunk_end a) e"
    by (auto simp: min_def)
  show ?thesis
    by (simp only: rng_pass_def Let_def bmblk_def [symmetric] chunk_end_def [symmetric] m)
qed

lemma rng_unfold: "xv6_balloc_rng a e blk s = rng_pass xv6_balloc_rng a e blk s"
  by (subst xv6_balloc_rng.simps) (rule rng_pass_eq)

lemma rng_step:
  assumes pre: "rng_pre s a e"
  obtains (stop) r where "\<And>F. rng_pass F a e blk s = Some r" "rng_post s a e blk r"
  | (again) a' s' where "\<And>F. rng_pass F a e blk s = F a' e blk s'"
      "quiet s s'" "a \<le> a'" "a' < e" "a' = (if a \<le> chunk_end a then chunk_end a else a)"
      "\<And>x. a \<le> x \<Longrightarrow> x < a' \<Longrightarrow> bm_used s x"
proof -
  let ?bh = "bmblk (info s) a" and ?ie = "min (chunk_end a) e"
  show thesis
  proof (cases rule: sb_bread_cases [of ?bh s])
    case (fail s1)
    have "rng_pass F a e blk s = Some (- EIO, blk, s1\<lparr>balloc_hint := ucast a\<rparr>)" for F
      by (simp add: rng_pass_def fail(1))
    moreover have "rng_post s a e blk (- EIO, blk, s1\<lparr>balloc_hint := ucast a\<rparr>)"
      using fail(2) pre by (auto simp: rng_post_def hint_near_def rng_pre_def intro: touches_hint quiet_touches)
    ultimately show ?thesis by (rule stop)
  next
    case (ok s1)
    have c1: "cache s1 = cache s" "info s1 = info s" by (simp_all add: ok(2))
    have unref: "quiet s (brelse ?bh s1)" using bread_brelse [OF ok(1)] by simp
    have bits: "blk_bit (cache s1 ?bh) x \<longleftrightarrow> bm_used s x" if "a \<le> x" "x < ?ie" for x
      using chunk_bits [OF refl that(1), of s] that(2) by (simp add: c1)
    show ?thesis
    proof (cases "a \<le> ?ie")
      case False
      then have "\<not> a < ?ie" by (meson order.strict_implies_order)
      then have w: "balloc_while ?bh a ?ie blk s1 = (False, a, 0, blk, s1)"
        by (subst balloc_while.simps) (simp only: if_False)
      show ?thesis
      proof (cases "a < e")
        case True
        with False have "\<not> a \<le> chunk_end a" by (auto simp: min_def split: if_splits)
        moreover have "rng_pass F a e blk s = F a e blk (brelse ?bh s1)" for F
          by (simp add: rng_pass_def ok(1) w True)
        ultimately show ?thesis using again [OF _ unref] True by simp
      next
        case F: False
        have "rng_pass F a e blk s = Some (0, blk, brelse ?bh s1)" for F
          by (simp add: rng_pass_def ok(1) w F)
        then show ?thesis
          by (rule stop) (use F unref in \<open>auto simp: rng_post_def\<close>)
      qed
    next
      case True
      then show ?thesis
      proof (cases rule: balloc_while_cases [of a ?ie s1 ?bh blk])
        case full
        have used: "bm_used s x" if "a \<le> x" "x < ?ie" for x
          using full(1) [OF that] bits [OF that] by simp
        show ?thesis
        proof (cases "?ie < e")
          case lt: True
          have "rng_pass F a e blk s = F ?ie e blk (brelse ?bh s1)" for F
            by (simp add: rng_pass_def ok(1) full(2) lt)
          moreover have "?ie = chunk_end a" using lt by (auto simp: min_def split: if_splits)
          ultimately show ?thesis using again [OF _ unref] True lt used by simp
        next
          case ge: False
          then have "?ie = e" by (auto simp: min_def split: if_splits)
          moreover have "rng_pass F a e blk s = Some (0, blk, brelse ?bh s1)" for F
            by (simp add: rng_pass_def ok(1) full(2) ge)
          ultimately show ?thesis
            using stop unref used by (simp add: rng_post_def)
        qed
      next
        case (hit f err b s2)
        have res: "rng_pass F a e blk s = Some (err, b, brelse ?bh s2)" for F
          by (simp add: rng_pass_def ok(1) hit(6))
        have ff: "first_free s a e f"
          using hit(1-4) bits by (auto simp: first_free_def min_def split: if_splits)
        have bb: "?bh = bmblk (info s) f"
          using chunk_same_block [of a f] hit(1,2) by (simp add: bmblk_def)
        have nf: "?bh \<noteq> f"
          using pre ff unfolding bb rng_pre_def first_free_def
          by (intro data_not_bmblk) auto
        have t: "touches {f, ?bh} s1 s2 \<and> (b = blk \<or> b = f)
            \<and> (balloc_hint s2 = ucast f \<or> balloc_hint s2 = ucast (f + 1))"
          using balloc_claim_touches [OF hit(5)] by blast
        then have hn: "hint_near (brelse ?bh s2) a e"
          using ff unfolding hint_near_def first_free_def brelse_def by auto
        have cb: "b = blk \<and> cache s2 ?bh = cache s ?bh \<or> claim_cached s f b s2"
          using balloc_claim_touches [OF hit(5)] bb nf c1 by (simp add: bitmap_with_def claim_cached_def)
        from t have t': "touches {f, ?bh} s (brelse ?bh s2)"
          unfolding ok(2) by (cases s; cases s2) (simp add: touches_def brelse_def)
        show ?thesis
        proof (cases "err = 0")
          case True
          then have "b = f \<and> claimed s1 f s2"
            using balloc_claim_ok [OF hit(5) [unfolded True]] bb nf c1 by simp
          then have "claimed s b (brelse ?bh s2)" "b = f"
            unfolding ok(2) by (cases s; cases s2; simp add: claimed_def bitmap_with_def Let_def brelse_def)+
          then show ?thesis using stop [OF res] ff True hn by (simp add: rng_post_def)
        next
          case False
          then show ?thesis using stop [OF res] ff t t' bb hn cb by (auto simp: rng_post_def brelse_def claim_cached_def)
        qed
      qed
    qed
  qed
qed

lemma rng_post_again:
  assumes "quiet s s'" "a \<le> a'" "\<And>x. a \<le> x \<Longrightarrow> x < a' \<Longrightarrow> bm_used s x" "rng_post s' a' e blk r"
  shows "rng_post s a e blk r"
proof -
  have ff: "first_free s a e f" if "first_free s' a' e f" for f
    using that assms(2,3) quiet_used [OF assms(1)] by (fastforce simp: first_free_def)
  obtain err b s'' where r: "r = (err, b, s'')" by (cases r)
  have i: "info s' = info s" using assms(1) by (simp add: quietD)
  have cb: "cache s' = cache s" "claim_cached s' f b s'' = claim_cached s f b s''" for f
    using quietD [OF assms(1)] by (simp_all add: bitmap_with_def claim_cached_def)
  have hn: "hint_near s'' a' e \<Longrightarrow> hint_near s'' a e"
    using assms(2) unfolding hint_near_def by (meson order.trans)
  from assms(4) consider
      "err \<noteq> 0" "b = blk" "touches {} s' s''" "hint_near s'' a' e"
    | f where "first_free s' a' e f" "err \<noteq> 0" "touches {f, bmblk (info s') f} s' s''"
        "hint_near s'' a' e"
        "b = blk \<and> cache s'' (bmblk (info s') f) = cache s' (bmblk (info s') f)
         \<or> claim_cached s' f b s''"
    | "first_free s' a' e b" "err = 0" "claimed s' b s''" "hint_near s'' a' e"
    | "err = 0" "b = blk" "quiet s' s''" "\<forall>x. a' \<le> x \<and> x < e \<longrightarrow> bm_used s' x"
    by (auto simp: rng_post_def r)
  then show ?thesis
  proof cases
    case 1 then show ?thesis using quiet_then_touches [OF assms(1)] hn by (simp add: rng_post_def r)
  next
    case 2
    then have "touches {f, bmblk (info s) f} s s''"
      using quiet_then_touches [OF assms(1)] i by simp
    then show ?thesis
      unfolding rng_post_def r prod.case using 2 ff [OF 2(1)] hn i cb
      by (intro disjI2 disjI1 exI [of _ f]) simp
  next
    case 3 then show ?thesis using claimed_quiet [OF assms(1)] ff hn by (simp add: rng_post_def r)
  next
    case 4
    have "bm_used s x" if "a \<le> x" "x < e" for x
      using that 4(4) assms(3) quiet_used [OF assms(1)] by (cases "x < a'") auto
    with 4 show ?thesis using quiet_trans [OF assms(1)] by (simp add: rng_post_def r)
  qed
qed

lemma rng_pre_quiet: "quiet s s' \<Longrightarrow> a \<le> a' \<Longrightarrow> a' < e \<Longrightarrow> rng_pre s a e \<Longrightarrow> rng_pre s' a' e"
  by (auto simp: rng_pre_def quietD)

text \<open>Whatever the size of the disk: if the scan returns, its result is right.\<close>

lemma rng_sound:
  assumes "xv6_balloc_rng a e blk s = Some r" "rng_pre s a e"
  shows "rng_post s a e blk r"
proof -
  have "rng_pre s a e \<longrightarrow> rng_post s a e blk r"
  proof (rule xv6_balloc_rng.raw_induct
      [where P = "\<lambda>a e blk s r. rng_pre s a e \<longrightarrow> rng_post s a e blk r", OF _ assms(1)],
      unfold rng_pass_eq, rule impI)
    fix F a e blk s r
    assume IH: "\<And>a e blk s r. F a e blk s = Some r \<Longrightarrow> rng_pre s a e \<longrightarrow> rng_post s a e blk r"
      and eq: "rng_pass F a e blk s = Some r" and pre: "rng_pre s a e"
    show "rng_post s a e blk r"
      using pre
    proof (cases rule: rng_step [where blk = blk])
      case (stop r')
      with eq show ?thesis by simp
    next
      case (again a' s')
      with eq have "F a' e blk s' = Some r" by simp
      from IH [OF this] have "rng_post s' a' e blk r"
        using rng_pre_quiet [OF again(2-4) pre] by simp
      with again show ?thesis by (blast intro: rng_post_again)
    qed
  qed
  with assms(2) show ?thesis by simp
qed

text \<open>The scan ends after one pass when the range lies in the rest of its bitmap block.\<close>

lemma rng_returns:
  assumes "rng_pre s a e" "e \<le> chunk_end a"
  shows "\<exists>r. xv6_balloc_rng a e blk s = Some r \<and> rng_post s a e blk r"
  using assms(1)
proof (cases rule: rng_step [where blk = blk])
  case (stop r)
  then show ?thesis by (simp add: rng_unfold [of a])
next
  case (again a' s')
  then show ?thesis using assms(2) by (auto split: if_splits)
qed

lemma rng_diverges:
  assumes "a < e" "chunk_end a = a" "\<And>n b. env_bread (env s) n b"
  shows "xv6_balloc_rng a e blk s = None"
proof (rule ccontr)
  assume "xv6_balloc_rng a e blk s \<noteq> None"
  then obtain r where ret: "xv6_balloc_rng a e blk s = Some r" by auto
  have "a < e \<and> chunk_end a = a \<and> (\<forall>n b. env_bread (env s) n b) \<longrightarrow> False"
  proof (rule xv6_balloc_rng.raw_induct
      [where P = "\<lambda>a e blk s r. a < e \<and> chunk_end a = a \<and> (\<forall>n b. env_bread (env s) n b) \<longrightarrow> False",
        OF _ ret], unfold rng_pass_eq, rule impI)
    fix F a e blk s r
    assume IH: "\<And>a e blk s r. F a e blk s = Some r \<Longrightarrow>
        a < e \<and> chunk_end a = a \<and> (\<forall>n b. env_bread (env s) n b) \<longrightarrow> False"
      and eq: "rng_pass F a e blk s = Some r"
      and h: "a < e \<and> chunk_end a = a \<and> (\<forall>n b. env_bread (env s) n b)"
    let ?bh = "bmblk (info s) a"
    obtain s1 where br: "sb_bread ?bh s = (Some ?bh, s1)" "env s1 = env s"
      using h by (simp add: sb_bread_def)
    have w: "balloc_while ?bh a a blk s1 = (False, a, 0, blk, s1)"
      by (subst balloc_while.simps) simp
    have "F a e blk (brelse ?bh s1) = Some r"
      using eq h by (simp add: rng_pass_def br(1) w min_def split: if_splits)
    from IH [OF this] h br(2) show False by (simp add: brelse_def)
  qed
  with assms show False by blast
qed

lemma rng_diverges_full:
  assumes "rng_pre s a e" "a \<le> 8192" "8192 < e" "\<And>n b. env_bread (env s) n b"
    and full: "\<And>x. a \<le> x \<Longrightarrow> x < 8192 \<Longrightarrow> bm_used s x"
  shows "xv6_balloc_rng a e blk s = None"
proof -
  have ce: "chunk_end 8192 = 8192" by (simp add: chunk_end_def BPB_val)
  show ?thesis
  proof (cases "a = 8192")
    case True
    then show ?thesis using rng_diverges [of 8192 e s] assms ce by simp
  next
    case False
    have "0 < unat a" using assms(1) unat_data_start [of "info s"]
      by (auto simp: rng_pre_def word_le_unat wf_geom_def word_less_unat)
    moreover have "unat a < 8192" using False assms(2) by (simp add: word_le_unat word_eq_unat)
    ultimately have "(unat a + 8191) div 8192 = 1" by (simp add: div_nat_eqI)
    moreover have "unat a + 8191 < 2 ^ 32" using \<open>unat a < 8192\<close> by simp
    ultimately have c: "chunk_end a = 8192" using unat_chunk_end(1) [of a] by (simp add: word_eq_unat)
    let ?bh = "bmblk (info s) a"
    obtain s1 where s1: "sb_bread ?bh s = (Some ?bh, s1)" "env s1 = env s" "cache s1 = cache s"
      using assms(4) by (simp add: sb_bread_def)
    have bits: "blk_bit (cache s1 ?bh) x" if "a \<le> x" "x < 8192" for x
      using chunk_bits [OF refl that(1), of s] full [OF that] that(2) by (simp add: c s1(3))
    have w: "balloc_while ?bh a 8192 blk s1 = (False, 8192, 0, blk, s1)"
      using assms(2) by (cases rule: balloc_while_cases [of a 8192 s1 ?bh blk]) (use bits in auto)
    have m: "min 8192 e = 8192" using assms(3) by (auto simp: min_def)
    have "xv6_balloc_rng a e blk s = xv6_balloc_rng 8192 e blk (brelse ?bh s1)"
      using assms(3) by (subst rng_unfold) (simp add: rng_pass_def s1(1) c m w)
    also have "\<dots> = None"
      by (rule rng_diverges [OF assms(3) ce]) (use assms(4) s1(2) in \<open>simp add: brelse_def\<close>)
    finally show ?thesis .
  qed
qed

end
