(* ===== verification/Block_Pool.thy ===== *)
theory Block_Pool
  imports Block_Alloc
begin

text \<open>
  What the allocator promises: the blocks it may hand out form a set, allocation removes an
  element and freeing adds one. \<open>free_blocks\<close> is the abstraction of the bitmap; the
  lemmas say that \<^verbatim>\<open>xv6_balloc\<close> and \<^verbatim>\<open>xv6_bfree\<close> implement the set operations, on every
  branch, I/O errors included. The locale \<open>block_pool\<close> is the interface its clients use.
\<close>

section \<open>The pool of free blocks\<close>

definition free_blocks :: "fs \<Rightarrow> u32 set" where
  "free_blocks s = {b. data_start (info s) \<le> b \<and> b < fi_size (info s) \<and> \<not> bm_used s b}"

definition hint_of :: "fs \<Rightarrow> u32" where
  "hint_of s = ucast (balloc_hint s)"

definition hint_ok :: "fs \<Rightarrow> bool" where
  "hint_ok s \<longleftrightarrow> data_start (info s) \<le> hint_of s \<and> hint_of s < fi_size (info s)"

text \<open>The state the allocator works in: mounted read-write, its lock free.\<close>

definition alloc_inv :: "fs \<Rightarrow> bool" where
  "alloc_inv s \<longleftrightarrow> wf_geom (info s) \<and> hint_ok s \<and> \<not> rdonly s \<and> \<not> balloc_lock s"

lemma ucast_hint [simp]: "(ucast (ucast (g :: u32) :: u64) :: u32) = g"
  by (rule bit_word_eqI) (simp add: bit_simps)

lemma wrap_hint_ok:
  assumes "hint_near s a e" "data_start (info s) \<le> a" "e \<le> fi_size (info s)"
  shows "hint_ok (balloc_wrap_hint (data_start (info s)) (fi_size (info s)) s)"
proof -
  obtain g where g: "a \<le> g" "g < e" "hint_of s = g \<or> hint_of s = g + 1"
    using assms(1) by (auto simp: hint_near_def hint_of_def)
  have up: "g < g + 1" using unat_Suc_less [OF g(2)] by (simp add: word_less_unat)
  have "data_start (info s) \<le> g" "g < fi_size (info s)" using g assms(2,3) by auto
  with g(3) up show ?thesis
    by (auto simp: hint_ok_def hint_of_def balloc_wrap_hint_def Let_def)
qed

lemma wrap_hint_simps [simp]:
  "info (balloc_wrap_hint a e s) = info s" "rdonly (balloc_wrap_hint a e s) = rdonly s"
  "cache (balloc_wrap_hint a e s) = cache s" "balloc_lock (balloc_wrap_hint a e s) = balloc_lock s"
  by (simp_all add: balloc_wrap_hint_def Let_def)

lemma wrap_hint_claimed: "claimed s b s' \<Longrightarrow> claimed s b (balloc_wrap_hint d e s')"
  by (cases s; cases s') (simp add: claimed_def balloc_wrap_hint_def Let_def bitmap_with_def)

lemma wrap_hint_touches: "touches B s s' \<Longrightarrow> touches B s (balloc_wrap_hint d e s')"
  unfolding balloc_wrap_hint_def Let_def by (rule touches_hint)

lemma wrap_hint_cached [simp]: "claim_cached s f b (balloc_wrap_hint d e s') = claim_cached s f b s'"
  by (simp add: claim_cached_def)

section \<open>Outcomes of an allocation\<close>

text \<open>
  The next-fit choice: the first free block at or after the hint, else the first free block
  before it.
\<close>

definition next_fit :: "fs \<Rightarrow> u32 \<Rightarrow> bool" where
  "next_fit s b \<longleftrightarrow> first_free s (hint_of s) (fi_size (info s)) b
     \<or> (\<forall>x. hint_of s \<le> x \<and> x < fi_size (info s) \<longrightarrow> bm_used s x)
       \<and> first_free s (data_start (info s)) (hint_of s) b"

definition alloc_post :: "fs \<Rightarrow> int \<times> u32 \<times> fs \<Rightarrow> bool" where
  "alloc_post s r = (case r of (err, b, s') \<Rightarrow> hint_ok s' \<and>
     ((err \<noteq> 0 \<and> b = 0 \<and> touches {} s s')
      \<or> (\<exists>f. next_fit s f \<and> err \<noteq> 0 \<and> touches {f, bmblk (info s) f} s s'
          \<and> (b = 0 \<and> cache s' (bmblk (info s) f) = cache s (bmblk (info s) f)
             \<or> claim_cached s f b s'))
      \<or> (next_fit s b \<and> err = 0 \<and> b \<noteq> 0 \<and> claimed s b s')
      \<or> (err = 0 \<and> b = 0 \<and> quiet s s' \<and> free_blocks s = {})))"

lemma next_fit_free:
  "wf_geom (info s) \<Longrightarrow> hint_ok s \<Longrightarrow> next_fit s b \<Longrightarrow> b \<in> free_blocks s"
  by (auto simp: next_fit_def first_free_def free_blocks_def hint_ok_def)

lemma free_nonzero: "wf_geom (info s) \<Longrightarrow> b \<in> free_blocks s \<Longrightarrow> b \<noteq> 0"
  using unat_data_start [of "info s"]
  by (auto simp: free_blocks_def wf_geom_def word_le_unat word_less_unat)

lemma hint_ok_quiet: "quiet s s' \<Longrightarrow> hint_ok s' = hint_ok s"
  by (simp add: hint_ok_def hint_of_def quietD)

text \<open>Both scans together cover the data region.\<close>

lemma scans_cover:
  assumes "hint_ok s" "\<forall>x. hint_of s \<le> x \<and> x < fi_size (info s) \<longrightarrow> bm_used s x"
    "data_start (info s) < hint_of s \<longrightarrow> (\<forall>x. data_start (info s) \<le> x \<and> x < hint_of s \<longrightarrow> bm_used s x)"
  shows "free_blocks s = {}"
proof -
  have "bm_used s x" if "data_start (info s) \<le> x" "x < fi_size (info s)" for x
  proof (cases "hint_of s \<le> x")
    case True
    with assms(2) that show ?thesis by blast
  next
    case False
    with that(1) have "data_start (info s) < hint_of s" "x < hint_of s" by auto
    with assms(3) that show ?thesis by blast
  qed
  then show ?thesis by (auto simp: free_blocks_def)
qed

text \<open>The outcome of a scan, once its choice is known to be the next-fit one.\<close>

lemma alloc_post_scan:
  assumes post: "rng_post s a e 0 (err, b, s')" and stop: "b \<noteq> 0 \<or> err \<noteq> 0"
    and hok: "hint_ok (balloc_wrap_hint d n s')"
    and nf: "\<And>f. first_free s a e f \<Longrightarrow> next_fit s f \<and> f \<noteq> 0"
  shows "alloc_post s (err, b, balloc_wrap_hint d n s')"
proof -
  let ?s' = "balloc_wrap_hint d n s'"
  from post stop consider "err \<noteq> 0" "b = 0" "touches {} s s'"
    | f where "first_free s a e f" "err \<noteq> 0" "touches {f, bmblk (info s) f} s s'"
        "b = 0 \<and> cache s' (bmblk (info s) f) = cache s (bmblk (info s) f) \<or> claim_cached s f b s'"
    | "first_free s a e b" "err = 0" "claimed s b s'"
    by (auto simp: rng_post_def)
  then show ?thesis
  proof cases
    case 1
    then show ?thesis using hok wrap_hint_touches [OF 1(3)] by (simp add: alloc_post_def)
  next
    case 2
    then show ?thesis
      unfolding alloc_post_def prod.case using hok nf [OF 2(1)] wrap_hint_touches [OF 2(3)]
      by - (rule conjI, simp, rule disjI2, rule disjI1, rule exI [of _ f], simp)
  next
    case 3
    then show ?thesis
      using hok nf [OF 3(1)] wrap_hint_claimed [OF 3(3)] by (simp add: alloc_post_def)
  qed
qed

lemma alloc_post_first:
  assumes pre: "rng_pre s (hint_of s) (fi_size (info s))" "hint_ok s"
    and post: "rng_post s (hint_of s) (fi_size (info s)) 0 (err, b, s')" and stop: "b \<noteq> 0 \<or> err \<noteq> 0"
  shows "alloc_post s (err, b, balloc_wrap_hint (data_start (info s)) (fi_size (info s)) s')"
proof -
  have i: "info s' = info s"
    using post by (auto simp: rng_post_def claimedD touchesD quietD)
  have near: "hint_near s' (hint_of s) (fi_size (info s))"
    using post stop by (auto simp: rng_post_def)
  have hok: "hint_ok (balloc_wrap_hint (data_start (info s)) (fi_size (info s)) s')"
    using wrap_hint_ok [OF near] pre(2) i by (auto simp: hint_ok_def)
  show ?thesis
  proof (rule alloc_post_scan [OF post stop hok])
    fix f assume "first_free s (hint_of s) (fi_size (info s)) f"
    then show "next_fit s f \<and> f \<noteq> 0"
      using free_nonzero [of s f] next_fit_free [of s f] pre by (auto simp: rng_pre_def next_fit_def)
  qed
qed

lemma alloc_post_second:
  assumes q: "quiet s s1" and full: "\<forall>x. hint_of s \<le> x \<and> x < fi_size (info s) \<longrightarrow> bm_used s x"
    and pre: "rng_pre s1 (data_start (info s)) (hint_of s)" "hint_ok s"
    and post: "rng_post s1 (data_start (info s)) (hint_of s) 0 (err, b, s')" and stop: "b \<noteq> 0 \<or> err \<noteq> 0"
  shows "alloc_post s (err, b, balloc_wrap_hint (data_start (info s)) (fi_size (info s)) s')"
proof -
  have post': "rng_post s (data_start (info s)) (hint_of s) 0 (err, b, s')"
    by (rule rng_post_again [OF q _ _ post]) auto
  have i: "info s' = info s"
    using post' by (auto simp: rng_post_def claimedD touchesD quietD)
  have near: "hint_near s' (data_start (info s)) (hint_of s)"
    using post' stop by (auto simp: rng_post_def)
  have hok: "hint_ok (balloc_wrap_hint (data_start (info s)) (fi_size (info s)) s')"
    using wrap_hint_ok [OF near] pre(2) i by (auto simp: hint_ok_def)
  show ?thesis
  proof (rule alloc_post_scan [OF post' stop hok])
    fix f assume "first_free s (data_start (info s)) (hint_of s) f"
    then show "next_fit s f \<and> f \<noteq> 0"
      using free_nonzero [of s f] next_fit_free [of s f] pre full quietD [OF q]
      by (auto simp: rng_pre_def next_fit_def)
  qed
qed

lemma unsafe_unfold:
  assumes "hint_ok s" "\<not> rdonly s"
  shows "xv6_balloc_unsafe blk s =
    Option.bind (xv6_balloc_rng (hint_of s) (fi_size (info s)) 0 s) (\<lambda>(err, b, s1).
      if b \<noteq> 0 \<or> err \<noteq> 0
      then Some (err, b, balloc_wrap_hint (data_start (info s)) (fi_size (info s)) s1)
      else if data_start (info s) < hint_of s
      then Option.bind (xv6_balloc_rng (data_start (info s)) (hint_of s) b s1) (\<lambda>(err, b, s2).
        if b \<noteq> 0 \<or> err \<noteq> 0
        then Some (err, b, balloc_wrap_hint (data_start (info s)) (fi_size (info s)) s2)
        else Some (0, b, s2))
      else Some (0, b, s1))"
  using assms
  by (auto simp: xv6_balloc_unsafe_def hint_ok_def hint_of_def data_start_def Let_def
      intro!: Option.bind_cong split: prod.splits)

lemma rng_pre_first: "alloc_inv s \<Longrightarrow> rng_pre s (hint_of s) (fi_size (info s))"
  by (auto simp: rng_pre_def alloc_inv_def hint_ok_def)

lemma rng_pre_second:
  "wf_geom (info s) \<Longrightarrow> hint_ok s \<Longrightarrow> \<not> rdonly s \<Longrightarrow> quiet s s1 \<Longrightarrow> data_start (info s) < hint_of s
   \<Longrightarrow> rng_pre s1 (data_start (info s)) (hint_of s)"
  by (auto simp: rng_pre_def hint_ok_def quietD)

lemma rng_quiet_result:
  assumes "rng_post s a e 0 (err, b, s1)" "\<not> (b \<noteq> 0 \<or> err \<noteq> 0)" "wf_geom (info s)"
    "data_start (info s) \<le> a" "e \<le> fi_size (info s)"
  shows "quiet s s1" "\<forall>x. a \<le> x \<and> x < e \<longrightarrow> bm_used s x"
proof -
  have "b \<in> free_blocks s" if "first_free s a e b"
    using that assms(4,5) by (auto simp: first_free_def free_blocks_def)
  then have "\<not> first_free s a e b"
    using free_nonzero [OF assms(3)] assms(2) by blast
  then show "quiet s s1" "\<forall>x. a \<le> x \<and> x < e \<longrightarrow> bm_used s x"
    using assms(1,2) by (auto simp: rng_post_def)
qed

lemma unsafe_sound:
  assumes inv: "wf_geom (info s)" "hint_ok s" "\<not> rdonly s" and run: "xv6_balloc_unsafe blk s = Some r"
  shows "alloc_post s r"
proof -
  let ?n = "fi_size (info s)" and ?d = "data_start (info s)"
  have pre1: "rng_pre s (hint_of s) ?n"
    using inv by (auto simp: rng_pre_def hint_ok_def)
  from run obtain err b s1 where r1: "xv6_balloc_rng (hint_of s) ?n 0 s = Some (err, b, s1)"
    unfolding unsafe_unfold [OF inv(2,3)] by (auto elim: bind_SomeE)
  note post1 = rng_sound [OF r1 pre1]
  show ?thesis
  proof (cases "b \<noteq> 0 \<or> err \<noteq> 0")
    case True
    then show ?thesis
      using run alloc_post_first [OF pre1 inv(2) post1 True] unfolding unsafe_unfold [OF inv(2,3)]
      by (simp add: r1)
  next
    case False
    then have [simp]: "b = 0" "err = 0" by auto
    have q: "quiet s s1" and full: "\<forall>x. hint_of s \<le> x \<and> x < ?n \<longrightarrow> bm_used s x"
      using rng_quiet_result [OF post1 False inv(1)] inv(2) by (auto simp: hint_ok_def)
    show ?thesis
    proof (cases "?d < hint_of s")
      case lt: True
      note pre2 = rng_pre_second [OF inv q lt]
      from run lt obtain err2 b2 s2 where r2: "xv6_balloc_rng ?d (hint_of s) 0 s1 = Some (err2, b2, s2)"
        unfolding unsafe_unfold [OF inv(2,3)] by (auto simp: r1 elim: bind_SomeE)
      note post2 = rng_sound [OF r2 pre2]
      show ?thesis
      proof (cases "b2 \<noteq> 0 \<or> err2 \<noteq> 0")
        case True
        then show ?thesis
          using run lt alloc_post_second [OF q full pre2 inv(2) post2 True]
          unfolding unsafe_unfold [OF inv(2,3)] by (simp add: r1 r2)
      next
        case F: False
        have "quiet s1 s2" and full2: "\<forall>x. ?d \<le> x \<and> x < hint_of s \<longrightarrow> bm_used s x"
          using rng_quiet_result [OF post2 F] inv quietD [OF q] quiet_used [OF q]
          by (auto simp: hint_ok_def)
        then have "quiet s s2" using quiet_trans [OF q] by blast
        moreover have "r = (0, 0, s2)"
          using run lt F unfolding unsafe_unfold [OF inv(2,3)] by (simp add: r1 r2)
        ultimately show ?thesis
          using scans_cover [OF inv(2) full] full2 hint_ok_quiet inv(2) by (auto simp: alloc_post_def)
      qed
    next
      case ge: False
      then have "r = (0, 0, s1)"
        using run unfolding unsafe_unfold [OF inv(2,3)] by (simp add: r1)
      then show ?thesis
        using scans_cover [OF inv(2) full] ge q hint_ok_quiet inv(2) by (auto simp: alloc_post_def)
    qed
  qed
qed

text \<open>On a disk of at most one bitmap block, no scan needs a second pass.\<close>

lemma one_pass: "1 \<le> a \<Longrightarrow> a \<le> e \<Longrightarrow> e \<le> 8192 \<Longrightarrow> e \<le> chunk_end a"
proof -
  assume h: "1 \<le> a" "a \<le> e" "e \<le> (8192 :: u32)"
  then have "1 \<le> unat a" "unat a \<le> 8192" by (simp_all add: word_le_unat)
  then have "(unat a + 8191) div 8192 = 1" by (simp add: div_nat_eqI)
  moreover have "unat a + 8191 < 2 ^ 32" using \<open>unat a \<le> 8192\<close> by simp
  ultimately have "chunk_end a = 8192" using unat_chunk_end(1) [of a] by (simp add: word_eq_unat)
  with h show ?thesis by simp
qed

lemma unsafe_returns:
  assumes inv: "wf_geom (info s)" "hint_ok s" "\<not> rdonly s" and small: "fi_size (info s) \<le> 8192"
  shows "\<exists>r. xv6_balloc_unsafe blk s = Some r"
proof -
  let ?n = "fi_size (info s)" and ?d = "data_start (info s)"
  have d1: "1 \<le> ?d" using unat_data_start [OF inv(1)] inv(1)
    by (auto simp: wf_geom_def word_le_unat word_less_unat)
  have pre1: "rng_pre s (hint_of s) ?n"
    using inv by (auto simp: rng_pre_def hint_ok_def)
  have "?n \<le> chunk_end (hint_of s)"
    using inv(2) d1 small by (intro one_pass) (auto simp: hint_ok_def)
  from rng_returns [OF pre1 this, of 0] obtain err b s1
    where r1: "xv6_balloc_rng (hint_of s) ?n 0 s = Some (err, b, s1)"
      and post1: "rng_post s (hint_of s) ?n 0 (err, b, s1)" by (metis prod_cases3)
  show ?thesis
  proof (cases "\<not> (b \<noteq> 0 \<or> err \<noteq> 0) \<and> ?d < hint_of s")
    case True
    then have q: "quiet s s1"
      using rng_quiet_result [OF post1 _ inv(1)] inv(2) by (auto simp: hint_ok_def)
    have "hint_of s \<le> chunk_end ?d"
      using True d1 small inv(2) by (intro one_pass) (auto simp: hint_ok_def)
    from rng_returns [OF rng_pre_second [OF inv q] this, of 0] True
    obtain r2 where "xv6_balloc_rng ?d (hint_of s) 0 s1 = Some r2" by auto
    then show ?thesis
      unfolding unsafe_unfold [OF inv(2,3)] using True by (cases r2) (simp add: r1)
  next
    case False
    then show ?thesis
      unfolding unsafe_unfold [OF inv(2,3)] by (auto simp: r1)
  qed
qed

section \<open>xv6_balloc\<close>

lemma lock_transfer:
  assumes "\<not> balloc_lock s" and post: "alloc_post (s\<lparr>balloc_lock := True\<rparr>) (err, b, s1)"
  shows "alloc_post s (err, b, s1\<lparr>balloc_lock := False\<rparr>)"
proof -
  let ?s = "s\<lparr>balloc_lock := True\<rparr>" and ?s1 = "s1\<lparr>balloc_lock := False\<rparr>"
  have t: "touches B ?s s1 \<Longrightarrow> touches B s ?s1" for B
    using assms(1) by (cases s; cases s1) (simp add: touches_def)
  have c: "claimed ?s b s1 \<Longrightarrow> claimed s b ?s1" "quiet ?s s1 \<Longrightarrow> quiet s ?s1"
    using assms(1) by (cases s; cases s1; simp add: claimed_def quiet_def bitmap_with_def Let_def)+
  have e: "bm_used ?s = bm_used s" "hint_of ?s = hint_of s" "bitmap_with ?s = bitmap_with s"
      "free_blocks ?s = free_blocks s"
    by (simp_all add: bm_used_def [abs_def] hint_of_def bitmap_with_def [abs_def] free_blocks_def)
  have f: "next_fit ?s f = next_fit s f" for f
    by (simp add: next_fit_def first_free_def e)
  have g: "claim_cached ?s f b s1 \<Longrightarrow> claim_cached s f b ?s1" for f
    by (simp add: claim_cached_def e)
  have h: "hint_ok ?s1 = hint_ok s1"
    by (simp add: hint_ok_def hint_of_def)
  from post show ?thesis
    using t c g unfolding alloc_post_def prod.case f e h by auto
qed

lemma balloc_unfold:
  "\<not> balloc_lock s \<Longrightarrow> xv6_balloc blk s = Option.bind (xv6_balloc_unsafe blk (s\<lparr>balloc_lock := True\<rparr>))
     (\<lambda>(err, b, s'). Some (err, b, s'\<lparr>balloc_lock := False\<rparr>))"
  by (simp add: xv6_balloc_def mutex_lock_balloc_def mutex_unlock_balloc_def)

lemma unsafe_inv_locked:
  "alloc_inv s \<Longrightarrow> wf_geom (info (s\<lparr>balloc_lock := True\<rparr>)) \<and> hint_ok (s\<lparr>balloc_lock := True\<rparr>)
     \<and> \<not> rdonly (s\<lparr>balloc_lock := True\<rparr>) \<and> \<not> balloc_lock s"
  by (simp add: alloc_inv_def hint_ok_def hint_of_def)

lemma balloc_sound:
  assumes inv: "alloc_inv s" and run: "xv6_balloc blk s = Some (err, b, s')"
  shows "alloc_post s (err, b, s')" "alloc_inv s'"
proof -
  note u = unsafe_inv_locked [OF inv]
  from run u obtain s1 where r: "xv6_balloc_unsafe blk (s\<lparr>balloc_lock := True\<rparr>) = Some (err, b, s1)"
    and s': "s' = s1\<lparr>balloc_lock := False\<rparr>"
    by (auto simp: balloc_unfold elim!: bind_SomeE)
  have "alloc_post (s\<lparr>balloc_lock := True\<rparr>) (err, b, s1)"
    using u by (intro unsafe_sound [OF _ _ _ r]) auto
  then show post: "alloc_post s (err, b, s')"
    using lock_transfer u unfolding s' by blast
  have "info s' = info s" "rdonly s' = rdonly s" "hint_ok s'"
    using post by (auto simp: alloc_post_def claimedD touchesD quietD)
  then show "alloc_inv s'"
    using inv by (auto simp: alloc_inv_def s')
qed

lemma used_after_set:
  assumes "wf_geom (info s)" "x < fi_size (info s)" "f \<in> free_blocks s" "info s' = info s"
    and c: "cache s' (bmblk (info s) f) = bitmap_with s f"
    and o: "\<And>y. y \<noteq> f \<Longrightarrow> y \<noteq> bmblk (info s) f \<Longrightarrow> cache s' y = cache s y"
  shows "bm_used s' x \<longleftrightarrow> bm_used s x \<or> x = f"
proof (cases "bmblk (info s) x = bmblk (info s) f")
  case True
  then have d: "x div BPB = f div BPB" by (simp add: bmblk_eq_iff)
  show ?thesis
    unfolding bm_used_def assms(4) True c bitmap_with_def Let_def by (rule blk_bit_set [OF d])
next
  case False
  have "bmblk (info s) x \<noteq> f"
    using assms(1-3) by (intro data_not_bmblk) (auto simp: free_blocks_def)
  with False show ?thesis
    by (auto simp: bm_used_def o assms(4))
qed

lemma used_after_none:
  assumes "wf_geom (info s)" "x < fi_size (info s)" "f \<in> free_blocks s" "info s' = info s"
    and c: "cache s' (bmblk (info s) f) = cache s (bmblk (info s) f)"
    and o: "\<And>y. y \<noteq> f \<Longrightarrow> y \<noteq> bmblk (info s) f \<Longrightarrow> cache s' y = cache s y"
  shows "bm_used s' x \<longleftrightarrow> bm_used s x"
proof -
  have "bmblk (info s) x \<noteq> f"
    using assms(1-3) by (intro data_not_bmblk) (auto simp: free_blocks_def)
  then show ?thesis
    using c o by (cases "bmblk (info s) x = bmblk (info s) f") (auto simp: bm_used_def assms(4))
qed

lemma claimed_pool:
  assumes "wf_geom (info s)" "b \<in> free_blocks s" "claimed s b s'"
  shows "free_blocks s' = free_blocks s - {b}" "cache s' b = zero_block"
proof -
  have nb: "bmblk (info s) b \<noteq> b"
    using assms(1,2) by (intro data_not_bmblk) (auto simp: free_blocks_def)
  have "bm_used s' x \<longleftrightarrow> bm_used s x \<or> x = b" if "x < fi_size (info s)" for x
    by (rule used_after_set [OF assms(1) that assms(2)]) (simp_all add: claimedD [OF assms(3)])
  then show "free_blocks s' = free_blocks s - {b}"
    by (auto simp: free_blocks_def claimedD [OF assms(3)])
  show "cache s' b = zero_block"
    using nb by (simp add: claimedD [OF assms(3)])
qed

lemma balloc_err_pool:
  assumes "alloc_inv s" "xv6_balloc blk s = Some (err, b, s')" "err \<noteq> 0"
  shows "free_blocks s' \<subseteq> free_blocks s"
proof -
  have wf: "wf_geom (info s)" using assms(1) by (simp add: alloc_inv_def)
  have post: "alloc_post s (err, b, s')"
    using balloc_sound [OF assms(1,2)] by blast
  then consider "touches {} s s'"
    | f where "next_fit s f" "touches {f, bmblk (info s) f} s s'"
        "cache s' (bmblk (info s) f) = cache s (bmblk (info s) f)
         \<or> cache s' (bmblk (info s) f) = bitmap_with s f"
    using assms(3) by (auto simp: alloc_post_def claim_cached_def)
  then show ?thesis
  proof cases
    case 1
    then have "cache s' = cache s" "info s' = info s"
      using touches_cache touchesD by blast+
    then show ?thesis by (simp add: free_blocks_def bm_used_def)
  next
    case 2
    have fr: "f \<in> free_blocks s"
      using next_fit_free [OF wf _ 2(1)] assms(1) by (simp add: alloc_inv_def)
    have o: "\<And>y. y \<noteq> f \<Longrightarrow> y \<noteq> bmblk (info s) f \<Longrightarrow> cache s' y = cache s y"
      using touches_cache [OF 2(2)] by blast
    have i: "info s' = info s" using touchesD(2) [OF 2(2)] .
    have "bm_used s x \<longrightarrow> bm_used s' x" if "x < fi_size (info s)" for x
      using 2(3) used_after_set [OF wf that fr i _ o] used_after_none [OF wf that fr i _ o] by blast
    then show ?thesis by (auto simp: free_blocks_def i)
  qed
qed

section \<open>xv6_bfree\<close>

definition data_block :: "xv6_fs_info \<Rightarrow> u32 \<Rightarrow> bool" where
  "data_block i b \<longleftrightarrow> data_start i \<le> b \<and> b < fi_size i"

lemma bfree_cases:
  assumes inv: "wf_geom (info s)" "\<not> rdonly s" "\<not> balloc_lock s" "data_block (info s) b"
  obtains (io) s' where "xv6_bfree b s = Some (- EIO, s')" "quiet s s'" 
  | (double) s' where "xv6_bfree b s = Some (0, s')" "quiet s s'" "\<not> bm_used s b"
  | (freed) err s' where "xv6_bfree b s = Some (err, s')" "touches {bmblk (info s) b} s s'" "bm_used s b"
      "balloc_hint s' = balloc_hint s" "\<And>x. x < fi_size (info s) \<Longrightarrow> bm_used s' x \<longleftrightarrow> bm_used s x \<and> x \<noteq> b"
      "err = 0 \<Longrightarrow> disk s' (bmblk (info s) b) = cache s' (bmblk (info s) b)"
proof -
  let ?bb = "bmblk (info s) b" and ?s = "s\<lparr>balloc_lock := True\<rparr>"
  have asm: "b < fi_size (info s)" "fi_bmapstart (info s) + BITMAP_BLOCKS (fi_size (info s)) \<le> b"
    using inv(4) by (auto simp: data_block_def data_start_def)
  have bb: "b div BPB + fi_bmapstart (info s) = ?bb" by (simp add: bmblk_def)
  show thesis
  proof (cases rule: sb_bread_cases [of ?bb ?s])
    case (fail s1)
    have "xv6_bfree b s = Some (- EIO, s1\<lparr>balloc_lock := False\<rparr>)"
      using inv asm fail(1) by (simp add: xv6_bfree_def xv6_bfree_unsafe_def mutex_lock_balloc_def
          mutex_unlock_balloc_def bb)
    moreover have "quiet s (s1\<lparr>balloc_lock := False\<rparr>)"
      using fail(2) inv(3) by (cases s; cases s1) (simp add: quiet_def)
    ultimately show ?thesis by (rule io)
  next
    case (ok s1)
    show ?thesis
    proof (cases "bm_used s b")
      case False
      then have "xv6_bfree b s = Some (0, brelse ?bb s1\<lparr>balloc_lock := False\<rparr>)"
        using inv asm ok by (simp add: xv6_bfree_def xv6_bfree_unsafe_def mutex_lock_balloc_def
          mutex_unlock_balloc_def bb b_data_def mask_test bm_used_def)
      moreover have "quiet s (brelse ?bb s1\<lparr>balloc_lock := False\<rparr>)"
        using inv(3) unfolding ok(2) by (cases s) (simp add: quiet_def brelse_def)
      ultimately show ?thesis using False by (rule double)
    next
      case True
      define d where "d = wr32 (cache s ?bb) (4 * bit_index b)
        (rd32 (cache s ?bb) (4 * bit_index b) AND NOT (bit_mask b))"
      obtain err s2 where sy: "sync_dirty_buffer ?bb (mark_buffer_dirty ?bb (b_store ?bb d s1)) = (err, s2)"
        by force
      let ?s' = "brelse ?bb s2\<lparr>balloc_lock := False\<rparr>"
      have res: "xv6_bfree b s = Some (err, ?s')"
        using inv asm ok True sy by (simp add: xv6_bfree_def xv6_bfree_unsafe_def mutex_lock_balloc_def
          mutex_unlock_balloc_def bb b_data_def mask_test bm_used_def d_def Let_def)
      have t: "touches {?bb} s ?s'" and h: "balloc_hint ?s' = balloc_hint s"
        and c: "cache ?s' = (cache s)(?bb := d)"
        and dk: "err = 0 \<Longrightarrow> disk ?s' ?bb = cache ?s' ?bb"
        using inv(3) unfolding store_flush [OF sy] ok(2)
        by (cases s; simp add: brelse_def touches_def)+
      have i: "info ?s' = info s" using touchesD(2) [OF t] .
      have "bm_used ?s' x \<longleftrightarrow> bm_used s x \<and> x \<noteq> b" for x
      proof (cases "bmblk (info s) x = ?bb")
        case True
        then have e: "x div BPB = b div BPB" by (simp add: bmblk_eq_iff)
        show ?thesis
          unfolding bm_used_def i True c fun_upd_same d_def by (rule blk_bit_clear [OF e])
      next
        case False
        then show ?thesis unfolding bm_used_def i c by auto
      qed
      then show ?thesis using freed [OF res t True h _ dk] by blast
    qed
  qed
qed

section \<open>The interface\<close>

text \<open>
  A pool of blocks: \<open>alloc\<close> returns an error code, a block number (0 when the pool is
  empty) and the next state, \<open>release\<close> gives a block of \<open>region\<close> back.
\<close>

locale block_pool =
  fixes alloc :: "'s \<Rightarrow> (int \<times> u32 \<times> 's) option"
    and release :: "u32 \<Rightarrow> 's \<Rightarrow> (int \<times> 's) option"
    and pool :: "'s \<Rightarrow> u32 set"
    and region :: "'s \<Rightarrow> u32 set"
    and inv :: "'s \<Rightarrow> bool"
  assumes alloc_ok: "inv s \<Longrightarrow> alloc s = Some (0, b, s') \<Longrightarrow> b \<noteq> 0 \<Longrightarrow>
      b \<in> pool s \<and> pool s' = pool s - {b} \<and> region s' = region s"
    and alloc_empty: "inv s \<Longrightarrow> alloc s = Some (0, 0, s') \<Longrightarrow> pool s = {} \<and> pool s' = {}"
    and alloc_error: "inv s \<Longrightarrow> alloc s = Some (err, b, s') \<Longrightarrow> err \<noteq> 0 \<Longrightarrow> pool s' \<subseteq> pool s"
    and alloc_inv: "inv s \<Longrightarrow> alloc s = Some (err, b, s') \<Longrightarrow> inv s'"
    and release_ok: "inv s \<Longrightarrow> b \<in> region s \<Longrightarrow> release b s = Some (0, s') \<Longrightarrow>
      pool s' = insert b (pool s) \<and> region s' = region s"
    and release_inv: "inv s \<Longrightarrow> b \<in> region s \<Longrightarrow> release b s = Some (err, s') \<Longrightarrow> inv s'"
    and pool_region: "inv s \<Longrightarrow> pool s \<subseteq> region s"

text \<open>A client that allocates \<open>n\<close> blocks in a row and stops at the first failure.\<close>

fun alloc_many :: "('s \<Rightarrow> (int \<times> u32 \<times> 's) option) \<Rightarrow> nat \<Rightarrow> 's \<Rightarrow> (u32 list \<times> 's) option" where
  "alloc_many alloc 0 s = Some ([], s)"
| "alloc_many alloc (Suc n) s = do {
     (err, b, s) \<leftarrow> alloc s;
     if err \<noteq> 0 \<or> b = 0 then None
     else do { (bs, s) \<leftarrow> alloc_many alloc n s; Some (b # bs, s) }
   }"

context block_pool
begin

lemma many_distinct:
  "inv s \<Longrightarrow> alloc_many alloc n s = Some (bs, s') \<Longrightarrow>
   length bs = n \<and> distinct bs \<and> set bs \<subseteq> pool s \<and> pool s' = pool s - set bs \<and> inv s'"
proof (induction n arbitrary: s bs)
  case (Suc n)
  then obtain b s1 bs1 where a: "alloc s = Some (0, b, s1)" "b \<noteq> 0"
    and r: "alloc_many alloc n s1 = Some (bs1, s')" and bs: "bs = b # bs1"
    by (auto elim!: bind_SomeE split: if_splits)
  have "inv s1" using alloc_inv Suc.prems(1) a(1) by blast
  from Suc.IH [OF this r] show ?case
    using alloc_ok [OF Suc.prems(1) a] by (auto simp: bs)
qed simp

lemma alloc_release:
  assumes "inv s" "alloc s = Some (0, b, s1)" "b \<noteq> 0" "release b s1 = Some (0, s2)"
  shows "pool s2 = pool s \<and> inv s2"
proof -
  have a: "b \<in> pool s" "pool s1 = pool s - {b}" "region s1 = region s"
    using alloc_ok [OF assms(1-3)] by auto
  have i: "inv s1" using alloc_inv assms(1,2) by blast
  have "b \<in> region s1" using a pool_region assms(1) by blast
  from release_ok [OF i this assms(4)] release_inv [OF i this assms(4)] show ?thesis
    using a by auto
qed

lemma error_keeps_used:
  "inv s \<Longrightarrow> alloc s = Some (err, b, s') \<Longrightarrow> x \<notin> pool s \<Longrightarrow> x \<notin> pool s'"
  using alloc_ok [of s b s'] alloc_empty [of s s'] alloc_error [of s err b s']
  by (cases "err = 0"; cases "b = 0") (auto dest: alloc_inv)

end

lemma balloc_claims:
  assumes inv: "alloc_inv s" and run: "xv6_balloc blk s = Some (0, b, s')" and nz: "b \<noteq> 0"
  shows "next_fit s b" "b \<in> free_blocks s" "claimed s b s'"
proof -
  show n: "next_fit s b" and "claimed s b s'"
    using balloc_sound(1) [OF inv run] nz by (auto simp: alloc_post_def)
  then show "b \<in> free_blocks s"
    using inv by (auto simp: alloc_inv_def intro: next_fit_free)
qed

lemma balloc_empty:
  "alloc_inv s \<Longrightarrow> xv6_balloc blk s = Some (0, 0, s') \<Longrightarrow> free_blocks s = {} \<and> quiet s s'"
  using balloc_sound(1) [of s blk 0 0 s'] by (auto simp: alloc_post_def)

lemma bfree_pool:
  assumes inv: "alloc_inv s" "data_block (info s) b" and run: "xv6_bfree b s = Some (err, s')"
  shows "alloc_inv s'" "info s' = info s" "refs s' = refs s"
    "free_blocks s' = free_blocks s \<or> free_blocks s' = insert b (free_blocks s)"
    "err = 0 \<Longrightarrow> free_blocks s' = insert b (free_blocks s)"
    "touches {bmblk (info s) b} s s'"
proof -
  have w: "wf_geom (info s)" "\<not> rdonly s" "\<not> balloc_lock s" and h: "hint_ok s"
    using inv(1) by (auto simp: alloc_inv_def)
  have "alloc_inv s' \<and> info s' = info s \<and> refs s' = refs s
    \<and> (free_blocks s' = free_blocks s \<or> free_blocks s' = insert b (free_blocks s))
    \<and> (err = 0 \<longrightarrow> free_blocks s' = insert b (free_blocks s)) \<and> touches {bmblk (info s) b} s s'"
    using w inv(2)
  proof (cases rule: bfree_cases)
    case (io s1)
    then have q: "quiet s s'" "err = - EIO" using run by auto
    then show ?thesis
      using inv(1) by (auto simp: alloc_inv_def hint_ok_quiet quietD free_blocks_def quiet_used
          intro: quiet_touches)
  next
    case (double s1)
    then have q: "quiet s s'" using run by auto
    then show ?thesis
      using inv double(3) by (auto simp: alloc_inv_def hint_ok_quiet quietD free_blocks_def quiet_used
          data_block_def intro: quiet_touches)
  next
    case (freed err1 s1)
    have [simp]: "s1 = s'" "err1 = err" using freed(1) run by auto
    note t = touchesD [OF freed(2), simplified]
    have "alloc_inv s'"
      using inv(1) t freed(4) by (simp add: alloc_inv_def hint_ok_def hint_of_def)
    moreover have "free_blocks s' = insert b (free_blocks s)"
      using freed(5) inv(2) t by (auto simp: free_blocks_def data_block_def)
    ultimately show ?thesis using t freed(2) by simp
  qed
  then show "alloc_inv s'" "info s' = info s" "refs s' = refs s"
    "free_blocks s' = free_blocks s \<or> free_blocks s' = insert b (free_blocks s)"
    "err = 0 \<Longrightarrow> free_blocks s' = insert b (free_blocks s)"
    "touches {bmblk (info s) b} s s'" by auto
qed

interpretation kernel_pool: block_pool "xv6_balloc 0" xv6_bfree free_blocks
    "\<lambda>s. {b. data_block (info s) b}" alloc_inv
proof unfold_locales
  fix s s' :: fs and b
  assume h: "alloc_inv s" "xv6_balloc 0 s = Some (0, b, s')" "b \<noteq> 0"
  show "b \<in> free_blocks s \<and> free_blocks s' = free_blocks s - {b}
      \<and> {b. data_block (info s') b} = {b. data_block (info s) b}"
    using balloc_claims [OF h] claimed_pool [of s b s'] h(1) by (simp add: alloc_inv_def claimedD)
next
  fix s s' :: fs
  assume "alloc_inv s" "xv6_balloc 0 s = Some (0, 0, s')"
  from balloc_empty [OF this] show "free_blocks s = {} \<and> free_blocks s' = {}"
    by (auto simp: free_blocks_def quiet_used quietD)
next
  fix s s' :: fs and err b
  assume "alloc_inv s" "xv6_balloc 0 s = Some (err, b, s')" "err \<noteq> 0"
  then show "free_blocks s' \<subseteq> free_blocks s" by (rule balloc_err_pool)
next
  fix s s' :: fs and err b
  assume "alloc_inv s" "xv6_balloc 0 s = Some (err, b, s')"
  then show "alloc_inv s'" by (rule balloc_sound)
next
  fix s s' :: fs and b
  assume "alloc_inv s" "b \<in> {b. data_block (info s) b}" "xv6_bfree b s = Some (0, s')"
  then show "free_blocks s' = insert b (free_blocks s)
      \<and> {b. data_block (info s') b} = {b. data_block (info s) b}"
    using bfree_pool [of s b 0 s'] by simp
next
  fix s s' :: fs and b err
  assume "alloc_inv s" "b \<in> {b. data_block (info s) b}" "xv6_bfree b s = Some (err, s')"
  then show "alloc_inv s'" using bfree_pool [of s b err s'] by simp
next
  fix s
  show "free_blocks s \<subseteq> {b. data_block (info s) b}"
    by (auto simp: free_blocks_def data_block_def)
qed

section \<open>Properties\<close>

lemma sample_alloc_inv: "alloc_inv sample_fs"
  by (simp add: alloc_inv_def hint_ok_def hint_of_def sample_defs wf_geom_def data_start_def
      BITMAP_BLOCKS_def BPB_val)

lemmas alloc_eval = balloc_unfold xv6_balloc_unsafe_def xv6_balloc_rng.simps balloc_while.simps
  balloc_claim_def xv6_bzero_def sb_bread_def b_store_def mark_buffer_dirty_def
  sync_dirty_buffer_def brelse_def b_data_def bit_index_def BPB_val BITMAP_BLOCKS_def
  balloc_wrap_hint_def xv6_bfree_def xv6_bfree_unsafe_def mutex_lock_balloc_def
  mutex_unlock_balloc_def Let_def

lemma sample_balloc: "\<exists>s'. xv6_balloc 0 sample_fs = Some (0, 46, s')"
  by (simp add: alloc_eval sample_defs)

text \<open>
  C1. A successful \<^verbatim>\<open>xv6_balloc\<close> hands out the next-fit free data block, zeroed in
  the cache and on disk; its bit, and no other, is set (also on disk), so the pool of free
  blocks loses exactly that block; every buffer other than the block and its bitmap block is
  unchanged, no buffer reference is leaked and the allocator's invariant holds again. This
  is so for disks of any size.
\<close>

theorem balloc_allocates:
  assumes "alloc_inv s" and "xv6_balloc blk s = Some (0, b, s')" and "b \<noteq> 0"
  shows "next_fit s b \<and> b \<in> free_blocks s \<and> free_blocks s' = free_blocks s - {b}
    \<and> cache s' b = zero_block \<and> disk s' b = zero_block
    \<and> disk s' (bmblk (info s) b) = cache s' (bmblk (info s) b)
    \<and> (\<forall>x. x \<noteq> b \<and> x \<noteq> bmblk (info s) b \<longrightarrow> cache s' x = cache s x)
    \<and> refs s' = refs s \<and> alloc_inv s'"
proof -
  have wf: "wf_geom (info s)" using assms(1) by (simp add: alloc_inv_def)
  note c = balloc_claims [OF assms]
  have nb: "bmblk (info s) b \<noteq> b"
    using wf c(2) by (intro data_not_bmblk) (auto simp: free_blocks_def)
  show ?thesis
    using c claimed_pool [OF wf c(2,3)] balloc_sound(2) [OF assms(1,2)] nb
    by (simp add: claimedD [OF c(3)])
qed

theorem balloc_allocates_witness:
  "\<exists>s'. alloc_inv sample_fs \<and> xv6_balloc 0 sample_fs = Some (0, 46, s')
     \<and> free_blocks s' = free_blocks sample_fs - {46}"
proof -
  obtain s' where "xv6_balloc 0 sample_fs = Some (0, 46, s')" using sample_balloc by blast
  with balloc_allocates [OF sample_alloc_inv this] sample_alloc_inv show ?thesis by simp
qed

text \<open>
  \<^verbatim>\<open>xv6_balloc\<close> reports success with block 0 exactly when no data block is free:
  the two scans, from the hint to the end and from the first data block to the hint, miss
  no free block.
\<close>

lemma balloc_full_iff:
  assumes "alloc_inv s" and "xv6_balloc blk s = Some (0, b, s')"
  shows "b = 0 \<longleftrightarrow> free_blocks s = {}"
proof
  assume "b = 0"
  with balloc_empty [of s blk s'] assms show "free_blocks s = {}" by simp
next
  assume "free_blocks s = {}"
  with balloc_claims(2) [OF assms] show "b = 0" by auto
qed

lemma balloc_full_iff_witness:
  "\<exists>s'. xv6_balloc 0 sample_fs = Some (0, 46, s') \<and> free_blocks sample_fs \<noteq> {}"
proof -
  obtain s' where r: "xv6_balloc 0 sample_fs = Some (0, 46, s')" using sample_balloc by blast
  have "(46 :: u32) = 0 \<longleftrightarrow> free_blocks sample_fs = {}"
    by (rule balloc_full_iff [OF sample_alloc_inv r])
  with r show ?thesis by simp
qed

text \<open>
  C15. Whatever service calls fail, a returning \<^verbatim>\<open>xv6_balloc\<close> drops every buffer
  reference it took, releases its lock, keeps the allocator's invariant, never turns a used
  block into a free one, and changes no buffer outside the free blocks and the bitmap.
\<close>

theorem balloc_fault_safe:
  assumes "alloc_inv s" and "xv6_balloc 0 s = Some (err, b, s')"
  shows "refs s' = refs s \<and> \<not> balloc_lock s' \<and> alloc_inv s'
    \<and> free_blocks s' \<subseteq> free_blocks s
    \<and> (\<forall>x. x \<notin> free_blocks s \<and> x \<notin> bmblk (info s) ` free_blocks s \<longrightarrow> cache s' x = cache s x)"
proof -
  have wf: "wf_geom (info s)" "hint_ok s" using assms(1) by (simp_all add: alloc_inv_def)
  have inv': "alloc_inv s'" and post: "alloc_post s (err, b, s')"
    using balloc_sound [OF assms] by auto
  from post obtain B where B: "touches B s s'" "B \<subseteq> free_blocks s \<union> bmblk (info s) ` free_blocks s"
    unfolding alloc_post_def prod.case
    using next_fit_free [OF wf] claimed_touches quiet_touches by fastforce
  have "cache s' x = cache s x" if "x \<notin> free_blocks s" "x \<notin> bmblk (info s) ` free_blocks s" for x
    by (rule touches_cache [OF B(1)]) (use that B(2) in blast)
  moreover have "refs s' = refs s" using touchesD(1) [OF B(1)] .
  moreover have "free_blocks s' \<subseteq> free_blocks s"
    using kernel_pool.error_keeps_used [OF assms] by blast
  moreover have "\<not> balloc_lock s'" using inv' by (simp add: alloc_inv_def)
  ultimately show ?thesis using inv' by blast
qed

theorem balloc_fault_safe_witness:
  "\<exists>s'. xv6_balloc 0 sample_fs = Some (0, 46, s') \<and> refs s' = refs sample_fs \<and> \<not> balloc_lock s'"
proof -
  obtain s' where "xv6_balloc 0 sample_fs = Some (0, 46, s')" using sample_balloc by blast
  with balloc_fault_safe [OF sample_alloc_inv this] show ?thesis by blast
qed

text \<open>
  C19. On a file system of at most 8192 blocks (one bitmap block) \<^verbatim>\<open>xv6_balloc\<close>
  always returns, whatever the bitmap holds and whatever service calls fail.
\<close>

theorem balloc_terminates:
  assumes "alloc_inv s" and "fi_size (info s) \<le> BPB"
  shows "\<exists>err b s'. xv6_balloc blk s = Some (err, b, s')"
proof -
  note u = unsafe_inv_locked [OF assms(1)]
  then obtain r where "xv6_balloc_unsafe blk (s\<lparr>balloc_lock := True\<rparr>) = Some r"
    using unsafe_returns [of "s\<lparr>balloc_lock := True\<rparr>" blk] assms(2) by (auto simp: BPB_val)
  then show ?thesis using u by (cases r) (simp add: balloc_unfold)
qed

theorem balloc_terminates_witness: "\<exists>err b s'. xv6_balloc 7 sample_fs = Some (err, b, s')"
  by (rule balloc_terminates [OF sample_alloc_inv]) (simp add: sample_defs BPB_val)

text \<open>
  C20. On a larger file system it can hang: when every block from the hint to block 8191 is
  used, the scan reaches the block number 8192, whose chunk end \<^verbatim>\<open>(alloc + BPB - 1) /
  BPB * BPB\<close> is 8192 again, so the jump to \<^verbatim>\<open>try_balloc\<close> repeats for ever and the call does not
  return, although later blocks may be free. (No assertion fails on this path; the mutex taken at the start of the call is
  released at its end only.)
\<close>

theorem balloc_hangs:
  assumes "alloc_inv s" and "BPB < fi_size (info s)" and "hint_of s \<le> BPB"
    and "\<forall>x. hint_of s \<le> x \<and> x < BPB \<longrightarrow> bm_used s x" and "\<forall>n b. env_bread (env s) n b"
  shows "xv6_balloc blk s = None"
proof -
  let ?s = "s\<lparr>balloc_lock := True\<rparr>"
  note u = unsafe_inv_locked [OF assms(1)]
  have e: "bm_used ?s = bm_used s" "hint_of ?s = hint_of s"
    by (simp_all add: bm_used_def [abs_def] hint_of_def)
  have pre: "rng_pre ?s (hint_of s) (fi_size (info s))"
    using u rng_pre_first [OF assms(1)] by (simp add: rng_pre_def)
  have "xv6_balloc_rng (hint_of s) (fi_size (info s)) 0 ?s = None"
    by (rule rng_diverges_full [OF pre]) (use assms e in \<open>auto simp: BPB_val\<close>)
  then have "xv6_balloc_unsafe blk ?s = None"
    using u by (simp add: unsafe_unfold e)
  then show ?thesis using u by (simp add: balloc_unfold)
qed

definition full_fs :: "u32 \<Rightarrow> fs" where
  "full_fs n = sample_fs\<lparr>cache := (\<lambda>_ _. 255), info := sample_info\<lparr>fi_size := n\<rparr>, balloc_hint := 50\<rparr>"

lemma rd32_ones: "rd32 (\<lambda>_. 255) k = - 1"
proof -
  have "rd32 (\<lambda>_. 255) k = 4294967295" by (simp add: rd32_def cat32_def)
  also have "\<dots> = - 1" by simp
  finally show ?thesis .
qed

lemma full_fs_used: "bm_used (full_fs n) x"
proof -
  have "blk_bit (\<lambda>_. 255) x"
    unfolding blk_bit_def rd32_ones bit_minus_1_iff using mod32_bound [of x] by (simp only: possible_bit_word) simp
  then show ?thesis by (simp add: bm_used_def full_fs_def)
qed

lemma full_fs_inv: "alloc_inv (full_fs 2000)" "alloc_inv (full_fs 10000)"
  by (simp_all add: alloc_inv_def hint_ok_def hint_of_def full_fs_def sample_defs wf_geom_def
      data_start_def BITMAP_BLOCKS_def BPB_val)

theorem balloc_hangs_witness: "xv6_balloc 0 (full_fs 10000) = None"
  by (rule balloc_hangs [OF full_fs_inv(2)])
    (simp_all add: full_fs_used, simp_all add: full_fs_def sample_defs BPB_val hint_of_def)

text \<open>
  C16. Freeing a data block implements insertion into the pool: on success the pool gains
  exactly that block (nothing changes if it was free already), on an I/O error it gains at
  most that block; only the bitmap block is written, and a success is on disk.
\<close>

theorem bfree_refines_insert:
  assumes "alloc_inv s" and "data_block (info s) b" and "xv6_bfree b s = Some (err, s')"
  shows "(err = 0 \<longrightarrow> free_blocks s' = insert b (free_blocks s))
    \<and> (free_blocks s' = free_blocks s \<or> free_blocks s' = insert b (free_blocks s))
    \<and> touches {bmblk (info s) b} s s' \<and> alloc_inv s'"
  using bfree_pool [OF assms] by blast

lemma full_bfree: "\<exists>s'. xv6_bfree 50 (full_fs 2000) = Some (0, s')"
  by (simp add: alloc_eval full_fs_def sample_defs bit_mask_def rd32_ones)

theorem bfree_refines_insert_witness:
  "\<exists>s'. xv6_bfree 50 (full_fs 2000) = Some (0, s')
     \<and> free_blocks s' = insert 50 (free_blocks (full_fs 2000))"
proof -
  obtain s' where r: "xv6_bfree 50 (full_fs 2000) = Some (0, s')" using full_bfree by blast
  have d: "data_block (info (full_fs 2000)) 50"
    by (simp add: data_block_def data_start_def full_fs_def sample_defs BITMAP_BLOCKS_def BPB_val)
  from bfree_refines_insert [OF full_fs_inv(1) d r] r show ?thesis by simp
qed

text \<open>
  \<^verbatim>\<open>xv6_bfree\<close> does not return exactly in these cases: its lock is taken, or the
  file system is writable and the block is not a data block (the two assertions panic).
\<close>

lemma bfree_panics_iff:
  "xv6_bfree b s = None \<longleftrightarrow> balloc_lock s \<or> (\<not> rdonly s \<and> \<not> data_block (info s) b)"
proof (cases "balloc_lock s \<or> rdonly s \<or> \<not> data_block (info s) b")
  case True
  then show ?thesis
    by (auto simp: xv6_bfree_def xv6_bfree_unsafe_def mutex_lock_balloc_def data_block_def
        data_start_def xv6_assert_def)
next
  case False
  then have ok: "b < fi_size (info s)" "fi_bmapstart (info s) + BITMAP_BLOCKS (fi_size (info s)) \<le> b"
      "\<not> rdonly s" "\<not> balloc_lock s"
    by (auto simp: data_block_def data_start_def)
  then have "xv6_bfree b s \<noteq> None"
    by (simp add: xv6_bfree_def xv6_bfree_unsafe_def mutex_lock_balloc_def Let_def
        split: option.split prod.split)
  with False show ?thesis by blast
qed

text \<open>
  C21. Any number of successive successful allocations hand out pairwise distinct blocks,
  all of them free before the first, and remove exactly these blocks from the pool.
\<close>

theorem balloc_many_distinct:
  assumes "alloc_inv s" and "alloc_many (xv6_balloc 0) n s = Some (bs, s')"
  shows "length bs = n \<and> distinct bs \<and> set bs \<subseteq> free_blocks s \<and> free_blocks s' = free_blocks s - set bs
    \<and> alloc_inv s'"
  by (rule kernel_pool.many_distinct [OF assms])

lemma sample_alloc_two: "map_option fst (alloc_many (xv6_balloc 0) 2 sample_fs) = Some [46, 47]"
  apply (simp add: eval_nat_numeral)
  apply (simp add: balloc_unfold sample_defs)
  apply (simp add: xv6_balloc_unsafe_def BPB_val BITMAP_BLOCKS_def)
  apply (subst xv6_balloc_rng.simps)
  apply (simp add: Let_def BPB_val sb_bread_def)
  apply (subst balloc_while.simps)
  apply (simp add: alloc_eval bit_mask_def del: xv6_balloc_rng.simps balloc_while.simps)
  apply (subst xv6_balloc_rng.simps)
  apply (simp add: Let_def BPB_val sb_bread_def)
  apply (subst balloc_while.simps)
  apply (simp add: alloc_eval bit_mask_def rd32_wr32 del: xv6_balloc_rng.simps balloc_while.simps)
  done

theorem balloc_many_distinct_witness:
  "\<exists>bs s'. alloc_many (xv6_balloc 0) 2 sample_fs = Some (bs, s') \<and> length bs = 2 \<and> distinct bs"
proof -
  obtain bs s' where r: "alloc_many (xv6_balloc 0) 2 sample_fs = Some (bs, s')"
    using sample_alloc_two by auto
  from balloc_many_distinct [OF sample_alloc_inv r] r show ?thesis by blast
qed

text \<open>
  Freeing a block just allocated restores the pool of free blocks.
\<close>

lemma balloc_bfree_roundtrip:
  assumes "alloc_inv s" and "xv6_balloc 0 s = Some (0, b, s1)" and "b \<noteq> 0"
    and "xv6_bfree b s1 = Some (0, s2)"
  shows "free_blocks s2 = free_blocks s \<and> alloc_inv s2"
  by (rule kernel_pool.alloc_release [OF assms])

lemma sample_alloc_free:
  "\<exists>s1 s2. xv6_balloc 0 sample_fs = Some (0, 46, s1) \<and> xv6_bfree 46 s1 = Some (0, s2)"
  by (simp add: alloc_eval sample_defs)

lemma balloc_bfree_roundtrip_witness:
  "\<exists>s1 s2. xv6_balloc 0 sample_fs = Some (0, 46, s1) \<and> xv6_bfree 46 s1 = Some (0, s2)
     \<and> free_blocks s2 = free_blocks sample_fs"
proof -
  obtain s1 s2 where r: "xv6_balloc 0 sample_fs = Some (0, 46, s1)" "xv6_bfree 46 s1 = Some (0, s2)"
    using sample_alloc_free by blast
  from balloc_bfree_roundtrip [OF sample_alloc_inv r(1) _ r(2)] r show ?thesis by auto
qed

end
