(* ===== verification/Checker.thy ===== *)
theory Checker
  imports Disk_Layout
begin

text \<open>
  \<^verbatim>\<open>fs.cpp\<close>: the block map of a file (\<^verbatim>\<open>xv6_inode_addr\<close>) and the walk over the
  entries of a directory (\<^verbatim>\<open>xv6_dir_iterate\<close>). Both are written against \<^verbatim>\<open>struct
  checker\<close> (\<^verbatim>\<open>check.h\<close>), a table of operations on an unknown device, so that the kernel
  module and the image verifier share them. The table is a record over the device state
  \<open>'s\<close>. A buffer pointer is the handle \<^verbatim>\<open>bread\<close> returns; \<open>ck_bdata\<close> is the
  memory \<^verbatim>\<open>bdata\<close> points to and \<open>ck_bstore\<close> a store through that pointer.
  Messages (\<^verbatim>\<open>warning\<close>, \<^verbatim>\<open>error\<close>) have no effect on the result and are left out.
\<close>

section \<open>The interface\<close>

record 's checker =
  ck_bread :: "u32 \<Rightarrow> 's \<Rightarrow> u32 option \<times> 's"
  ck_bdata :: "u32 \<Rightarrow> 's \<Rightarrow> block"
  ck_bstore :: "u32 \<Rightarrow> block \<Rightarrow> 's \<Rightarrow> 's"
  ck_brelse :: "u32 \<Rightarrow> 's \<Rightarrow> 's"
  ck_balloc :: "u32 \<Rightarrow> 's \<Rightarrow> (int \<times> u32 \<times> 's) option"
  ck_bflush :: "u32 \<Rightarrow> 's \<Rightarrow> int \<times> 's"

record xv6_inode_ctx =
  ic_addrs :: "u32 list"
  ic_size :: u32
  ic_dirty :: bool

record xv6_diter_action =
  act_cont :: bool
  act_de_dirty :: bool
  act_dir_ext :: bool
  act_dir_dirty :: bool

definition xv6_diter_action_init :: xv6_diter_action where
  "xv6_diter_action_init = \<lparr>act_cont = False, act_de_dirty = False, act_dir_ext = False,
     act_dir_dirty = False\<rparr>"

text \<open>A callback gets the entry number, the entry and its context; \<^theory_text>\<open>None\<close> is a failed
  assertion.\<close>

type_synonym 'c xv6_diter_callback =
  "u32 \<Rightarrow> dirent \<Rightarrow> 'c \<Rightarrow> (xv6_diter_action \<times> dirent \<times> 'c) option"

definition panic_unless :: "bool \<Rightarrow> unit option" where
  "panic_unless c = (if c then Some () else None)"

section \<open>xv6_inode_addr\<close>

definition inode_addr_indirect ::
    "'s checker \<Rightarrow> xv6_inode_ctx \<Rightarrow> nat \<Rightarrow> bool \<Rightarrow> 's \<Rightarrow> (int \<times> u32 \<times> xv6_inode_ctx \<times> 's) option" where
  "inode_addr_indirect check inode k alloc s =
     (case ck_bread check (ic_addrs inode ! NDIRECT) s of
        (None, s) \<Rightarrow> Some (- EIO, 0, inode, s)
      | (Some indir_buf, s) \<Rightarrow>
          (let datano = rd32 (ck_bdata check indir_buf s) (4 * k)
           in if datano = 0
              then if \<not> alloc then Some (0, 0, inode, ck_brelse check indir_buf s)
                   else do {
                     (error, datano, s) \<leftarrow> ck_balloc check datano s;
                     if error \<noteq> 0 then Some (error, 0, inode, ck_brelse check indir_buf s)
                     else if datano = 0 then Some (- ENOSPC, 0, inode, ck_brelse check indir_buf s)
                     else
                       (let s = ck_bstore check indir_buf
                              (wr32 (ck_bdata check indir_buf s) (4 * k) datano) s;
                            (error, s) = ck_bflush check indir_buf s
                        in Some (error, datano, inode, ck_brelse check indir_buf s))
                   }
              else Some (0, datano, inode, ck_brelse check indir_buf s)))"

definition xv6_inode_addr ::
    "'s checker \<Rightarrow> xv6_inode_ctx \<Rightarrow> u32 \<Rightarrow> bool \<Rightarrow> 's \<Rightarrow> (int \<times> u32 \<times> xv6_inode_ctx \<times> 's) option" where
  "xv6_inode_addr check inode i alloc s =
     (if unat i \<ge> MAXFILE then Some (- EFBIG, 0, inode, s)
      else
        (let inode = inode\<lparr>ic_dirty := False\<rparr>
         in if unat i < NDIRECT
            then if ic_addrs inode ! unat i = 0 \<and> alloc
                 then do {
                   (error, a, s) \<leftarrow> ck_balloc check (ic_addrs inode ! unat i) s;
                   let error = (if error = 0 \<and> a = 0 then - ENOSPC else error);
                   let inode = inode\<lparr>ic_addrs := (ic_addrs inode)[unat i := a], ic_dirty := True\<rparr>;
                   Some (error, a, inode, s)
                 }
                 else Some (0, ic_addrs inode ! unat i, inode, s)
            else
              (let k = unat (i - of_nat NDIRECT); indirno = ic_addrs inode ! NDIRECT
               in if indirno = 0
                  then if \<not> alloc then Some (0, 0, inode, s)
                       else do {
                         (error, a, s) \<leftarrow> ck_balloc check indirno s;
                         let inode = inode\<lparr>ic_addrs := (ic_addrs inode)[NDIRECT := a], ic_dirty := True\<rparr>;
                         if error \<noteq> 0 then Some (error, 0, inode, s)
                         else if a = 0 then Some (- ENOSPC, 0, inode, s)
                         else inode_addr_indirect check inode k alloc s
                       }
                  else inode_addr_indirect check inode k alloc s)))"

section \<open>xv6_dir_iterate\<close>

definition nents :: u32 where
  "nents = of_nat (BSIZE div 16)"

text \<open>The loop over the entries \<open>k\<close> to \<open>lim\<close> of one block.\<close>

function dir_scan :: "'s checker \<Rightarrow> 'c xv6_diter_callback \<Rightarrow> u32 \<Rightarrow> u32 \<Rightarrow> u32 \<Rightarrow> u32 \<Rightarrow>
    xv6_diter_action \<Rightarrow> bool \<Rightarrow> 'c \<Rightarrow> 's \<Rightarrow> (xv6_diter_action \<times> bool \<times> 'c \<times> 's) option" where
  "dir_scan check callback bh i k lim act flush ctx s =
     (if k < lim
      then do {
        (act, de, ctx) \<leftarrow> callback (i * nents + k) (rd_dirent (ck_bdata check bh s) (unat k)) ctx;
        let s = ck_bstore check bh (wr_dirent (ck_bdata check bh s) (unat k) de) s;
        let flush = flush \<or> act_de_dirty act;
        if \<not> act_cont act then Some (act, flush, ctx, s)
        else dir_scan check callback bh i (k + 1) lim act flush ctx s
      }
      else Some (act, flush, ctx, s))"
  by pat_completeness auto
termination
  by (relation "measure (\<lambda>(check, callback, bh, i, k, lim, act, flush, ctx, s). unat lim - unat k)")
    (auto intro: measure_Suc)

declare dir_scan.simps [simp del]

text \<open>
  The body of the loop over blocks for the block \<open>blockno\<close>; 0 is a hole. Its results are
  \<^verbatim>\<open>error\<close>, the last action, the callback's context and the state.
\<close>

definition dir_block :: "'s checker \<Rightarrow> 'c xv6_diter_callback \<Rightarrow> u32 \<Rightarrow> u32 \<Rightarrow> u32 \<Rightarrow> u32 \<Rightarrow>
    xv6_diter_action \<Rightarrow> 'c \<Rightarrow> 's \<Rightarrow> (int \<times> xv6_diter_action \<times> 'c \<times> 's) option" where
  "dir_block check callback blockno i off lim act ctx s =
     (if blockno = 0
      then do {
        (act, dummy, ctx) \<leftarrow> callback (i * nents) zero_dirent ctx;
        Some (0, act, ctx, s)
      }
      else case ck_bread check blockno s of
        (None, s) \<Rightarrow> Some (- EIO, act, ctx, s)
      | (Some debuf, s) \<Rightarrow> do {
          (act, flush, ctx, s) \<leftarrow> dir_scan check callback debuf i off lim act False ctx s;
          let (error, s) = (if flush then ck_bflush check debuf s else (0, s));
          Some (error, act, ctx, ck_brelse check debuf s)
        })"

text \<open>The \<^verbatim>\<open>while\<close> loop over blocks; \<open>sz\<close> counts the entries left.\<close>

partial_function (option) dir_loop :: "'s checker \<Rightarrow> 'c xv6_diter_callback \<Rightarrow> bool \<Rightarrow> u32 \<Rightarrow> u32 \<Rightarrow>
    u32 \<Rightarrow> xv6_diter_action \<Rightarrow> xv6_inode_ctx \<Rightarrow> 'c \<Rightarrow> 's \<Rightarrow>
    (int \<times> xv6_diter_action \<times> xv6_inode_ctx \<times> 'c \<times> 's) option" where
  "dir_loop check callback alloc i off sz act dir ctx s = do {
     (error, blockno, dir, s) \<leftarrow> xv6_inode_addr check dir i alloc s;
     if error \<noteq> 0 then Some (error, act, dir, ctx, s)
     else do {
       let lim = (if nents > sz + off then sz + off else nents);
       (error, act, ctx, s) \<leftarrow> dir_block check callback blockno i off lim act ctx s;
       if \<not> act_cont act \<or> error \<noteq> 0 then Some (error, act, dir, ctx, s)
       else
         (let sz = sz - (lim - off)
          in if sz = 0 then Some (error, act, dir, ctx, s)
             else dir_loop check callback alloc (i + 1) 0 sz act dir ctx s)
     }
   }"

text \<open>The extra call on the entry just past the end, for a callback that extends the directory.\<close>

definition dir_extend :: "'s checker \<Rightarrow> 'c xv6_diter_callback \<Rightarrow> bool \<Rightarrow> xv6_inode_ctx \<Rightarrow> 'c \<Rightarrow> 's \<Rightarrow>
    (int \<times> xv6_inode_ctx \<times> 'c \<times> 's) option" where
  "dir_extend check callback alloc dir ctx s = do {
     let sz = ic_size dir div 16;
     (error, blockno, dir, s) \<leftarrow> xv6_inode_addr check dir (sz div nents) alloc s;
     if error \<noteq> 0 then Some (error, dir, ctx, s)
     else case ck_bread check blockno s of
       (None, s) \<Rightarrow> Some (- EIO, dir, ctx, s)
     | (Some debuf, s) \<Rightarrow> do {
         let k = unat (sz mod nents);
         (act, de, ctx) \<leftarrow> callback sz (rd_dirent (ck_bdata check debuf s) k) ctx;
         let s = ck_bstore check debuf (wr_dirent (ck_bdata check debuf s) k de) s;
         let dir = (if act_dir_dirty act then dir\<lparr>ic_dirty := True, ic_size := ic_size dir + 16\<rparr> else dir);
         let (error, s) = (if act_de_dirty act then ck_bflush check debuf s else (0, s));
         Some (error, dir, ctx, ck_brelse check debuf s)
       }
   }"

definition xv6_dir_iterate :: "'s checker \<Rightarrow> xv6_inode_ctx \<Rightarrow> 'c xv6_diter_callback \<Rightarrow> 'c \<Rightarrow> u32 \<Rightarrow>
    bool \<Rightarrow> 's \<Rightarrow> (int \<times> xv6_inode_ctx \<times> 'c \<times> 's) option" where
  "xv6_dir_iterate check dir callback ctx off rw s = do {
     _ \<leftarrow> panic_unless (ic_size dir mod 16 = 0 \<and> ic_size dir \<ge> 2 * 16);
     let sz = ic_size dir div 16;
     if off > sz then Some (0, dir, ctx, s)
     else do {
       (error, act, dir, ctx, s) \<leftarrow>
         dir_loop check callback rw (off div nents) (off mod nents) (sz - off)
           xv6_diter_action_init dir ctx s;
       if error = 0 \<and> act_cont act \<and> act_dir_ext act
       then dir_extend check callback rw dir ctx s
       else Some (error, dir, ctx, s)
     }
   }"

lemma nents_val: "nents = 64"
  by (simp add: nents_def BSIZE_def)

end
