(* ===== verification/Checker_Spec.thy ===== *)
theory Checker_Spec
  imports Checker
begin

text \<open>
  What \<^verbatim>\<open>fs.cpp\<close> promises to its callers. A file is seen through its block map
  \<open>bmap\<close>, a directory through its entries \<open>entry\<close> (a hole reads as a zero entry). The
  locale \<open>checker_dev\<close> states what the code relies on in a \<^verbatim>\<open>struct checker\<close>; inside
  it, \<^verbatim>\<open>xv6_inode_addr\<close> is proved to read and extend the block map without moving or
  sharing a block, and \<^verbatim>\<open>xv6_dir_iterate\<close> to call its callback on the list of entries
  \<open>calls\<close>, in order, until it stops, whatever I/O errors occur.
\<close>

section \<open>The block map of a file\<close>

definition bmap :: "(u32 \<Rightarrow> block) \<Rightarrow> u32 list \<Rightarrow> nat \<Rightarrow> u32" where
  "bmap v a i = (if i < NDIRECT then a ! i
     else if i < MAXFILE \<and> a ! NDIRECT \<noteq> 0 then rd32 (v (a ! NDIRECT)) (4 * (i - NDIRECT)) else 0)"

definition entry :: "(u32 \<Rightarrow> block) \<Rightarrow> u32 list \<Rightarrow> nat \<Rightarrow> dirent" where
  "entry v a k = (let b = bmap v a (k div 64)
     in if b = 0 then zero_dirent else rd_dirent (v b) (k mod 64))"

definition owned :: "(u32 \<Rightarrow> block) \<Rightarrow> u32 list \<Rightarrow> u32 set" where
  "owned v a = {b. b \<noteq> 0 \<and> (b = a ! NDIRECT \<or> (\<exists>i. bmap v a i = b))}"

text \<open>
  A well-formed file: 13 addresses, no block mapped twice, the indirect block not a data
  block, and no block of the file in \<open>bad\<close> (free or metadata).
\<close>

definition file_wf :: "(u32 \<Rightarrow> block) \<Rightarrow> u32 set \<Rightarrow> u32 list \<Rightarrow> bool" where
  "file_wf v bad a \<longleftrightarrow> length a = NDIRECT + 1
     \<and> (\<forall>i j. bmap v a i \<noteq> 0 \<longrightarrow> bmap v a i = bmap v a j \<longrightarrow> i = j)
     \<and> (a ! NDIRECT \<noteq> 0 \<longrightarrow> (\<forall>i. bmap v a i \<noteq> a ! NDIRECT))
     \<and> owned v a \<inter> bad = {}"

text \<open>Every block keeps its place and content; new blocks are zero.\<close>

definition extends :: "(u32 \<Rightarrow> block) \<Rightarrow> u32 list \<Rightarrow> (u32 \<Rightarrow> block) \<Rightarrow> u32 list \<Rightarrow> bool" where
  "extends v a v' a' \<longleftrightarrow> (\<forall>j.
     bmap v' a' j = bmap v a j \<and> (bmap v a j \<noteq> 0 \<longrightarrow> v' (bmap v a j) = v (bmap v a j))
     \<or> bmap v a j = 0 \<and> v' (bmap v' a' j) = zero_block)"

lemma extends_refl [simp]: "extends v a v a"
  by (simp add: extends_def)

lemma extends_entry: "extends v a v' a' \<Longrightarrow> entry v' a' = entry v a"
proof
  fix k assume "extends v a v' a'"
  then have "bmap v' a' (k div 64) = bmap v a (k div 64)
      \<and> (bmap v a (k div 64) \<noteq> 0 \<longrightarrow> v' (bmap v a (k div 64)) = v (bmap v a (k div 64)))
     \<or> bmap v a (k div 64) = 0 \<and> v' (bmap v' a' (k div 64)) = zero_block"
    by (simp add: extends_def)
  then show "entry v' a' k = entry v a k"
    by (auto simp: entry_def Let_def)
qed

lemma wf_entry [simp]: "wf_dirent (entry v a k)"
  by (simp add: entry_def Let_def)

lemma ownedI: "bmap v a i \<noteq> 0 \<Longrightarrow> bmap v a i \<in> owned v a" "a ! NDIRECT \<noteq> 0 \<Longrightarrow> a ! NDIRECT \<in> owned v a"
  by (auto simp: owned_def)

lemma file_wfD:
  assumes "file_wf v bad a"
  shows "length a = 13" "bmap v a i \<noteq> 0 \<Longrightarrow> bmap v a i = bmap v a j \<Longrightarrow> i = j"
    "a ! NDIRECT \<noteq> 0 \<Longrightarrow> bmap v a i \<noteq> a ! NDIRECT" "owned v a \<inter> bad = {}"
    "bmap v a i \<noteq> 0 \<Longrightarrow> bmap v a i \<notin> bad" "a ! NDIRECT \<noteq> 0 \<Longrightarrow> a ! NDIRECT \<notin> bad"
  using assms ownedI(1) [of v a i] ownedI(2) [of a v] by (auto simp: file_wf_def NDIRECT_def)

lemma file_wf_mono: "file_wf v bad a \<Longrightarrow> bad' \<subseteq> bad \<Longrightarrow> file_wf v bad' a"
  by (auto simp: file_wf_def)

text \<open>Filling an empty slot with a block of the pool.\<close>

lemma grow_slot:
  assumes wf: "file_wf v (P \<union> M) a" and len: "length a' = 13" and ind: "a' ! NDIRECT = a ! NDIRECT"
    and bm: "\<And>j. bmap v' a' j = (if j = i then b else bmap v a j)" and hole: "bmap v a i = 0"
    and b: "b \<in> P" "b \<noteq> 0" and P': "P' \<subseteq> P - {b}" "P \<inter> M = {}"
    and frame: "\<And>x. x \<notin> P \<Longrightarrow> x \<notin> M \<Longrightarrow> x \<noteq> a ! NDIRECT \<or> a ! NDIRECT = 0 \<Longrightarrow> v' x = v x"
    and z: "v' b = zero_block"
  shows "file_wf v' (P' \<union> M) a'" "extends v a v' a'" "owned v' a' = insert b (owned v a)"
proof -
  have fresh: "bmap v a j \<noteq> b" for j
    using file_wfD(5) [OF wf, of j] b by auto
  have nind: "a ! NDIRECT \<noteq> b" using file_wfD(6) [OF wf] b by auto
  show o: "owned v' a' = insert b (owned v a)"
    using b hole by (auto simp: owned_def bm ind)
  show "file_wf v' (P' \<union> M) a'"
    unfolding file_wf_def o
  proof (intro conjI)
    show "length a' = NDIRECT + 1" using len by (simp add: NDIRECT_def)
    show "\<forall>i j. bmap v' a' i \<noteq> 0 \<longrightarrow> bmap v' a' i = bmap v' a' j \<longrightarrow> i = j"
      using fresh file_wfD(2) [OF wf] by (auto simp: bm split: if_splits)
    show "a' ! NDIRECT \<noteq> 0 \<longrightarrow> (\<forall>i. bmap v' a' i \<noteq> a' ! NDIRECT)"
      using nind file_wfD(3) [OF wf] by (auto simp: bm ind)
    show "insert b (owned v a) \<inter> (P' \<union> M) = {}"
      using file_wfD(4) [OF wf] P' b by auto
  qed
  show "extends v a v' a'"
    unfolding extends_def
  proof
    fix j
    have "v' (bmap v a j) = v (bmap v a j)" if "bmap v a j \<noteq> 0"
      using file_wfD(3,5) [OF wf, of j] that by (intro frame) auto
    then show "bmap v' a' j = bmap v a j \<and> (bmap v a j \<noteq> 0 \<longrightarrow> v' (bmap v a j) = v (bmap v a j))
       \<or> bmap v a j = 0 \<and> v' (bmap v' a' j) = zero_block"
      using hole z by (cases "j = i") (auto simp: bm)
  qed
qed

text \<open>Nothing mapped, or a fresh zero indirect block.\<close>

lemma grow_none:
  assumes wf: "file_wf v (P \<union> M) a" and len: "length a' = 13"
    and bm: "\<And>j. bmap v' a' j = bmap v a j"
    and ind: "a' ! NDIRECT = a ! NDIRECT \<or> a ! NDIRECT = 0 \<and> a' ! NDIRECT \<in> P" "P \<inter> M = {}"
    and P': "P' \<subseteq> P" "a' ! NDIRECT \<notin> P'"
    and frame: "\<And>x. x \<notin> P \<Longrightarrow> x \<notin> M \<Longrightarrow> v' x = v x"
  shows "file_wf v' (P' \<union> M) a'" "extends v a v' a'"
    "owned v' a' = owned v a \<union> (if a' ! NDIRECT = 0 then {} else {a' ! NDIRECT})"
proof -
  have far: "bmap v a j \<notin> P" "bmap v a j \<notin> M" if "bmap v a j \<noteq> 0" for j
    using file_wfD(5) [OF wf that] by auto
  show o: "owned v' a' = owned v a \<union> (if a' ! NDIRECT = 0 then {} else {a' ! NDIRECT})"
    using ind by (auto simp: owned_def bm)
  show "file_wf v' (P' \<union> M) a'"
    unfolding file_wf_def o
  proof (intro conjI)
    show "length a' = NDIRECT + 1" using len by (simp add: NDIRECT_def)
    show "\<forall>i j. bmap v' a' i \<noteq> 0 \<longrightarrow> bmap v' a' i = bmap v' a' j \<longrightarrow> i = j"
      using file_wfD(2) [OF wf] by (auto simp: bm)
    show "a' ! NDIRECT \<noteq> 0 \<longrightarrow> (\<forall>i. bmap v' a' i \<noteq> a' ! NDIRECT)"
      using ind(1) far file_wfD(3) [OF wf] by (metis bm)
    have "a' ! NDIRECT \<notin> M" if "a' ! NDIRECT \<noteq> 0"
      using ind that file_wfD(6) [OF wf] by auto
    then show "(owned v a \<union> (if a' ! NDIRECT = 0 then {} else {a' ! NDIRECT})) \<inter> (P' \<union> M) = {}"
      using file_wfD(4) [OF wf] P' by auto
  qed
  show "extends v a v' a'"
    unfolding extends_def using far frame by (auto simp: bm)
qed

lemma bmap_direct: "i < 12 \<Longrightarrow> length a = 13 \<Longrightarrow> (\<And>x. x = a ! NDIRECT \<Longrightarrow> x \<noteq> 0 \<Longrightarrow> v' x = v x) \<Longrightarrow>
    bmap v' (a[i := b]) j = (if j = i then b else bmap v a j)"
  by (auto simp: bmap_def NDIRECT_def)

lemma bmap_indirect: "length a = 13 \<Longrightarrow> a ! NDIRECT = 0 \<Longrightarrow> b = 0 \<or> v' b = zero_block \<Longrightarrow>
    bmap v' (a[NDIRECT := b]) j = bmap v a j"
  by (auto simp: bmap_def NDIRECT_def)

lemma bmap_slot:
  assumes "k < 256" "a ! NDIRECT \<noteq> 0" "v' (a ! NDIRECT) = wr32 (v (a ! NDIRECT)) (4 * k) b"
  shows "bmap v' a j = (if j = 12 + k then b else bmap v a j)"
  using assms by (auto simp: bmap_def NDIRECT_def MAXFILE_val rd32_wr32_slot)

section \<open>The interface\<close>

text \<open>
  What the code relies on in a device: \<open>view\<close> is the content of its blocks, \<open>pool\<close> the
  blocks it may still hand out, \<open>meta\<close> blocks that are never file data, \<open>held\<close> the
  buffers handed out and not yet released, \<open>inv\<close> the device's own invariant.
\<close>

locale checker_dev =
  fixes ck :: "'s checker"
    and view :: "'s \<Rightarrow> u32 \<Rightarrow> block"
    and pool :: "'s \<Rightarrow> u32 set"
    and meta :: "'s \<Rightarrow> u32 set"
    and bits :: "u32 set"
    and held :: "'s \<Rightarrow> u32 \<Rightarrow> int"
    and inv :: "'s \<Rightarrow> bool"
  assumes bread_ok: "inv s \<Longrightarrow> ck_bread ck b s = (r, s') \<Longrightarrow>
      view s' = view s \<and> pool s' = pool s \<and> meta s' = meta s \<and> inv s'
      \<and> (r = None \<and> held s' = held s \<or> r = Some b \<and> held s' = (held s)(b := held s b + 1))"
    and bdata_ok: "ck_bdata ck b s = view s b"
    and bstore_ok: "inv s \<Longrightarrow> b \<notin> meta s \<Longrightarrow> s' = ck_bstore ck b d s \<Longrightarrow>
      view s' = (view s)(b := d) \<and> pool s' = pool s \<and> meta s' = meta s \<and> held s' = held s \<and> inv s'"
    and brelse_ok: "inv s \<Longrightarrow> s' = ck_brelse ck b s \<Longrightarrow>
      view s' = view s \<and> pool s' = pool s \<and> meta s' = meta s
      \<and> held s' = (held s)(b := held s b - 1) \<and> inv s'"
    and bflush_ok: "inv s \<Longrightarrow> ck_bflush ck b s = (e, s') \<Longrightarrow>
      view s' = view s \<and> pool s' = pool s \<and> meta s' = meta s \<and> held s' = held s \<and> inv s'"
    and balloc_ok: "inv s \<Longrightarrow> ck_balloc ck 0 s = Some (e, b, s') \<Longrightarrow>
      inv s' \<and> meta s' = meta s \<and> held s' = held s \<and> pool s' \<subseteq> pool s
      \<and> (\<forall>x. x \<notin> pool s \<longrightarrow> x \<notin> bits \<longrightarrow> view s' x = view s x)
      \<and> (b \<noteq> 0 \<longrightarrow> b \<in> pool s \<and> b \<notin> pool s' \<and> view s' b = zero_block
           \<and> (e = 0 \<longrightarrow> pool s \<subseteq> insert b (pool s')))"
    and bits_meta: "inv s \<Longrightarrow> bits \<subseteq> meta s"
    and pool_meta: "inv s \<Longrightarrow> pool s \<inter> meta s = {}"
    and pool_zero: "inv s \<Longrightarrow> 0 \<notin> pool s"
begin

text \<open>
  How a run on one file changes the device: apart from blocks of the pool, metadata and the
  file's own blocks nothing changes, the file stays well-formed and only takes blocks that left
  the pool.
\<close>

definition evolves :: "'s \<Rightarrow> u32 list \<Rightarrow> 's \<Rightarrow> u32 list \<Rightarrow> bool" where
  "evolves s a s' a' \<longleftrightarrow> inv s' \<and> meta s' = meta s \<and> pool s' \<subseteq> pool s \<and> held s' = held s
     \<and> (\<forall>x. x \<notin> pool s \<longrightarrow> x \<notin> bits \<longrightarrow> x \<notin> owned (view s) a \<longrightarrow> view s' x = view s x)
     \<and> file_wf (view s') (pool s' \<union> meta s') a'
     \<and> owned (view s) a \<subseteq> owned (view s') a'
     \<and> owned (view s') a' \<subseteq> owned (view s) a \<union> (pool s - pool s')"

lemma evolvesD:
  assumes "evolves s a s' a'"
  shows "inv s'" "meta s' = meta s" "pool s' \<subseteq> pool s" "held s' = held s"
    "file_wf (view s') (pool s' \<union> meta s) a'"
    "\<And>x. x \<notin> pool s \<Longrightarrow> x \<notin> bits \<Longrightarrow> x \<notin> owned (view s) a \<Longrightarrow> view s' x = view s x"
    "owned (view s') a' \<subseteq> owned (view s) a \<union> (pool s - pool s')"
  using assms by (auto simp: evolves_def)

lemma evolves_trans:
  assumes "evolves s a s1 a1" "evolves s1 a1 s2 a2"
  shows "evolves s a s2 a2"
proof -
  have "view s2 x = view s x" if "x \<notin> pool s" "x \<notin> bits" "x \<notin> owned (view s) a" for x
  proof -
    have "x \<notin> pool s1" "x \<notin> owned (view s1) a1"
      using that evolvesD(2,3,7) [OF assms(1)] by auto
    then show ?thesis
      using evolvesD(6) [OF assms(1) that] evolvesD(6) [OF assms(2)] that(2) by simp
  qed
  then show ?thesis
    using assms unfolding evolves_def by (auto; blast)
qed

lemma evolves_same:
  "inv s' \<Longrightarrow> view s' = view s \<Longrightarrow> pool s' = pool s \<Longrightarrow> meta s' = meta s \<Longrightarrow> held s' = held s \<Longrightarrow>
   file_wf (view s) (pool s \<union> meta s) a \<Longrightarrow> evolves s a s' a"
  by (simp add: evolves_def)

lemma bread_brelse_held:
  assumes "inv s" "ck_bread ck b s = (r, s1)"
  obtains "r = None" "view s1 = view s" "pool s1 = pool s" "meta s1 = meta s" "inv s1" "held s1 = held s"
  | "r = Some b" "view s1 = view s" "pool s1 = pool s" "meta s1 = meta s" "inv s1"
    "held s1 = (held s)(b := held s b + 1)"
  using bread_ok [OF assms] by blast

subsection \<open>xv6_inode_addr\<close>

lemma indirect_read:
  assumes "inv s"
  obtains e b s' where "inode_addr_indirect ck c k False s = Some (e, b, c, s')"
    "view s' = view s" "pool s' = pool s" "meta s' = meta s" "held s' = held s" "inv s'"
    "e = 0 \<and> b = rd32 (view s (ic_addrs c ! NDIRECT)) (4 * k) \<or> e = - EIO"
proof -
  obtain r s1 where br: "ck_bread ck (ic_addrs c ! NDIRECT) s = (r, s1)" by force
  show thesis
  proof (cases rule: bread_brelse_held [OF assms br])
    case 1
    then show ?thesis using that [of "- EIO" 0 s1] br by (simp add: inode_addr_indirect_def)
  next
    case 2
    define s2 where "s2 = ck_brelse ck (ic_addrs c ! NDIRECT) s1"
    from brelse_ok [OF 2(5) s2_def] 2 show ?thesis
      using that [of 0 "rd32 (view s (ic_addrs c ! NDIRECT)) (4 * k)" s2] br
      by (cases "rd32 (view s (ic_addrs c ! NDIRECT)) (4 * k) = 0")
        (simp_all add: inode_addr_indirect_def bdata_ok s2_def)
  qed
qed

lemma addr_read:
  assumes "inv s" "length (ic_addrs c) = 13"
  obtains e b s' where
    "xv6_inode_addr ck c i False s
       = Some (e, b, if MAXFILE \<le> unat i then c else c\<lparr>ic_dirty := False\<rparr>, s')"
    "view s' = view s" "pool s' = pool s" "meta s' = meta s" "held s' = held s" "inv s'"
    "e = 0 \<and> unat i < MAXFILE \<and> b = bmap (view s) (ic_addrs c) (unat i)
      \<or> e = - EFBIG \<and> MAXFILE \<le> unat i \<or> e = - EIO \<and> NDIRECT \<le> unat i"
proof -
  consider "MAXFILE \<le> unat i" | "unat i < NDIRECT" | "NDIRECT \<le> unat i" "unat i < MAXFILE" "ic_addrs c ! NDIRECT = 0"
    | "NDIRECT \<le> unat i" "unat i < MAXFILE" "ic_addrs c ! NDIRECT \<noteq> 0" by linarith
  then show thesis
  proof cases
    case 1
    then show ?thesis using that [of "- EFBIG" 0 s] assms by (simp add: xv6_inode_addr_def)
  next
    case 2
    then have "\<not> MAXFILE \<le> unat i" by (simp add: MAXFILE_def)
    with 2 show ?thesis using that [of 0 "ic_addrs c ! unat i" s] assms
      by (simp add: xv6_inode_addr_def bmap_def)
  next
    case 3
    then show ?thesis using that [of 0 0 s] assms by (simp add: xv6_inode_addr_def bmap_def)
  next
    case 4
    have k: "unat (i - of_nat NDIRECT) = unat i - NDIRECT"
      using 4(1) by (simp add: NDIRECT_def unat_sub word_le_unat)
    show ?thesis
    proof (rule indirect_read [OF assms(1), of "c\<lparr>ic_dirty := False\<rparr>" "unat i - NDIRECT"])
      fix e b s'
      assume h: "inode_addr_indirect ck (c\<lparr>ic_dirty := False\<rparr>) (unat i - NDIRECT) False s
            = Some (e, b, c\<lparr>ic_dirty := False\<rparr>, s')"
        "view s' = view s" "pool s' = pool s" "meta s' = meta s" "held s' = held s" "inv s'"
        "e = 0 \<and> b = rd32 (view s (ic_addrs (c\<lparr>ic_dirty := False\<rparr>) ! NDIRECT)) (4 * (unat i - NDIRECT)) \<or> e = - EIO"
      show thesis
        by (rule that [of e b s']) (use 4 h k in \<open>auto simp: xv6_inode_addr_def bmap_def\<close>)
    qed
  qed
qed

lemma balloc_frame:
  assumes "inv s" "ck_balloc ck 0 s = Some (e, b, s')" "x \<notin> pool s" "x \<notin> meta s"
  shows "view s' x = view s x"
  using balloc_ok [OF assms(1,2)] bits_meta [OF assms(1)] assms(3,4) by blast

lemma balloc_far:
  assumes "inv s" "file_wf (view s) (pool s \<union> meta s) a" "ck_balloc ck 0 s = Some (e, b, s')"
  shows "x \<in> owned (view s) a \<Longrightarrow> view s' x = view s x"
    "bmap (view s') a = bmap (view s) a" "b \<noteq> 0 \<Longrightarrow> b \<notin> owned (view s) a"
proof -
  show o: "view s' x = view s x" if "x \<in> owned (view s) a" for x
    by (rule balloc_frame [OF assms(1,3)]) (use that file_wfD(4) [OF assms(2)] in auto)
  show "bmap (view s') a = bmap (view s) a"
    using o [OF ownedI(2)] by (auto simp: bmap_def)
  show "b \<noteq> 0 \<Longrightarrow> b \<notin> owned (view s) a"
    using file_wfD(4) [OF assms(2)] balloc_ok [OF assms(1,3)] by blast
qed

lemma balloc_evolves:
  assumes "inv s" "file_wf (view s) (pool s \<union> meta s) a" "ck_balloc ck 0 s = Some (e, b, s')"
  shows "evolves s a s' a" "extends (view s) a (view s') a"
proof -
  note B = balloc_ok [OF assms(1,3)] and far = balloc_far [OF assms]
  have ind: "a ! NDIRECT = a ! NDIRECT \<or> a ! NDIRECT = 0 \<and> a ! NDIRECT \<in> pool s" "a ! NDIRECT \<notin> pool s'"
    using file_wfD(6) [OF assms(2)] pool_zero [OF assms(1)] B by (cases "a ! NDIRECT = 0"; auto)+
  have "a ! NDIRECT \<noteq> 0 \<Longrightarrow> a ! NDIRECT \<in> owned (view s) a" by (rule ownedI)
  moreover have "file_wf (view s') (pool s' \<union> meta s) a" "extends (view s) a (view s') a"
      "owned (view s') a = owned (view s) a \<union> (if a ! NDIRECT = 0 then {} else {a ! NDIRECT})"
    using grow_none [OF assms(2) file_wfD(1) [OF assms(2)] _ ind(1) pool_meta [OF assms(1)] _ ind(2), of "view s'"]
      balloc_frame [OF assms(1,3)] far(2) B by auto
  ultimately show "evolves s a s' a" "extends (view s) a (view s') a"
    using B by (auto simp: evolves_def)
qed

lemma indirect_alloc:
  assumes inv: "inv s" and wf: "file_wf (view s) (pool s \<union> meta s) (ic_addrs c)"
    and ind: "ic_addrs c ! NDIRECT \<noteq> 0" and k: "k < 256"
    and run: "inode_addr_indirect ck c k True s = Some (e, b, c', s')"
  shows "c' = c \<and> evolves s (ic_addrs c) s' (ic_addrs c)
    \<and> extends (view s) (ic_addrs c) (view s') (ic_addrs c)
    \<and> (\<forall>j. j \<noteq> 12 + k \<longrightarrow> bmap (view s') (ic_addrs c) j = bmap (view s) (ic_addrs c) j)
    \<and> (e = 0 \<longrightarrow> b \<noteq> 0 \<and> b = bmap (view s') (ic_addrs c) (12 + k)
         \<and> pool s \<subseteq> pool s' \<union> owned (view s') (ic_addrs c))"
proof -
  let ?a = "ic_addrs c" and ?i = "ic_addrs c ! NDIRECT"
  let ?d = "rd32 (view s ?i) (4 * k)"
  obtain r s1 where br: "ck_bread ck ?i s = (r, s1)" by force
  have slot: "bmap (view s) ?a (12 + k) = ?d"
    using ind k by (simp add: bmap_def NDIRECT_def MAXFILE_val)
  show ?thesis
  proof (cases rule: bread_brelse_held [OF inv br])
    case 1
    then have "c' = c" "s' = s1" "e = - EIO" using run br by (simp_all add: inode_addr_indirect_def)
    with 1 wf show ?thesis by (auto intro: evolves_same)
  next
    case 2
    define rel where "rel = ck_brelse ck ?i"
    have rel: "inv t \<Longrightarrow> view (rel t) = view t \<and> pool (rel t) = pool t \<and> meta (rel t) = meta t
        \<and> held (rel t) = (held t)(?i := held t ?i - 1) \<and> inv (rel t)" for t
      using brelse_ok [of t "rel t" ?i] by (simp add: rel_def)
    show ?thesis
    proof (cases "?d = 0")
      case False
      then have "c' = c" "s' = rel s1" "e = 0" "b = ?d"
        using run br 2 by (auto simp: inode_addr_indirect_def bdata_ok rel_def)
      with 2 rel [OF 2(5)] wf slot False show ?thesis by (auto intro!: evolves_same)
    next
      case True
      obtain e1 b1 s2 where ba: "ck_balloc ck 0 s1 = Some (e1, b1, s2)"
        using run br 2 True by (auto simp: inode_addr_indirect_def bdata_ok elim!: bind_SomeE)
      have wf1: "file_wf (view s1) (pool s1 \<union> meta s1) ?a" using wf 2 by simp
      note B = balloc_ok [OF 2(5) ba] and E1 = balloc_evolves [OF 2(5) wf1 ba]
        and far = balloc_far [OF 2(5) wf1 ba]
      show ?thesis
      proof (cases "e1 = 0 \<and> b1 \<noteq> 0")
        case False
        then have "c' = c" "s' = rel s2" "e \<noteq> 0"
          using run br 2 True ba by (auto simp: inode_addr_indirect_def bdata_ok rel_def split: if_splits)
        moreover have "evolves s ?a (rel s2) ?a"
          using E1(1) rel [of s2] B 2 by (simp add: evolves_def)
        ultimately show ?thesis using E1(2) far(2) rel [of s2] B 2 by simp
      next
        case ok: True
        define s3 where "s3 = ck_bstore ck ?i (wr32 (view s2 ?i) (4 * k) b1) s2"
        obtain e4 s4 where fl: "ck_bflush ck ?i s3 = (e4, s4)" by force
        have res: "c' = c" "s' = rel s4" "e = e4" "b = b1"
          using run br 2 True ba ok fl
          by (auto simp: inode_addr_indirect_def bdata_ok rel_def s3_def)
        have "?i \<notin> meta s2" using file_wfD(6) [OF wf ind] B 2 by simp
        note S = bstore_ok [OF _ this s3_def]
        have i3: "inv s3" using S B by simp
        note F = bflush_ok [OF i3 fl]
        have R: "view s' = (view s2)(?i := wr32 (view s ?i) (4 * k) b1)" "pool s' = pool s2"
            "meta s' = meta s" "held s' = held s" "inv s'"
          using S F rel [of s4] B 2 far(1) [OF ownedI(2) [OF ind]] res by auto
        have bm: "bmap (view s') ?a j = (if j = 12 + k then b1 else bmap (view s) ?a j)" for j
          using R(1) by (intro bmap_slot k ind) simp
        have bi: "b1 \<noteq> ?i" using file_wfD(6) [OF wf ind] B ok 2 by auto
        have fr: "view s' x = view s x" if "x \<notin> pool s" "x \<notin> bits" "x \<noteq> ?i \<or> ?i = 0" for x
          using that B R(1) ind 2 by auto
        have fm: "view s' x = view s x" if "x \<notin> pool s" "x \<notin> meta s" "x \<noteq> ?i \<or> ?i = 0" for x
          using fr that bits_meta [OF inv] by blast
        have P': "pool s' \<subseteq> pool s - {b1}" "b1 \<in> pool s" "b1 \<noteq> 0" "view s' b1 = zero_block"
          using B ok 2 R(1,2) bi by auto
        note G = grow_slot [OF wf file_wfD(1) [OF wf] refl bm _ P'(2,3,1) pool_meta [OF inv] fm P'(4)]
        have G': "file_wf (view s') (pool s' \<union> meta s) ?a" "extends (view s) ?a (view s') ?a"
            "owned (view s') ?a = insert b1 (owned (view s) ?a)"
          using G True slot by auto
        have ow: "?i \<in> owned (view s) ?a" using ownedI(2) [OF ind] .
        have "\<forall>x. x \<notin> pool s \<longrightarrow> x \<notin> bits \<longrightarrow> x \<notin> owned (view s) ?a \<longrightarrow> view s' x = view s x"
          using fr ow by blast
        then have "evolves s ?a s' ?a"
          unfolding evolves_def using G' R(2-5) P'(1-3) by auto
        moreover have "pool s \<subseteq> pool s' \<union> owned (view s') ?a"
          using B ok 2 R(2) G'(3) by auto
        ultimately show ?thesis using G' res bm ok by simp
      qed
    qed
  qed
qed

text \<open>
  Allocation of block \<open>i\<close>: on every outcome, errors included, the file stays well-formed,
  no other block moves and no content changes; success means the block is mapped.
\<close>

lemma addr_alloc:
  assumes inv: "inv s" and wf: "file_wf (view s) (pool s \<union> meta s) (ic_addrs c)"
    and run: "xv6_inode_addr ck c i True s = Some (e, b, c', s')"
  shows "evolves s (ic_addrs c) s' (ic_addrs c')"
    "extends (view s) (ic_addrs c) (view s') (ic_addrs c')"
    "\<forall>j. j \<noteq> unat i \<longrightarrow> bmap (view s') (ic_addrs c') j = bmap (view s) (ic_addrs c) j"
    "e = 0 \<Longrightarrow> b \<noteq> 0 \<and> b = bmap (view s') (ic_addrs c') (unat i) \<and> unat i < MAXFILE"
    "MAXFILE \<le> unat i \<Longrightarrow> e = - EFBIG \<and> c' = c \<and> s' = s"
    "ic_size c' = ic_size c" "ic_addrs c' \<noteq> ic_addrs c \<Longrightarrow> ic_dirty c'"
    "bmap (view s) (ic_addrs c) (unat i) \<noteq> 0 \<Longrightarrow> ic_addrs c' = ic_addrs c"
    "e = 0 \<Longrightarrow> pool s \<subseteq> pool s' \<union> owned (view s') (ic_addrs c')"
proof -
  let ?a = "ic_addrs c"
  have len: "length ?a = 13" by (rule file_wfD(1) [OF wf])
  have same: "evolves t ?a t ?a" if "t = s" for t using that inv wf by (simp add: evolves_same)
  have "evolves s ?a s' (ic_addrs c') \<and> extends (view s) ?a (view s') (ic_addrs c')
    \<and> (\<forall>j. j \<noteq> unat i \<longrightarrow> bmap (view s') (ic_addrs c') j = bmap (view s) ?a j)
    \<and> (e = 0 \<longrightarrow> b \<noteq> 0 \<and> b = bmap (view s') (ic_addrs c') (unat i) \<and> unat i < MAXFILE)
    \<and> (MAXFILE \<le> unat i \<longrightarrow> e = - EFBIG \<and> c' = c \<and> s' = s)
    \<and> ic_size c' = ic_size c \<and> (ic_addrs c' \<noteq> ?a \<longrightarrow> ic_dirty c')
    \<and> (bmap (view s) ?a (unat i) \<noteq> 0 \<longrightarrow> ic_addrs c' = ?a)
    \<and> (e = 0 \<longrightarrow> pool s \<subseteq> pool s' \<union> owned (view s') (ic_addrs c'))"
  proof -
    consider "MAXFILE \<le> unat i" | "unat i < NDIRECT" "?a ! unat i \<noteq> 0" | "unat i < NDIRECT" "?a ! unat i = 0"
      | "NDIRECT \<le> unat i" "unat i < MAXFILE" "?a ! NDIRECT = 0"
      | "NDIRECT \<le> unat i" "unat i < MAXFILE" "?a ! NDIRECT \<noteq> 0" by linarith
    then show ?thesis
    proof cases
      case 1
      then show ?thesis using run same by (auto simp: xv6_inode_addr_def)
    next
      case 2
      then have "\<not> MAXFILE \<le> unat i" by (simp add: MAXFILE_def)
      with 2 show ?thesis using run same by (auto simp: xv6_inode_addr_def bmap_def)
    next
      case 3
      then have lt: "unat i < MAXFILE" "unat i < 12" "unat i \<noteq> NDIRECT" by (auto simp: MAXFILE_def NDIRECT_def)
      obtain e1 where ba: "ck_balloc ck 0 s = Some (e1, b, s')"
        and e: "e = (if e1 = 0 \<and> b = 0 then - ENOSPC else e1)"
        and c': "c' = c\<lparr>ic_addrs := ?a[unat i := b], ic_dirty := True\<rparr>"
        using run 3 lt by (auto simp: xv6_inode_addr_def elim!: bind_SomeE)
      note B = balloc_ok [OF inv ba] and far = balloc_far [OF inv wf ba]
      show ?thesis
      proof (cases "b = 0")
        case True
        have "?a[unat i := b] = ?a" using 3 True by (metis list_update_id)
        then show ?thesis
          using balloc_evolves [OF inv wf ba] far(2) lt e c' True by auto
      next
        case False
        have bm: "bmap (view s') (?a[unat i := b]) j = (if j = unat i then b else bmap (view s) ?a j)" for j
          using lt(2) len far(1) ownedI(2) by (intro bmap_direct) auto
        have hole: "bmap (view s) ?a (unat i) = 0" using 3 by (simp add: bmap_def)
        have P': "pool s' \<subseteq> pool s - {b}" "b \<in> pool s" "view s' b = zero_block"
            "\<And>x. x \<notin> pool s \<Longrightarrow> x \<notin> meta s \<Longrightarrow> view s' x = view s x"
          using B False bits_meta [OF inv] by auto
        have G: "file_wf (view s') (pool s' \<union> meta s) (?a[unat i := b])"
            "extends (view s) ?a (view s') (?a[unat i := b])"
            "owned (view s') (?a[unat i := b]) = insert b (owned (view s) ?a)"
          using grow_slot [OF wf _ _ bm hole P'(2) False P'(1) pool_meta [OF inv] P'(4) P'(3)] len lt(3)
          by auto
        then have "evolves s ?a s' (?a[unat i := b])"
          unfolding evolves_def using B False by auto
        moreover have "e = 0 \<longrightarrow> pool s \<subseteq> pool s' \<union> owned (view s') (?a[unat i := b])"
          using B False e G(3) by auto
        ultimately show ?thesis using G c' bm e lt False hole by auto
      qed
    next
      case 4
      obtain e1 b1 s1 where ba: "ck_balloc ck 0 s = Some (e1, b1, s1)"
        using run 4 by (auto simp: xv6_inode_addr_def elim!: bind_SomeE)
      define c1 where "c1 = c\<lparr>ic_addrs := ?a[NDIRECT := b1], ic_dirty := True\<rparr>"
      note B = balloc_ok [OF inv ba] and far = balloc_far [OF inv wf ba]
      have nth: "?a[NDIRECT := b1] ! NDIRECT = b1" using len by (simp add: NDIRECT_def)
      have hole: "bmap (view s) ?a (unat i) = 0" using 4 by (simp add: bmap_def)
      have bm: "bmap (view s1) (?a[NDIRECT := b1]) j = bmap (view s) ?a j" for j
        using bmap_indirect [OF len 4(3), of b1 "view s1" j] B by (auto simp: bmap_def 4(3))
      have P': "pool s1 \<subseteq> pool s" "?a[NDIRECT := b1] ! NDIRECT \<notin> pool s1"
          "?a[NDIRECT := b1] ! NDIRECT = ?a ! NDIRECT \<or> ?a ! NDIRECT = 0 \<and> ?a[NDIRECT := b1] ! NDIRECT \<in> pool s"
          "\<And>x. x \<notin> pool s \<Longrightarrow> x \<notin> meta s \<Longrightarrow> view s1 x = view s x"
        using B pool_zero [OF inv] bits_meta [OF inv] 4(3) nth by (cases "b1 = 0"; auto)+
      have G: "file_wf (view s1) (pool s1 \<union> meta s) (?a[NDIRECT := b1])"
          "extends (view s) ?a (view s1) (?a[NDIRECT := b1])"
          "owned (view s1) (?a[NDIRECT := b1]) = owned (view s) ?a \<union> (if b1 = 0 then {} else {b1})"
        using grow_none [OF wf _ bm P'(3) pool_meta [OF inv] P'(1,2,4)] len nth by auto
      then have ev1: "evolves s ?a s1 (ic_addrs c1)"
        unfolding evolves_def c1_def using B by auto
      have ex1: "extends (view s) ?a (view s1) (ic_addrs c1)" using G(2) by (simp add: c1_def)
      show ?thesis
      proof (cases "e1 = 0 \<and> b1 \<noteq> 0")
        case False
        then have "e \<noteq> 0" "c' = c1" "s' = s1"
          using run 4 ba by (auto simp: xv6_inode_addr_def c1_def Let_def split: if_splits)
        with ev1 ex1 bm 4 hole show ?thesis by (simp add: c1_def)
      next
        case True
        have k: "unat (i - of_nat NDIRECT) = unat i - NDIRECT"
          using 4(1) by (simp add: NDIRECT_def unat_sub word_le_unat)
        have run1: "inode_addr_indirect ck c1 (unat i - NDIRECT) True s1 = Some (e, b, c', s')"
          using run 4 ba True k by (simp add: xv6_inode_addr_def c1_def)
        have "file_wf (view s1) (pool s1 \<union> meta s1) (ic_addrs c1)" "inv s1"
          using ev1 by (auto simp: evolves_def)
        moreover have "unat i - NDIRECT < 256" using 4 by (auto simp: NDIRECT_def MAXFILE_val)
        ultimately have "c' = c1 \<and> evolves s1 (ic_addrs c1) s' (ic_addrs c1)
          \<and> extends (view s1) (ic_addrs c1) (view s') (ic_addrs c1)
          \<and> (\<forall>j. j \<noteq> 12 + (unat i - NDIRECT) \<longrightarrow> bmap (view s') (ic_addrs c1) j = bmap (view s1) (ic_addrs c1) j)
          \<and> (e = 0 \<longrightarrow> b \<noteq> 0 \<and> b = bmap (view s') (ic_addrs c1) (12 + (unat i - NDIRECT))
               \<and> pool s1 \<subseteq> pool s' \<union> owned (view s') (ic_addrs c1))"
          using True nth by (intro indirect_alloc [OF _ _ _ _ run1]) (simp_all add: c1_def)
        moreover have "12 + (unat i - NDIRECT) = unat i" using 4 by (simp add: NDIRECT_def)
        ultimately
        have I: "c' = c1" "evolves s1 (ic_addrs c1) s' (ic_addrs c1)"
            "extends (view s1) (ic_addrs c1) (view s') (ic_addrs c1)"
            "\<forall>j. j \<noteq> unat i \<longrightarrow> bmap (view s') (ic_addrs c1) j = bmap (view s1) (ic_addrs c1) j"
            "e = 0 \<longrightarrow> b \<noteq> 0 \<and> b = bmap (view s') (ic_addrs c1) (unat i)"
            "e = 0 \<longrightarrow> pool s1 \<subseteq> pool s' \<union> owned (view s') (ic_addrs c1)"
          by auto
        have "pool s \<subseteq> insert b1 (pool s1)" using B True by blast
        moreover have "b1 \<in> owned (view s') (ic_addrs c1)"
          using ownedI(2) [of "ic_addrs c1"] True nth by (simp add: c1_def)
        ultimately have px: "e = 0 \<longrightarrow> pool s \<subseteq> pool s' \<union> owned (view s') (ic_addrs c1)"
          using I(6) by blast
        have "extends (view s) ?a (view s') (ic_addrs c1)"
          using I(3) bm G(2) by (auto simp: extends_def c1_def)
        then show ?thesis
          using I(1-5) px evolves_trans [OF ev1 I(2)] bm 4 hole by (auto simp: c1_def)
      qed
    next
      case 5
      have k: "unat (i - of_nat NDIRECT) = unat i - NDIRECT"
        using 5(1) by (simp add: NDIRECT_def unat_sub word_le_unat)
      have run1: "inode_addr_indirect ck (c\<lparr>ic_dirty := False\<rparr>) (unat i - NDIRECT) True s = Some (e, b, c', s')"
        using run 5 k by (simp add: xv6_inode_addr_def)
      have "unat i - NDIRECT < 256" "12 + (unat i - NDIRECT) = unat i"
        using 5 by (auto simp: NDIRECT_def MAXFILE_val)
      with indirect_alloc [OF inv _ _ _ run1] wf 5 show ?thesis
        by auto
    qed
  qed
  then show "evolves s (ic_addrs c) s' (ic_addrs c')"
    "extends (view s) (ic_addrs c) (view s') (ic_addrs c')"
    "\<forall>j. j \<noteq> unat i \<longrightarrow> bmap (view s') (ic_addrs c') j = bmap (view s) (ic_addrs c) j"
    "e = 0 \<Longrightarrow> b \<noteq> 0 \<and> b = bmap (view s') (ic_addrs c') (unat i) \<and> unat i < MAXFILE"
    "MAXFILE \<le> unat i \<Longrightarrow> e = - EFBIG \<and> c' = c \<and> s' = s"
    "ic_size c' = ic_size c" "ic_addrs c' \<noteq> ic_addrs c \<Longrightarrow> ic_dirty c'"
    "bmap (view s) (ic_addrs c) (unat i) \<noteq> 0 \<Longrightarrow> ic_addrs c' = ic_addrs c"
    "e = 0 \<Longrightarrow> pool s \<subseteq> pool s' \<union> owned (view s') (ic_addrs c')"
    by blast+
qed

end

end
