(* ===== verification/Dir_Walk.thy ===== *)
theory Dir_Walk
  imports Checker_Spec
begin

text \<open>
  The directory iterator \<^verbatim>\<open>xv6_dir_iterate\<close> as a walk over a list of entries: the
  loops over blocks and over the entries of a block call the callback on the list \<open>calls\<close>,
  in order, until it stops; the only effect on the directory is the change the callback made
  to the entry it stopped at. This holds for callbacks that leave an entry alone when they go
  on (\<open>good_cb\<close>), which the callbacks of \<^verbatim>\<open>dir.c\<close> and \<^verbatim>\<open>check.cpp\<close> do.
\<close>

section \<open>Callbacks\<close>

fun run_cb :: "'c xv6_diter_callback \<Rightarrow> (nat \<times> dirent) list \<Rightarrow> xv6_diter_action \<Rightarrow> 'c \<Rightarrow>
    (xv6_diter_action \<times> 'c \<times> (nat \<times> dirent) option) option" where
  "run_cb cb [] act c = Some (act, c, None)"
| "run_cb cb ((k, e) # L) act c = do {
     (act, e', c) \<leftarrow> cb (of_nat k) e c;
     if act_cont act then run_cb cb L act c else Some (act, c, Some (k, e'))
   }"

definition good_cb :: "'c xv6_diter_callback \<Rightarrow> bool" where
  "good_cb cb \<longleftrightarrow> (\<forall>k e c a e' c'. wf_dirent e \<longrightarrow> cb k e c = Some (a, e', c') \<longrightarrow>
     wf_dirent e' \<and> (act_cont a \<longrightarrow> e' = e \<and> \<not> act_de_dirty a))"

lemma good_cbD:
  assumes "good_cb cb" "wf_dirent e" "cb k e c = Some (a, e', c')"
  shows "wf_dirent e'" "act_cont a \<Longrightarrow> e' = e" "act_cont a \<Longrightarrow> \<not> act_de_dirty a"
  using assms unfolding good_cb_def by blast+

lemma run_cb_ConsE:
  assumes "run_cb cb ((k, e) # L) act c = Some (a, c', st)"
  obtains (stop) e' where "cb (of_nat k) e c = Some (a, e', c')" "\<not> act_cont a" "st = Some (k, e')"
  | (go) a1 e1 c1 where "cb (of_nat k) e c = Some (a1, e1, c1)" "act_cont a1"
      "run_cb cb L a1 c1 = Some (a, c', st)"
  using assms by (auto elim!: bind_SomeE split: if_splits)

lemma run_cb_append:
  "run_cb cb (L1 @ L2) act c = do {
     (a, c, st) \<leftarrow> run_cb cb L1 act c;
     case st of None \<Rightarrow> run_cb cb L2 a c | Some x \<Rightarrow> Some (a, c, Some x) }"
proof (induction L1 arbitrary: act c)
  case (Cons p L)
  then show ?case
    by (cases p; cases "cb (of_nat (fst p)) (snd p) c") auto
qed simp

lemma run_cb_cont:
  "run_cb cb L act c = Some (a, c', st) \<Longrightarrow> (st = None \<longrightarrow> L \<noteq> [] \<longrightarrow> act_cont a)
     \<and> (st \<noteq> None \<longrightarrow> \<not> act_cont a) \<and> (L = [] \<longrightarrow> a = act \<and> c' = c \<and> st = None)"
proof (induction L arbitrary: act c)
  case (Cons p L)
  obtain k e where p: "p = (k, e)" by (cases p)
  from Cons.prems [unfolded p] show ?case
  proof (cases rule: run_cb_ConsE)
    case (go a1 e1 c1)
    with Cons.IH [OF go(3)] show ?thesis by auto
  qed simp
qed simp

lemma run_cb_mem: "run_cb cb L act c = Some (a, c', Some (m, x)) \<Longrightarrow> m \<in> fst ` set L"
proof (induction L arbitrary: act c)
  case (Cons p L)
  obtain k e where p: "p = (k, e)" by (cases p)
  from Cons.prems [unfolded p] show ?case
    by (cases rule: run_cb_ConsE) (use Cons.IH p in auto)
qed simp

lemma run_cb_stop:
  assumes "good_cb cb" "\<forall>p \<in> set L. wf_dirent (snd p)" "run_cb cb L act c = Some (a, c', Some (m, x))"
  shows "wf_dirent x \<and> m \<in> fst ` set L"
  using assms(2,3)
proof (induction L arbitrary: act c)
  case (Cons p L)
  obtain k e where p: "p = (k, e)" by (cases p)
  from Cons.prems(2) [unfolded p] show ?case
  proof (cases rule: run_cb_ConsE)
    case (stop e')
    then show ?thesis using good_cbD(1) [OF assms(1) _ stop(1)] Cons.prems(1) by (simp add: p)
  next
    case (go a1 e1 c1)
    with Cons.IH [OF _ go(3)] Cons.prems(1) show ?thesis by auto
  qed
qed simp

text \<open>The entries a walk shows its callback: those of mapped blocks, and one zero entry for a
  hole.\<close>

function calls :: "bool \<Rightarrow> (nat \<Rightarrow> u32) \<Rightarrow> (nat \<Rightarrow> dirent) \<Rightarrow> nat \<Rightarrow> nat \<Rightarrow> nat \<Rightarrow> (nat \<times> dirent) list" where
  "calls alloc bm E i off sz =
     (let lim = min 64 (sz + off);
          here = (if \<not> alloc \<and> bm i = 0 then [(64 * i, zero_dirent)]
                  else map (\<lambda>k. (64 * i + k, E (64 * i + k))) [off..<lim])
      in if sz \<le> lim - off \<or> 64 \<le> off then here
         else here @ calls alloc bm E (i + 1) 0 (sz - (lim - off)))"
  by pat_completeness auto
termination
  by (relation "measure (\<lambda>(alloc, bm, E, i, off, sz). sz)") auto

declare calls.simps [simp del]

lemma calls_here:
  "sz \<le> min 64 (sz + off) - off \<Longrightarrow> calls alloc bm E i off sz =
     (if \<not> alloc \<and> bm i = 0 then [(64 * i, zero_dirent)]
      else map (\<lambda>k. (64 * i + k, E (64 * i + k))) [off..<min 64 (sz + off)])"
  by (subst calls.simps) (simp add: Let_def)

lemma calls_more:
  "off < 64 \<Longrightarrow> \<not> sz \<le> min 64 (sz + off) - off \<Longrightarrow> calls alloc bm E i off sz =
     (if \<not> alloc \<and> bm i = 0 then [(64 * i, zero_dirent)]
      else map (\<lambda>k. (64 * i + k, E (64 * i + k))) [off..<64]) @ calls alloc bm E (i + 1) 0 (sz - (64 - off))"
proof -
  assume h: "off < 64" "\<not> sz \<le> min 64 (sz + off) - off"
  then have "min 64 (sz + off) = 64" by (simp add: min_def split: if_splits)
  with h show ?thesis by (subst calls.simps) (simp add: Let_def)
qed

lemma calls_ne: "0 < sz \<Longrightarrow> off < 64 \<Longrightarrow> calls alloc bm E i off sz \<noteq> []"
  by (subst calls.simps) (simp add: Let_def)

lemma map_shift: "map (\<lambda>k. (c + k, E (c + k))) [a..<b] = map (\<lambda>k. (k, E k)) [c + a..<c + (b :: nat)]"
  by (induction b) auto

lemma calls_alloc:
  "off < 64 \<Longrightarrow> calls True bm E i off sz = map (\<lambda>k. (k, E k)) [64 * i + off..<64 * i + off + sz]"
proof (induction sz arbitrary: i off rule: less_induct)
  case (less sz)
  show ?case
  proof (cases "sz \<le> min 64 (sz + off) - off")
    case True
    with less.prems have "min 64 (sz + off) = off + sz" by (simp add: min_def split: if_splits)
    with calls_here [OF True] show ?thesis by (simp add: map_shift add.assoc)
  next
    case False
    with less.prems have m: "64 - off < sz" by (simp add: min_def split: if_splits)
    have "calls True bm E (i + 1) 0 (sz - (64 - off))
        = map (\<lambda>k. (k, E k)) [64 * i + 64..<64 * i + off + sz]"
      using less.IH [of "sz - (64 - off)" 0 "i + 1"] less.prems m by (simp add: algebra_simps)
    moreover have "[64 * i + off..<64 * i + off + sz]
        = [64 * i + off..<64 * i + 64] @ [64 * i + 64..<64 * i + off + sz]"
      using less.prems m upt_add_eq_append [of "64 * i + off" "64 * i + 64" "sz - (64 - off)"]
      by (simp add: ac_simps)
    ultimately show ?thesis
      using calls_more [OF less.prems False, of True bm E i] by (simp add: map_shift [of "64 * i"])
  qed
qed

lemma calls_wf: "(\<And>k. wf_dirent (E k)) \<Longrightarrow> \<forall>p \<in> set (calls alloc bm E i off sz). wf_dirent (snd p)"
proof (induction alloc bm E i off sz rule: calls.induct)
  case (1 alloc bm E i off sz)
  note IH = 1(1) [OF refl refl _ 1(2)]
  show ?case
    by (subst calls.simps) (use IH 1(2) in \<open>simp add: Let_def ball_Un\<close>)
qed

section \<open>Updating an entry\<close>

lemma bmap_view_cong: "(a ! NDIRECT \<noteq> 0 \<Longrightarrow> v' (a ! NDIRECT) = v (a ! NDIRECT)) \<Longrightarrow> bmap v' a = bmap v a"
  by (auto simp: bmap_def)

lemma entry_store:
  assumes wf: "file_wf v bad a" and b: "bmap v a i = b" "b \<noteq> 0" and k: "k < 64" and e: "wf_dirent e"
  shows "entry (v(b := wr_dirent (v b) k e)) a = (entry v a)(64 * i + k := e)"
    "file_wf (v(b := wr_dirent (v b) k e)) bad a" "owned (v(b := wr_dirent (v b) k e)) a = owned v a"
proof -
  let ?v = "v(b := wr_dirent (v b) k e)"
  have bm: "bmap ?v a = bmap v a"
    using file_wfD(3) [OF wf, of i] b by (intro bmap_view_cong) auto
  then show "file_wf ?v bad a" "owned ?v a = owned v a"
    using wf by (simp_all add: file_wf_def owned_def)
  show "entry ?v a = (entry v a)(64 * i + k := e)"
  proof
    fix m
    show "entry ?v a m = ((entry v a)(64 * i + k := e)) m"
    proof (cases "bmap v a (m div 64) = b")
      case True
      then have d: "m div 64 = i" using file_wfD(2) [OF wf] b by simp
      have "m = 64 * i + m mod 64" using d by (metis mult_div_mod_eq)
      then have "m mod 64 = k \<longleftrightarrow> m = 64 * i + k" by auto
      then show ?thesis
        using True b e by (auto simp: entry_def bm Let_def rd_dirent_wr)
    next
      case False
      then have "m \<noteq> 64 * i + k" using b k by auto
      with False show ?thesis by (auto simp: entry_def bm Let_def)
    qed
  qed
qed

section \<open>The walk\<close>

lemma of_nat_dnum: "of_nat (64 * unat i + unat k) = i * nents + k"
  by (simp add: nents_val mult.commute)

context checker_dev
begin

text \<open>The loop over the entries of one block.\<close>

lemma scan_spec:
  assumes good: "good_cb cb" and lim: "unat lim \<le> 64"
  shows "inv s \<Longrightarrow> bh \<notin> meta s \<Longrightarrow>
    case run_cb cb (map (\<lambda>k. (64 * unat i + k, rd_dirent (view s bh) k)) [unat k..<unat lim]) act c of
      None \<Rightarrow> dir_scan ck cb bh i k lim act fl c s = None
    | Some (a, c', st) \<Rightarrow>
        (\<exists>s'. dir_scan ck cb bh i k lim act fl c s = Some (a, fl \<or> st \<noteq> None \<and> act_de_dirty a, c', s')
          \<and> inv s' \<and> pool s' = pool s \<and> meta s' = meta s \<and> held s' = held s
          \<and> view s' = (case st of None \<Rightarrow> view s
               | Some (m, x) \<Rightarrow> (view s)(bh := wr_dirent (view s bh) (m - 64 * unat i) x)))"
proof (induction "unat lim - unat k" arbitrary: k act fl c s rule: less_induct)
  case less
  let ?b = "view s bh"
  show ?case
  proof (cases "k < lim")
    case False
    then have e: "[unat k..<unat lim] = []" by (simp add: word_less_unat)
    show ?thesis
      unfolding e using False less.prems by (simp add: dir_scan.simps [of ck cb bh i k lim act fl c s])
  next
    case True
    then have up: "[unat k..<unat lim] = unat k # [unat (k + 1)..<unat lim]"
      using unat_Suc_less [OF True] by (simp add: word_less_unat upt_conv_Cons)
    let ?L = "map (\<lambda>k. (64 * unat i + k, rd_dirent ?b k)) [unat (k + 1)..<unat lim]"
    show ?thesis
    proof (cases "cb (i * nents + k) (rd_dirent ?b (unat k)) c")
      case None
      then show ?thesis
        using True by (simp add: up dir_scan.simps [of ck cb bh i k lim act fl c s] bdata_ok of_nat_dnum
            del: of_nat_add of_nat_mult upt_Suc)
    next
      case (Some r)
      obtain a1 e1 c1 where r: "r = (a1, e1, c1)" by (cases r)
      define s1 where "s1 = ck_bstore ck bh (wr_dirent ?b (unat k) e1) s"
      note S = bstore_ok [OF less.prems s1_def]
      have step: "dir_scan ck cb bh i k lim act fl c s =
          (if \<not> act_cont a1 then Some (a1, fl \<or> act_de_dirty a1, c1, s1)
           else dir_scan ck cb bh i (k + 1) lim a1 (fl \<or> act_de_dirty a1) c1 s1)"
        using True Some by (simp add: dir_scan.simps [of ck cb bh i k lim act fl c s] bdata_ok r s1_def)
      have run: "run_cb cb (map (\<lambda>k. (64 * unat i + k, rd_dirent ?b k)) [unat k..<unat lim]) act c =
          (if act_cont a1 then run_cb cb ?L a1 c1 else Some (a1, c1, Some (64 * unat i + unat k, e1)))"
        using Some by (simp add: up r of_nat_dnum del: of_nat_add of_nat_mult upt_Suc)
      show ?thesis
      proof (cases "act_cont a1")
        case False
        then show ?thesis unfolding run step using S by simp
      next
        case go: True
        have g: "e1 = rd_dirent ?b (unat k)" "\<not> act_de_dirty a1"
          using good_cbD [OF good _ Some [unfolded r]] go by auto
        have v1: "view s1 = view s" using S by (simp add: g(1))
        have "unat lim - unat (k + 1) < unat lim - unat k" by (rule measure_Suc [OF True])
        note IH = less.hyps [OF this, where s = s1 and act = a1 and c = c1 and fl = fl]
        have "inv s1" "bh \<notin> meta s1" using S less.prems by auto
        note I = IH [OF this]
        have S': "pool s1 = pool s" "meta s1 = meta s" "held s1 = held s" using S by auto
        have step': "dir_scan ck cb bh i k lim act fl c s = dir_scan ck cb bh i (k + 1) lim a1 fl c1 s1"
          using step go g(2) by simp
        have run': "run_cb cb (map (\<lambda>k. (64 * unat i + k, rd_dirent ?b k)) [unat k..<unat lim]) act c
            = run_cb cb ?L a1 c1"
          using run go by simp
        show ?thesis
          unfolding run' step' by (rule I [unfolded v1 S'])
      qed
    qed
  qed
qed

text \<open>
  The outcome of a walk over the entries \<open>L\<close>: a prefix \<open>L1\<close> was shown to the callback,
  all of \<open>L\<close> when no error occurred and the callback never stopped; only the entry it
  stopped at changed (in a hole nothing did).
\<close>

definition walk_post :: "bool \<Rightarrow> ('c xv6_diter_callback) \<Rightarrow> (nat \<times> dirent) list \<Rightarrow> xv6_diter_action \<Rightarrow> 'c \<Rightarrow>
    's \<Rightarrow> u32 list \<Rightarrow> int \<Rightarrow> xv6_diter_action \<Rightarrow> 'c \<Rightarrow> 's \<Rightarrow> u32 list \<Rightarrow> bool" where
  "walk_post alloc cb L act c s a e act' c' s' a' \<longleftrightarrow> evolves s a s' a'
     \<and> (\<not> alloc \<longrightarrow> a' = a \<and> pool s' = pool s)
     \<and> (e = 0 \<longrightarrow> pool s \<subseteq> pool s' \<union> owned (view s') a')
     \<and> (\<exists>L1 L2 st. L = L1 @ L2 \<and> run_cb cb L1 act c = Some (act', c', st)
         \<and> (e = 0 \<longrightarrow> st \<noteq> None \<or> L2 = [])
         \<and> (case st of None \<Rightarrow> entry (view s') a' = entry (view s) a \<and> (\<not> alloc \<longrightarrow> view s' = view s)
            | Some (m, x) \<Rightarrow>
                entry (view s') a' = (if bmap (view s') a' (m div 64) = 0 then entry (view s) a
                  else (entry (view s) a)(m := x))
                \<and> (\<not> alloc \<longrightarrow> x = entry (view s) a m \<longrightarrow> view s' = view s)
                \<and> (alloc \<or> bmap (view s) a (m div 64) \<noteq> 0 \<longrightarrow> bmap (view s') a' (m div 64) \<noteq> 0)))"

lemma walk_postI:
  assumes "evolves s a s' a'" "\<not> alloc \<Longrightarrow> a' = a \<and> pool s' = pool s"
    "L = L1 @ L2" "run_cb cb L1 act c = Some (act', c', st)" "e = 0 \<Longrightarrow> st \<noteq> None \<or> L2 = []"
    "st = None \<Longrightarrow> entry (view s') a' = entry (view s) a \<and> (\<not> alloc \<longrightarrow> view s' = view s)"
    "\<And>m x. st = Some (m, x) \<Longrightarrow> entry (view s') a' = (if bmap (view s') a' (m div 64) = 0 then entry (view s) a
        else (entry (view s) a)(m := x)) \<and> (\<not> alloc \<longrightarrow> x = entry (view s) a m \<longrightarrow> view s' = view s)
        \<and> (alloc \<or> bmap (view s) a (m div 64) \<noteq> 0 \<longrightarrow> bmap (view s') a' (m div 64) \<noteq> 0)"
    "alloc \<Longrightarrow> e = 0 \<Longrightarrow> pool s \<subseteq> pool s' \<union> owned (view s') a'"
  shows "walk_post alloc cb L act c s a e act' c' s' a'"
  unfolding walk_post_def using assms
  by (intro conjI exI [of _ L1] exI [of _ L2] exI [of _ st]) (auto split: option.splits)

definition block_calls :: "(u32 \<Rightarrow> block) \<Rightarrow> u32 list \<Rightarrow> nat \<Rightarrow> nat \<Rightarrow> nat \<Rightarrow> (nat \<times> dirent) list" where
  "block_calls v a i off lim = (if bmap v a i = 0 then [(64 * i, zero_dirent)]
     else map (\<lambda>k. (64 * i + k, entry v a (64 * i + k))) [off..<lim])"

lemma block_calls_div: "lim \<le> 64 \<Longrightarrow> m \<in> fst ` set (block_calls v a i off lim) \<Longrightarrow> m div 64 = i"
  by (auto simp: block_calls_def split: if_splits)

lemma block_spec:
  assumes good: "good_cb cb" and inv: "inv s" and wf: "file_wf (view s) (pool s \<union> meta s) a"
    and b: "b = bmap (view s) a (unat i)" and lim: "unat lim \<le> 64"
  shows "dir_block ck cb b i off lim act c s = None
      \<and> run_cb cb (block_calls (view s) a (unat i) (unat off) (unat lim)) act c = None
    \<or> (\<exists>e act' c' s'. dir_block ck cb b i off lim act c s = Some (e, act', c', s')
      \<and> walk_post False cb (block_calls (view s) a (unat i) (unat off) (unat lim)) act c s a e act' c' s' a)"
    (is "?none \<or> ?some")
proof (cases "b = 0")
  case True
  have L: "block_calls (view s) a (unat i) (unat off) (unat lim) = [(64 * unat i, zero_dirent)]"
    using True b by (simp add: block_calls_def)
  have d: "of_nat (64 * unat i) = i * nents" using of_nat_dnum [of i 0] by simp
  have ev: "evolves s a s a" using evolves_same [OF inv _ _ _ _ wf] by simp
  show ?thesis
  proof (cases "cb (i * nents) zero_dirent c")
    case None
    then show ?thesis unfolding L using True d by (simp add: dir_block_def)
  next
    case (Some r)
    obtain a1 e1 c1 where r: "r = (a1, e1, c1)" by (cases r)
    have run: "run_cb cb [(64 * unat i, zero_dirent)] act c
        = Some (a1, c1, if act_cont a1 then None else Some (64 * unat i, e1))"
      using Some by (simp only: run_cb.simps d r) simp
    have "walk_post False cb [(64 * unat i, zero_dirent)] act c s a 0 a1 c1 s a"
      by (rule walk_postI [OF ev _ _ run, where ?L2.0 = "[]"]) (use True b in \<open>auto split: if_splits\<close>)
    then show ?thesis
      unfolding L using True Some by (intro disjI2) (simp add: dir_block_def r)
  qed
next
  case False
  have bo: "b \<in> owned (view s) a" using ownedI(1) False b by metis
  then have bm: "b \<notin> meta s" using file_wfD(4) [OF wf] by auto
  obtain r s1 where br: "ck_bread ck b s = (r, s1)" by force
  show ?thesis
  proof (cases rule: bread_brelse_held [OF inv br])
    case 1
    have "walk_post False cb (block_calls (view s) a (unat i) (unat off) (unat lim)) act c s a (- EIO) act c s1 a"
      by (rule walk_postI [OF evolves_same [OF 1(5,2,3,4,6) wf], where ?L1.0 = "[]" and st = None]) (use 1 in auto)
    then show ?thesis using False br 1 by (simp add: dir_block_def)
  next
    case 2
    let ?L = "map (\<lambda>k. (64 * unat i + k, rd_dirent (view s b) k)) [unat off..<unat lim]"
    have L: "block_calls (view s) a (unat i) (unat off) (unat lim) = ?L"
      using False b lim by (auto simp: block_calls_def entry_def Let_def)
    have S: "case run_cb cb ?L act c of None \<Rightarrow> dir_scan ck cb b i off lim act False c s1 = None
      | Some (a', c', st) \<Rightarrow>
        (\<exists>s'. dir_scan ck cb b i off lim act False c s1 = Some (a', False \<or> st \<noteq> None \<and> act_de_dirty a', c', s')
          \<and> inv s' \<and> pool s' = pool s \<and> meta s' = meta s \<and> held s' = held s1
          \<and> view s' = (case st of None \<Rightarrow> view s
               | Some (m, x) \<Rightarrow> (view s)(b := wr_dirent (view s b) (m - 64 * unat i) x)))"
      by (rule scan_spec [OF good lim 2(5), where bh = b, unfolded 2(2-4)]) (rule bm)
    show ?thesis
    proof (cases "run_cb cb ?L act c")
      case None
      then show ?thesis unfolding L using S False br 2 by (simp add: dir_block_def)
    next
      case (Some q)
      obtain a' c' st where q: "q = (a', c', st)" by (cases q)
      from S Some obtain s2 where s2: "dir_scan ck cb b i off lim act False c s1 = Some (a', st \<noteq> None \<and> act_de_dirty a', c', s2)"
          "inv s2" "pool s2 = pool s" "meta s2 = meta s" "held s2 = held s1"
          "view s2 = (case st of None \<Rightarrow> view s
             | Some (m, x) \<Rightarrow> (view s)(b := wr_dirent (view s b) (m - 64 * unat i) x))"
        by (auto simp: q)
      obtain e s3 where fl: "(if st \<noteq> None \<and> act_de_dirty a' then ck_bflush ck b s2 else (0, s2)) = (e, s3)"
        by force
      have F: "view s3 = view s2 \<and> pool s3 = pool s \<and> meta s3 = meta s \<and> held s3 = held s1 \<and> inv s3"
        using fl bflush_ok [OF s2(2)] s2 by (auto split: if_splits)
      define s4 where "s4 = ck_brelse ck b s3"
      have B: "view s4 = view s2" "pool s4 = pool s" "meta s4 = meta s" "held s4 = held s" "inv s4"
        using brelse_ok [OF _ s4_def] F 2 by auto
      have run: "dir_block ck cb b i off lim act c s = Some (e, a', c', s4)"
        using False br 2 s2(1) fl by (simp add: dir_block_def s4_def split: if_splits)
      have "walk_post False cb ?L act c s a e a' c' s4 a"
      proof (cases st)
        case None
        have "evolves s a s4 a" using B s2(6) wf None by (intro evolves_same) auto
        then show ?thesis
          by (rule walk_postI [where ?L1.0 = ?L and ?L2.0 = "[]" and st = None]) (use B s2(6) None Some q in auto)
      next
        case (Some mx)
        obtain m x where mx: "mx = (m, x)" by (cases mx)
        have wfx: "wf_dirent x" and m: "m \<in> fst ` set ?L"
          using run_cb_stop [OF good, of ?L act c a' c' m x] \<open>run_cb cb ?L act c = Some q\<close> q Some mx by auto
        from m obtain k where k: "m = 64 * unat i + k" "k < 64" using lim by auto
        have v: "view s4 = (view s)(b := wr_dirent (view s b) k x)"
          using B(1) s2(6) Some mx k by simp
        note E = entry_store [OF wf b [symmetric] False k(2) wfx, folded v]
        have "x = entry (view s) a m \<longrightarrow> view s4 = view s"
          using False b k v by (auto simp: entry_def Let_def)
        moreover have "bmap (view s4) a (m div 64) \<noteq> 0"
        proof -
          have "bmap (view s4) a = bmap (view s) a"
            unfolding v using file_wfD(3) [OF wf, of "unat i"] False b by (intro bmap_view_cong) auto
          then show ?thesis using False b k by simp
        qed
        moreover have "\<forall>x. x \<notin> owned (view s) a \<longrightarrow> view s4 x = view s x"
          unfolding v using bo by auto
        then have "evolves s a s4 a"
          unfolding evolves_def using B(2-5) E(2,3) by simp
        ultimately show ?thesis
          using E(1) k \<open>run_cb cb ?L act c = Some q\<close> q Some mx B(2)
          by (intro walk_postI [where ?L1.0 = ?L and ?L2.0 = "[]" and st = "Some (m, x)"]) auto
      qed
      then show ?thesis unfolding L using run by blast
    qed
  qed
qed

lemma indirect_None:
  assumes "inv t" "inode_addr_indirect ck c k alloc t = None"
  shows "alloc \<and> (\<exists>t. inv t \<and> ck_balloc ck 0 t = None)"
proof -
  obtain r t1 where br: "ck_bread ck (ic_addrs c ! NDIRECT) t = (r, t1)" by force
  show ?thesis
  proof (cases rule: bread_brelse_held [OF assms(1) br])
    case 1
    then show ?thesis using assms(2) br by (simp add: inode_addr_indirect_def)
  next
    case 2
    show ?thesis
    proof (cases "ck_balloc ck 0 t1")
      case None
      then show ?thesis using 2 assms(2) br
        by (cases alloc) (auto simp: inode_addr_indirect_def Let_def split: if_splits)
    next
      case (Some q)
      then show ?thesis using 2 assms(2) br
        by (cases q) (simp add: inode_addr_indirect_def Let_def bdata_ok split: if_splits prod.splits)
    qed
  qed
qed

lemma addr_None:
  assumes "inv s" "xv6_inode_addr ck c i alloc s = None"
  shows "alloc \<and> (\<exists>t. inv t \<and> ck_balloc ck 0 t = None)"
proof (cases "ck_balloc ck 0 s")
  case None
  with assms indirect_None show ?thesis
    by (cases alloc) (auto simp: xv6_inode_addr_def Let_def split: if_splits)
next
  case (Some q)
  obtain e b s1 where q: "q = (e, b, s1)" by (cases q)
  have "inv s1" using balloc_ok assms(1) Some q by blast
  then show ?thesis
    using assms indirect_None Some q
    by (auto simp: xv6_inode_addr_def Let_def split: if_splits)
qed

lemma walk_postE:
  assumes "walk_post alloc cb L act c s a e act' c' s' a'"
  obtains L1 L2 st where "evolves s a s' a'" "\<not> alloc \<longrightarrow> a' = a \<and> pool s' = pool s"
    "L = L1 @ L2" "run_cb cb L1 act c = Some (act', c', st)" "e = 0 \<longrightarrow> st \<noteq> None \<or> L2 = []"
    "st = None \<longrightarrow> entry (view s') a' = entry (view s) a \<and> (\<not> alloc \<longrightarrow> view s' = view s)"
    "\<forall>m x. st = Some (m, x) \<longrightarrow> entry (view s') a' = (if bmap (view s') a' (m div 64) = 0 then entry (view s) a
        else (entry (view s) a)(m := x)) \<and> (\<not> alloc \<longrightarrow> x = entry (view s) a m \<longrightarrow> view s' = view s)
        \<and> (alloc \<or> bmap (view s) a (m div 64) \<noteq> 0 \<longrightarrow> bmap (view s') a' (m div 64) \<noteq> 0)"
    "e = 0 \<longrightarrow> pool s \<subseteq> pool s' \<union> owned (view s') a'"
proof -
  from assms have ex: "e = 0 \<longrightarrow> pool s \<subseteq> pool s' \<union> owned (view s') a'" by (simp add: walk_post_def)
  from assms obtain L1 L2 st where *: "evolves s a s' a'" "\<not> alloc \<longrightarrow> a' = a \<and> pool s' = pool s"
    "L = L1 @ L2" "run_cb cb L1 act c = Some (act', c', st)" "e = 0 \<longrightarrow> st \<noteq> None \<or> L2 = []"
    "case st of None \<Rightarrow> entry (view s') a' = entry (view s) a \<and> (\<not> alloc \<longrightarrow> view s' = view s)
      | Some (m, x) \<Rightarrow>
          entry (view s') a' = (if bmap (view s') a' (m div 64) = 0 then entry (view s) a
            else (entry (view s) a)(m := x))
          \<and> (\<not> alloc \<longrightarrow> x = entry (view s) a m \<longrightarrow> view s' = view s)
          \<and> (alloc \<or> bmap (view s) a (m div 64) \<noteq> 0 \<longrightarrow> bmap (view s') a' (m div 64) \<noteq> 0)"
    unfolding walk_post_def by (elim conjE exE)
  show thesis
    by (rule that [OF *(1) *(2) *(3,4) _ _ _ ex]) (use * in \<open>auto split: option.splits\<close>)
qed

lemma walk_post_lift:
  assumes ev: "evolves s a s1 a1" and E: "entry (view s1) a1 = entry (view s) a"
    and ro: "\<not> alloc \<Longrightarrow> a1 = a \<and> pool s1 = pool s \<and> view s1 = view s"
    and px: "pool s \<subseteq> pool s1 \<union> owned (view s1) a1"
    and wp: "walk_post False cb BL act c s1 a1 e act' c' s2 a1"
    and mp: "alloc \<Longrightarrow> \<forall>m \<in> fst ` set BL. bmap (view s1) a1 (m div 64) \<noteq> 0"
    and stop: "e = 0 \<Longrightarrow> act_cont act' \<or> BL = [] \<Longrightarrow> R = []"
  shows "walk_post alloc cb (BL @ R) act c s a e act' c' s2 a1"
proof -
  from wp obtain L1 L2 st where w: "evolves s1 a1 s2 a1" "\<not> False \<longrightarrow> a1 = a1 \<and> pool s2 = pool s1" "BL = L1 @ L2"
      "run_cb cb L1 act c = Some (act', c', st)" "e = 0 \<longrightarrow> st \<noteq> None \<or> L2 = []"
    and v: "st = None \<longrightarrow> entry (view s2) a1 = entry (view s1) a1 \<and> (\<not> False \<longrightarrow> view s2 = view s1)"
      "\<forall>m x. st = Some (m, x) \<longrightarrow> entry (view s2) a1 = (if bmap (view s2) a1 (m div 64) = 0 then entry (view s1) a1
            else (entry (view s1) a1)(m := x)) \<and> (\<not> False \<longrightarrow> x = entry (view s1) a1 m \<longrightarrow> view s2 = view s1)
          \<and> (False \<or> bmap (view s1) a1 (m div 64) \<noteq> 0 \<longrightarrow> bmap (view s2) a1 (m div 64) \<noteq> 0)"
    by (rule walk_postE)
  have "pool s \<subseteq> pool s2 \<union> owned (view s2) a1" using px w(1,2) by (auto simp: evolves_def)
  moreover
  have "st \<noteq> None \<or> L2 @ R = []" if "e = 0"
    using w(5) that run_cb_cont [OF w(4)] stop [OF that] w(3) by (cases st) auto
  moreover have "bmap (view s1) a1 (m div 64) \<noteq> 0"
    if "st = Some (m, x)" "alloc \<or> bmap (view s) a (m div 64) \<noteq> 0" for m x
    using mp run_cb_mem [OF w(4) [unfolded that(1)]] w(3) ro that(2) by (cases alloc) auto
  ultimately show ?thesis
    using w v ro E
    by (intro walk_postI [OF evolves_trans [OF ev w(1)], where ?L1.0 = L1 and ?L2.0 = "L2 @ R" and st = st])
      auto
qed

lemma walk_post_seq:
  assumes ev: "evolves s a s1 a1" and E: "entry (view s1) a1 = entry (view s) a"
    and ro: "\<not> alloc \<Longrightarrow> a1 = a \<and> pool s1 = pool s \<and> view s1 = view s"
    and px: "pool s \<subseteq> pool s1 \<union> owned (view s1) a1"
    and run: "run_cb cb BL act c = Some (act1, c1, None)"
    and wp: "walk_post alloc cb R act1 c1 s1 a1 e act' c' s2 a2"
  shows "walk_post alloc cb (BL @ R) act c s a e act' c' s2 a2"
proof -
  from wp obtain L1 L2 st where w: "evolves s1 a1 s2 a2" "\<not> alloc \<longrightarrow> a2 = a1 \<and> pool s2 = pool s1" "R = L1 @ L2"
      "run_cb cb L1 act1 c1 = Some (act', c', st)" "e = 0 \<longrightarrow> st \<noteq> None \<or> L2 = []"
    and v: "st = None \<longrightarrow> entry (view s2) a2 = entry (view s1) a1 \<and> (\<not> alloc \<longrightarrow> view s2 = view s1)"
      "\<forall>m x. st = Some (m, x) \<longrightarrow> entry (view s2) a2 = (if bmap (view s2) a2 (m div 64) = 0 then entry (view s1) a1
            else (entry (view s1) a1)(m := x)) \<and> (\<not> alloc \<longrightarrow> x = entry (view s1) a1 m \<longrightarrow> view s2 = view s1)
          \<and> (alloc \<or> bmap (view s1) a1 (m div 64) \<noteq> 0 \<longrightarrow> bmap (view s2) a2 (m div 64) \<noteq> 0)"
      "e = 0 \<longrightarrow> pool s1 \<subseteq> pool s2 \<union> owned (view s2) a2"
    by (rule walk_postE)
  have ex: "e = 0 \<longrightarrow> pool s \<subseteq> pool s2 \<union> owned (view s2) a2" using px v(3) w(1) unfolding evolves_def by blast
  have r: "run_cb cb (BL @ L1) act c = Some (act', c', st)"
    using run w(4) by (simp add: run_cb_append split: option.split)
  show ?thesis
    by (rule walk_postI [OF evolves_trans [OF ev w(1)] _ _ r, where ?L2.0 = L2])
      (use w v ro E ex in auto)
qed

text \<open>The length arithmetic of the loop.\<close>

lemma loop_lim:
  assumes "unat off < 64" "unat sz + 64 < 2 ^ 32"
  shows "unat (if nents > sz + off then sz + off else nents) = min 64 (unat sz + unat off)"
proof -
  have "unat (sz + off) = unat sz + unat off" using assms by (intro unat_add_no_wrap) linarith
  then show ?thesis by (auto simp: nents_val word_less_unat)
qed

lemma loop_rest:
  assumes "unat off < 64" "unat lim = min 64 (unat sz + unat off)"
  shows "unat (sz - (lim - off)) = unat sz - (min 64 (unat sz + unat off) - unat off)"
proof -
  have "unat (lim - off) = unat lim - unat off" using assms by (intro unat_sub) (simp add: word_le_unat)
  moreover have "unat (sz - (lim - off)) = unat sz - unat (lim - off)"
    using assms calculation by (intro unat_sub) (simp add: word_le_unat)
  ultimately show ?thesis using assms by simp
qed

definition loop_ok :: "bool \<Rightarrow> 'c xv6_diter_callback \<Rightarrow> (nat \<times> dirent) list \<Rightarrow> xv6_diter_action \<Rightarrow>
    xv6_inode_ctx \<Rightarrow> 'c \<Rightarrow> 's \<Rightarrow> (int \<times> xv6_diter_action \<times> xv6_inode_ctx \<times> 'c \<times> 's) option \<Rightarrow> bool" where
  "loop_ok alloc cb L act d c s r \<longleftrightarrow> (case r of
     None \<Rightarrow> (\<exists>L1 L2. L = L1 @ L2 \<and> run_cb cb L1 act c = None) \<or> alloc \<and> (\<exists>t. inv t \<and> ck_balloc ck 0 t = None)
   | Some (e, act', d', c', s') \<Rightarrow>
       walk_post alloc cb L act c s (ic_addrs d) e act' c' s' (ic_addrs d')
       \<and> ic_size d' = ic_size d \<and> (\<not> alloc \<longrightarrow> ic_dirty d' \<longrightarrow> ic_dirty d)
       \<and> ((\<forall>k c a e' c'. cb k zero_dirent c = Some (a, e', c') \<longrightarrow> \<not> act_cont a) \<longrightarrow>
           (ic_addrs d' \<noteq> ic_addrs d \<longrightarrow> ic_dirty d')
           \<and> (L \<noteq> [] \<longrightarrow> act_cont act' \<longrightarrow> e = 0 \<longrightarrow> ic_addrs d' = ic_addrs d)))"

lemma block_first_zero:
  assumes "\<forall>k c a e' c'. cb k zero_dirent c = Some (a, e', c') \<longrightarrow> \<not> act_cont a"
    and "\<And>k. k div 64 = unat i \<Longrightarrow> entry v a k = zero_dirent"
    and "off < lim" "lim \<le> 64" "run_cb cb (block_calls v a (unat i) off lim) act c = Some (act', c', None)"
  shows False
proof -
  obtain k L where L: "block_calls v a (unat i) off lim = (k, zero_dirent) # L"
  proof (cases "bmap v a (unat i) = 0")
    case True
    then show ?thesis using that by (simp add: block_calls_def)
  next
    case False
    then show ?thesis
      using that assms(2) [of "64 * unat i + off"] assms(3,4) by (simp add: block_calls_def upt_conv_Cons)
  qed
  from assms(5) [unfolded L] show False
    by (cases rule: run_cb_ConsE) (use assms(1) in blast)+
qed

lemma loop_spec:
  assumes good: "good_cb cb"
  shows "inv s \<Longrightarrow> file_wf (view s) (pool s \<union> meta s) (ic_addrs d) \<Longrightarrow> unat off < 64 \<Longrightarrow>
    unat sz + 64 < 2 ^ 32 \<Longrightarrow>
    loop_ok alloc cb (calls alloc (bmap (view s) (ic_addrs d)) (entry (view s) (ic_addrs d)) (unat i)
        (unat off) (unat sz)) act d c s (dir_loop ck cb alloc i off sz act d c s)"
proof (induction "unat sz" arbitrary: i off sz act d c s rule: less_induct)
  case less
  let ?a = "ic_addrs d" and ?lim = "if nents > sz + off then sz + off else nents"
  let ?C = "calls alloc (bmap (view s) ?a) (entry (view s) ?a) (unat i) (unat off) (unat sz)"
  have len: "length ?a = 13" using file_wfD(1) [OF less.prems(2)] .
  have lim: "unat ?lim = min 64 (unat sz + unat off)" by (rule loop_lim [OF less.prems(3,4)])
  show ?case
  proof (cases "xv6_inode_addr ck d i alloc s")
    case None
    then have n: "dir_loop ck cb alloc i off sz act d c s = None"
      by (simp add: dir_loop.simps [of ck cb alloc i off sz])
    show ?thesis
      unfolding n loop_ok_def option.case by (intro disjI2) (rule addr_None [OF less.prems(1) None])
  next
    case (Some q)
    obtain e b d1 s1 where q: "q = (e, b, d1, s1)" by (cases q)
    have run: "xv6_inode_addr ck d i alloc s = Some (e, b, d1, s1)" using Some q by simp
    have A: "evolves s ?a s1 (ic_addrs d1) \<and> entry (view s1) (ic_addrs d1) = entry (view s) ?a
        \<and> (\<not> alloc \<longrightarrow> ic_addrs d1 = ?a \<and> pool s1 = pool s \<and> view s1 = view s)
        \<and> ic_size d1 = ic_size d \<and> (\<not> alloc \<longrightarrow> ic_dirty d1 \<longrightarrow> ic_dirty d)
        \<and> (ic_addrs d1 \<noteq> ?a \<longrightarrow> ic_dirty d1 \<and> bmap (view s) ?a (unat i) = 0)
        \<and> (e = 0 \<longrightarrow> b = bmap (view s1) (ic_addrs d1) (unat i) \<and> (alloc \<longrightarrow> b \<noteq> 0))
        \<and> (e = 0 \<longrightarrow> pool s \<subseteq> pool s1 \<union> owned (view s1) (ic_addrs d1))"
    proof (cases alloc)
      case True
      then have runT: "xv6_inode_addr ck d i True s = Some (e, b, d1, s1)" using run by simp
      note R = addr_alloc [OF less.prems(1,2) runT]
      have "bmap (view s) ?a (unat i) \<noteq> 0 \<longrightarrow> ic_addrs d1 = ?a" using R(8) by blast
      then show ?thesis using R(1-7) R(9) extends_entry [OF R(2)] True by blast
    next
      case False
      show ?thesis
      proof (rule addr_read [OF less.prems(1) len, of i])
        fix e1 b1 t
        assume h: "xv6_inode_addr ck d i False s
            = Some (e1, b1, if MAXFILE \<le> unat i then d else d\<lparr>ic_dirty := False\<rparr>, t)"
          "view t = view s" "pool t = pool s" "meta t = meta s" "held t = held s" "inv t"
          "e1 = 0 \<and> unat i < MAXFILE \<and> b1 = bmap (view s) ?a (unat i)
            \<or> e1 = - EFBIG \<and> MAXFILE \<le> unat i \<or> e1 = - EIO \<and> NDIRECT \<le> unat i"
        then have t: "e1 = e" "b1 = b" "t = s1" "d1 = (if MAXFILE \<le> unat i then d else d\<lparr>ic_dirty := False\<rparr>)"
          using run False by auto
        have "evolves s ?a s1 ?a" using evolves_same [OF h(6,2-5) less.prems(2)] t by simp
        then show ?thesis using h t False by (auto split: if_splits)
      qed
    qed
    then have ev: "evolves s ?a s1 (ic_addrs d1)" and E: "entry (view s1) (ic_addrs d1) = entry (view s) ?a"
      and ro: "\<not> alloc \<Longrightarrow> ic_addrs d1 = ?a \<and> pool s1 = pool s \<and> view s1 = view s"
      and keep: "ic_size d1 = ic_size d" "\<not> alloc \<Longrightarrow> ic_dirty d1 \<Longrightarrow> ic_dirty d"
        "ic_addrs d1 \<noteq> ?a \<Longrightarrow> ic_dirty d1 \<and> bmap (view s) ?a (unat i) = 0"
      and ok: "e = 0 \<Longrightarrow> b = bmap (view s1) (ic_addrs d1) (unat i) \<and> (alloc \<longrightarrow> b \<noteq> 0)"
      and px: "e = 0 \<Longrightarrow> pool s \<subseteq> pool s1 \<union> owned (view s1) (ic_addrs d1)"
      by blast+
    have inv1: "inv s1" "file_wf (view s1) (pool s1 \<union> meta s1) (ic_addrs d1)"
      using ev by (auto simp: evolves_def)
    show ?thesis
    proof (cases "e = 0")
      case False
      have wp: "walk_post alloc cb ?C act c s ?a e act c s1 (ic_addrs d1)"
        by (rule walk_postI [OF ev, where ?L1.0 = "[]" and st = None]) (use ro E False in auto)
      have "dir_loop ck cb alloc i off sz act d c s = Some (e, act, d1, c, s1)"
        using run False by (simp add: dir_loop.simps [of ck cb alloc i off sz])
      then show ?thesis using wp keep False by (auto simp: loop_ok_def)
    next
      case e0: True
      let ?BL = "block_calls (view s1) (ic_addrs d1) (unat i) (unat off) (unat ?lim)"
      let ?sz = "sz - (?lim - off)"
      define R where "R = (if unat sz \<le> min 64 (unat sz + unat off) - unat off then []
        else calls alloc (bmap (view s) ?a) (entry (view s) ?a) (unat i + 1) 0 (unat ?sz))"
      have usz: "unat ?sz = unat sz - (min 64 (unat sz + unat off) - unat off)"
        by (rule loop_rest [OF less.prems(3) lim])
      have hole: "(\<not> alloc \<and> bmap (view s) ?a (unat i) = 0) = (bmap (view s1) (ic_addrs d1) (unat i) = 0)"
        using ok [OF e0] ro by auto
      have C: "?C = ?BL @ R"
      proof (cases "unat sz \<le> min 64 (unat sz + unat off) - unat off")
        case True
        then show ?thesis
          unfolding R_def using calls_here [OF True] lim hole E by (simp add: block_calls_def)
      next
        case False
        then have m: "min 64 (unat sz + unat off) = 64" by (simp add: min_def split: if_splits)
        with False show ?thesis
          unfolding R_def using calls_more [OF less.prems(3) False] lim hole E usz
          by (simp add: block_calls_def)
      qed
      have done_if: "?sz = 0 \<Longrightarrow> R = []"
        using usz by (simp add: R_def unat_eq_zero)
      have "unat ?lim \<le> 64" using lim by simp
      note B = block_spec [OF good inv1 conjunct1 [OF ok [OF e0]] this, of off act c]
      have unf: "dir_loop ck cb alloc i off sz act d c s = do {
          (error, act, ctx, s) \<leftarrow> dir_block ck cb b i off ?lim act c s1;
          if \<not> act_cont act \<or> error \<noteq> 0 then Some (error, act, d1, ctx, s)
          else if ?sz = 0 then Some (error, act, d1, ctx, s)
          else dir_loop ck cb alloc (i + 1) 0 ?sz act d1 ctx s }"
        by (subst dir_loop.simps) (simp only: run e0 Option.bind.bind_lunit prod.case simp_thms if_False Let_def)
      from B show ?thesis
      proof (elim disjE conjE exE)
        assume "dir_block ck cb b i off ?lim act c s1 = None" "run_cb cb ?BL act c = None"
        then show ?thesis unfolding unf C by (auto simp: loop_ok_def)
      next
        fix e2 act2 c2 s2
        assume db: "dir_block ck cb b i off ?lim act c s1 = Some (e2, act2, c2, s2)"
          and wp: "walk_post False cb ?BL act c s1 (ic_addrs d1) e2 act2 c2 s2 (ic_addrs d1)"
        have full: "run_cb cb ?BL act c = Some (act2, c2, None) \<and> view s2 = view s1 \<and> pool s2 = pool s1"
          if go: "act_cont act2" "e2 = 0"
        proof -
          from wp obtain L1 L2 st where w: "?BL = L1 @ L2" "run_cb cb L1 act c = Some (act2, c2, st)"
              "st \<noteq> None \<or> L2 = []" "pool s2 = pool s1" "st = None \<Longrightarrow> view s2 = view s1"
            by (rule walk_postE) (use go(2) in auto)
          then have "st = None" using run_cb_cont [OF w(2)] go(1) by blast
          then show ?thesis using w by auto
        qed
        have noeff: "ic_addrs d1 = ?a"
          if go: "act_cont act2" "e2 = 0" "?BL \<noteq> []"
            and stop0: "\<forall>k c a e' c'. cb k zero_dirent c = Some (a, e', c') \<longrightarrow> \<not> act_cont a"
        proof (rule ccontr)
          assume ne: "ic_addrs d1 \<noteq> ?a"
          then have "entry (view s1) (ic_addrs d1) k = zero_dirent" if "k div 64 = unat i" for k
            unfolding E using keep(3) that by (simp add: entry_def)
          moreover have "bmap (view s1) (ic_addrs d1) (unat i) \<noteq> 0" using ok [OF e0] ro ne by metis
          then have "unat off < unat ?lim" using go(3) by (simp add: block_calls_def)
          ultimately show False
            using block_first_zero [OF stop0 _ _ _ conjunct1 [OF full [OF go(1,2)]]] \<open>unat ?lim \<le> 64\<close> by blast
        qed
        show ?thesis
        proof (cases "\<not> act_cont act2 \<or> e2 \<noteq> 0 \<or> ?sz = 0")
          case True
          have Re: "R = []" if "e2 = 0" "act_cont act2 \<or> ?BL = []"
          proof (cases "?BL = []")
            case True
            then have "unat sz = 0" using lim less.prems(3) by (auto simp: block_calls_def split: if_splits)
            then show ?thesis by (simp add: R_def)
          next
            case False
            then show ?thesis using that True done_if by blast
          qed
          have "\<forall>m \<in> fst ` set ?BL. bmap (view s1) (ic_addrs d1) (m div 64) \<noteq> 0" if alloc
          proof
            fix m assume "m \<in> fst ` set ?BL"
            then have "m div 64 = unat i" by (rule block_calls_div [OF \<open>unat ?lim \<le> 64\<close>])
            then show "bmap (view s1) (ic_addrs d1) (m div 64) \<noteq> 0" using ok [OF e0] that by metis
          qed
          then have "walk_post alloc cb (?BL @ R) act c s ?a e2 act2 c2 s2 (ic_addrs d1)"
            using Re by (intro walk_post_lift [OF ev E ro px [OF e0] wp])
          moreover have "dir_loop ck cb alloc i off sz act d c s = Some (e2, act2, d1, c2, s2)"
            unfolding unf using db True by auto
          ultimately show ?thesis unfolding C using keep noeff Re by (auto simp: loop_ok_def)
        next
          case False
          then have go: "act_cont act2" "e2 = 0" "?sz \<noteq> 0" by auto
          note runB = conjunct1 [OF full [OF go(1,2)]] and v2 = conjunct1 [OF conjunct2 [OF full [OF go(1,2)]]]
            and p2 = conjunct2 [OF conjunct2 [OF full [OF go(1,2)]]]
          have w: "evolves s1 (ic_addrs d1) s2 (ic_addrs d1)" using wp by (simp add: walk_post_def)
          have px2: "pool s \<subseteq> pool s2 \<union> owned (view s2) (ic_addrs d1)"
            using px [OF e0] w p2 unfolding evolves_def by auto
          have ev2: "evolves s ?a s2 (ic_addrs d1)" by (rule evolves_trans [OF ev w])
          have wf2: "inv s2" "file_wf (view s2) (pool s2 \<union> meta s2) (ic_addrs d1)"
            using ev2 by (auto simp: evolves_def)
          have pos: "unat sz > min 64 (unat sz + unat off) - unat off"
          proof -
            have "unat ?sz \<noteq> 0" using go(3) by (simp only: unat_eq_zero not_False_eq_True)
            with usz show ?thesis by linarith
          qed
          then have m: "unat off < 64 \<and> min 64 (unat sz + unat off) = 64"
            using less.prems(3) by (simp add: min_def split: if_splits)
          have lt: "unat ?sz < unat sz" using usz m pos by linarith
          have ovf: "unat ?sz + 64 < 2 ^ 32" using lt less.prems(4) by linarith
          have BLne: "?BL \<noteq> []" using m lim pos by (auto simp: block_calls_def)
          have i1: "unat (i + 1) = unat i + 1"
          proof -
            have "unat i < MAXFILE"
            proof (rule ccontr)
              assume "\<not> unat i < MAXFILE"
              then have "e \<noteq> 0" using run by (simp add: xv6_inode_addr_def)
              with e0 show False by simp
            qed
            then show ?thesis by (simp add: MAXFILE_val unat_add_no_wrap)
          qed
          have R': "R = calls alloc (bmap (view s) ?a) (entry (view s) ?a) (unat i + 1) 0 (unat ?sz)"
            unfolding R_def using pos by (simp only: not_le [symmetric] if_False)
          have Req: "R = calls alloc (bmap (view s2) (ic_addrs d1)) (entry (view s2) (ic_addrs d1)) (unat (i + 1))
              (unat (0 :: u32)) (unat ?sz)"
          proof (cases alloc)
            case True
            then show ?thesis
              using E v2 i1 by (simp add: R' calls_alloc)
          next
            case False
            then show ?thesis using E v2 i1 ro by (simp add: R')
          qed
          have res: "dir_loop ck cb alloc i off sz act d c s
              = dir_loop ck cb alloc (i + 1) 0 ?sz act2 d1 c2 s2"
            unfolding unf using db go by simp
          have IH: "loop_ok alloc cb R act2 d1 c2 s2 (dir_loop ck cb alloc (i + 1) 0 ?sz act2 d1 c2 s2)"
            unfolding Req by (rule less.hyps [OF lt wf2 _ ovf]) simp
          have E2: "entry (view s2) (ic_addrs d1) = entry (view s) ?a" using E v2 by simp
          have ro2: "\<not> alloc \<Longrightarrow> ic_addrs d1 = ?a \<and> pool s2 = pool s \<and> view s2 = view s"
            using ro p2 v2 by simp
          show ?thesis
          proof (cases "dir_loop ck cb alloc (i + 1) 0 ?sz act2 d1 c2 s2")
            case None
            with IH have "(\<exists>L1 L2. R = L1 @ L2 \<and> run_cb cb L1 act2 c2 = None)
                \<or> alloc \<and> (\<exists>t. inv t \<and> ck_balloc ck 0 t = None)"
              by (simp add: loop_ok_def)
            moreover have "run_cb cb (?BL @ L1) act c = run_cb cb L1 act2 c2" for L1
              using runB by (simp add: run_cb_append split: option.split)
            then have "\<exists>L1' L2'. ?BL @ R = L1' @ L2' \<and> run_cb cb L1' act c = None"
              if "R = L1 @ L2" "run_cb cb L1 act2 c2 = None" for L1 L2
              using that by (intro exI [of _ "?BL @ L1"] exI [of _ L2]) simp
            ultimately show ?thesis
              unfolding res C None loop_ok_def option.case by blast
          next
            case (Some r)
            obtain e3 act3 d3 c3 s3 where r: "r = (e3, act3, d3, c3, s3)" by (cases r)
            from IH have I: "walk_post alloc cb R act2 c2 s2 (ic_addrs d1) e3 act3 c3 s3 (ic_addrs d3)"
                "ic_size d3 = ic_size d1" "\<not> alloc \<longrightarrow> ic_dirty d3 \<longrightarrow> ic_dirty d1"
                "(\<forall>k c a e' c'. cb k zero_dirent c = Some (a, e', c') \<longrightarrow> \<not> act_cont a) \<longrightarrow>
                  (ic_addrs d3 \<noteq> ic_addrs d1 \<longrightarrow> ic_dirty d3)
                  \<and> (R \<noteq> [] \<longrightarrow> act_cont act3 \<longrightarrow> e3 = 0 \<longrightarrow> ic_addrs d3 = ic_addrs d1)"
              by (simp_all add: loop_ok_def Some r)
            have "R \<noteq> []" unfolding R' using calls_ne [of "unat ?sz" 0] usz pos m by simp
            have "walk_post alloc cb (?BL @ R) act c s ?a e3 act3 c3 s3 (ic_addrs d3)"
              by (rule walk_post_seq [OF ev2 E2 ro2 px2 runB I(1)])
            then show ?thesis
              unfolding res C Some r using I(2-4) keep noeff [OF go(1,2) BLne] \<open>R \<noteq> []\<close> by (auto simp: loop_ok_def)
          qed
        qed
      qed
    qed
  qed
qed

subsection \<open>xv6_dir_iterate\<close>

text \<open>The number of entries of a directory of the given size.\<close>

lemma dir_len:
  "unat ((sz :: u32) div 16) = unat sz div 16" "unat (sz div 16) + 64 < 2 ^ 32"
  using unat_lt2p [of sz] by (simp_all add: unat_div)

lemma iterate_loop:
  assumes good: "good_cb cb" and inv: "inv s" and wf: "file_wf (view s) (pool s \<union> meta s) (ic_addrs d)"
    and off: "off \<le> ic_size d div 16"
  shows "loop_ok rw cb (calls rw (bmap (view s) (ic_addrs d)) (entry (view s) (ic_addrs d)) (unat off div 64)
        (unat off mod 64) (unat (ic_size d) div 16 - unat off)) act d c s
      (dir_loop ck cb rw (off div nents) (off mod nents) (ic_size d div 16 - off) act d c s)"
proof -
  have o: "unat (off div nents) = unat off div 64" "unat (off mod nents) = unat off mod 64"
    by (simp_all add: nents_val unat_div unat_mod)
  have z: "unat (ic_size d div 16 - off) = unat (ic_size d) div 16 - unat off"
    using off by (simp add: unat_sub unat_div word_le_unat)
  have "unat (ic_size d div 16 - off) + 64 < 2 ^ 32" using dir_len [of "ic_size d"] z by linarith
  from loop_spec [OF good inv wf _ this, of "off mod nents" rw "off div nents" act c]
  show ?thesis by (simp add: o z)
qed

text \<open>A walk that does not allocate, with a callback that does not ask to extend.\<close>

lemma iterate_read:
  assumes good: "good_cb cb" and inv: "inv s" and wf: "file_wf (view s) (pool s \<union> meta s) (ic_addrs d)"
    and sz: "ic_size d mod 16 = 0" "32 \<le> ic_size d" and off: "off \<le> ic_size d div 16"
    and noext: "\<And>k e c a e' c'. cb k e c = Some (a, e', c') \<Longrightarrow> \<not> act_dir_ext a"
  defines "L \<equiv> calls False (bmap (view s) (ic_addrs d)) (entry (view s) (ic_addrs d)) (unat off div 64)
        (unat off mod 64) (unat (ic_size d) div 16 - unat off)"
  shows "case xv6_dir_iterate ck d cb c off False s of
      None \<Rightarrow> \<exists>L1 L2. L = L1 @ L2 \<and> run_cb cb L1 xv6_diter_action_init c = None
    | Some (e, d', c', s') \<Rightarrow> \<exists>a. walk_post False cb L xv6_diter_action_init c s (ic_addrs d) e a c' s' (ic_addrs d)
        \<and> ic_addrs d' = ic_addrs d \<and> ic_size d' = ic_size d \<and> (ic_dirty d' \<longrightarrow> ic_dirty d)"
proof -
  let ?l = "dir_loop ck cb False (off div nents) (off mod nents) (ic_size d div 16 - off)
    xv6_diter_action_init d c s"
  have ok: "loop_ok False cb L xv6_diter_action_init d c s ?l"
    unfolding L_def by (rule iterate_loop [OF good inv wf off])
  have ext: "\<not> act_dir_ext a" if "run_cb cb L1 act c = Some (a, c', st)" "\<not> act_dir_ext act" for L1 act c a c' st
    using that
  proof (induction L1 arbitrary: act c)
    case (Cons p L1)
    obtain k e where p: "p = (k, e)" by (cases p)
    from Cons.prems(1) [unfolded p] show ?case
      by (cases rule: run_cb_ConsE) (use noext Cons.IH in blast)+
  qed simp
  have unf: "xv6_dir_iterate ck d cb c off False s = do {
      (error, act, dir, ctx, s) \<leftarrow> ?l;
      if error = 0 \<and> act_cont act \<and> act_dir_ext act then dir_extend ck cb False dir ctx s
      else Some (error, dir, ctx, s) }"
  proof -
    have "\<not> ic_size d div 16 < off" using off by (simp add: not_less)
    then show ?thesis using sz by (simp add: xv6_dir_iterate_def panic_unless_def Let_def)
  qed
  show ?thesis
  proof (cases ?l)
    case None
    then show ?thesis using ok unfolding unf by (simp add: loop_ok_def)
  next
    case (Some r)
    obtain e a d' c' s' where r: "r = (e, a, d', c', s')" by (cases r)
    from ok have w: "walk_post False cb L xv6_diter_action_init c s (ic_addrs d) e a c' s' (ic_addrs d')"
        "ic_size d' = ic_size d" "ic_dirty d' \<longrightarrow> ic_dirty d"
      by (simp_all add: loop_ok_def Some r)
    then have a: "ic_addrs d' = ic_addrs d" by (simp add: walk_post_def)
    from w(1) obtain L1 st where "run_cb cb L1 xv6_diter_action_init c = Some (a, c', st)"
      by (rule walk_postE) blast
    then have "\<not> act_dir_ext a" by (rule ext) (simp add: xv6_diter_action_init_def)
    then show ?thesis unfolding unf using Some r w a by auto
  qed
qed

text \<open>The step past the end.\<close>

lemma extend_spec:
  assumes good: "good_cb cb" and inv: "inv s" and wf: "file_wf (view s) (pool s \<union> meta s) (ic_addrs d)"
  defines "n \<equiv> unat (ic_size d) div 16" and "E \<equiv> entry (view s) (ic_addrs d)"
  shows "case dir_extend ck cb True d c s of
      None \<Rightarrow> cb (of_nat n) (E n) c = None \<or> (\<exists>t. inv t \<and> ck_balloc ck 0 t = None)
    | Some (e, d', c', s') \<Rightarrow> evolves s (ic_addrs d) s' (ic_addrs d')
        \<and> (e = 0 \<longrightarrow> pool s \<subseteq> pool s' \<union> owned (view s') (ic_addrs d'))
        \<and> (ic_addrs d' \<noteq> ic_addrs d \<longrightarrow> ic_dirty d')
        \<and> (e \<noteq> 0 \<and> entry (view s') (ic_addrs d') = E \<and> ic_size d' = ic_size d \<and> c' = c
           \<or> n < 64 * MAXFILE \<and> (\<exists>a x. cb (of_nat n) (E n) c = Some (a, x, c')
               \<and> entry (view s') (ic_addrs d') = E(n := x)
               \<and> ic_size d' = (if act_dir_dirty a then ic_size d + 16 else ic_size d)
               \<and> (act_dir_dirty a \<longrightarrow> ic_dirty d')))"
proof -
  let ?sz = "ic_size d div 16"
  have un: "unat (?sz div nents) = n div 64" "unat (?sz mod nents) = n mod 64" "?sz = of_nat n"
  proof -
    have "n = unat ?sz" by (simp add: n_def dir_len)
    then show "unat (?sz div nents) = n div 64" "unat (?sz mod nents) = n mod 64"
      by (simp_all add: nents_val unat_div unat_mod)
    show "?sz = of_nat n" unfolding \<open>n = unat ?sz\<close> by (simp only: of_nat_unat ucast_id)
  qed
  show ?thesis
  proof (cases "xv6_inode_addr ck d (?sz div nents) True s")
    case None
    then show ?thesis using addr_None [OF inv None] by (simp add: dir_extend_def Let_def)
  next
    case (Some q)
    obtain e b d1 s1 where "q = (e, b, d1, s1)" by (cases q)
    then have run: "xv6_inode_addr ck d (?sz div nents) True s = Some (e, b, d1, s1)" using Some by simp
    note A = addr_alloc [OF inv wf run]
    have E1: "entry (view s1) (ic_addrs d1) = E" unfolding E_def by (rule extends_entry [OF A(2)])
    have i1: "inv s1" "file_wf (view s1) (pool s1 \<union> meta s1) (ic_addrs d1)"
      using A(1) by (auto simp: evolves_def)
    show ?thesis
    proof (cases "e = 0")
      case False
      then show ?thesis using run A(1,6,7) E1 by (simp add: dir_extend_def Let_def)
    next
      case True
      have b: "b \<noteq> 0" "b = bmap (view s1) (ic_addrs d1) (n div 64)" "n div 64 < MAXFILE"
        using A(4) [OF True] un by auto
      have bo: "b \<in> owned (view s1) (ic_addrs d1)" using ownedI(1) b by metis
      then have nm: "b \<notin> meta s1" using file_wfD(4) [OF i1(2)] by auto
      obtain r s2 where br: "ck_bread ck b s1 = (r, s2)" by force
      show ?thesis
      proof (cases rule: bread_brelse_held [OF i1(1) br])
        case 1
        have "evolves s1 (ic_addrs d1) s2 (ic_addrs d1)" using evolves_same [OF 1(5,2,3,4,6) i1(2)] .
        then show ?thesis using run A(6,7) E1 True br 1 evolves_trans [OF A(1)]
          by (simp add: dir_extend_def Let_def)
      next
        case 2
        let ?k = "n mod 64"
        have E2: "rd_dirent (view s1 b) ?k = E n"
          using b by (simp add: E1 [symmetric] entry_def Let_def)
        show ?thesis
        proof (cases "cb ?sz (E n) c")
          case None
          then show ?thesis using run True br 2 E2 un by (simp add: dir_extend_def Let_def bdata_ok)
        next
          case (Some p)
          obtain a x c1 where p: "p = (a, x, c1)" by (cases p)
          have wx: "wf_dirent x" using good_cbD(1) [OF good _ Some [unfolded p]] by (simp add: E_def)
          define s3 where "s3 = ck_bstore ck b (wr_dirent (view s1 b) ?k x) s2"
          have S: "view s3 = (view s1)(b := wr_dirent (view s1 b) ?k x)" "pool s3 = pool s1" "meta s3 = meta s1"
              "held s3 = held s2" "inv s3"
            using bstore_ok [OF 2(5) _ s3_def] nm 2 by auto
          define d2 where "d2 = (if act_dir_dirty a then d1\<lparr>ic_dirty := True, ic_size := ic_size d1 + 16\<rparr> else d1)"
          obtain e4 s4 where fl: "(if act_de_dirty a then ck_bflush ck b s3 else (0, s3)) = (e4, s4)"
            by force
          have F: "view s4 = view s3" "pool s4 = pool s1" "meta s4 = meta s1" "held s4 = held s2" "inv s4"
            using fl bflush_ok [OF S(5)] S by (auto split: if_splits)
          define s5 where "s5 = ck_brelse ck b s4"
          have B: "view s5 = (view s1)(b := wr_dirent (view s1 b) ?k x)" "pool s5 = pool s1" "meta s5 = meta s1"
              "held s5 = held s1" "inv s5"
            using brelse_ok [OF F(5) s5_def] F S(1) 2 by auto
          have res: "dir_extend ck cb True d c s = Some (e4, d2, c1, s5)"
            using run True br 2 E2 un Some p fl
            by (simp add: dir_extend_def Let_def bdata_ok s3_def d2_def s5_def split: if_splits)
          have "n = 64 * (n div 64) + ?k" by simp
          with entry_store [OF i1(2) b(2) [symmetric] b(1) _ wx, of ?k]
          have N: "entry (view s5) (ic_addrs d1) = E(n := x)" "file_wf (view s5) (pool s1 \<union> meta s1) (ic_addrs d1)"
              "owned (view s5) (ic_addrs d1) = owned (view s1) (ic_addrs d1)"
            by (simp_all add: B(1) E1)
          have "\<forall>y. y \<notin> owned (view s1) (ic_addrs d1) \<longrightarrow> view s5 y = view s1 y"
            unfolding B(1) using bo by auto
          then have "evolves s1 (ic_addrs d1) s5 (ic_addrs d1)"
            unfolding evolves_def using N B(2-5) by simp
          moreover have "pool s \<subseteq> pool s5 \<union> owned (view s5) (ic_addrs d1)"
            using A(9) [OF True] N(3) B(2) by simp
          ultimately show ?thesis
            unfolding res using evolves_trans [OF A(1)] N(1) A(6,7) Some p un b(3) by (auto simp: d2_def)
        qed
      qed
    qed
  qed
qed

end

end
