(* ===== verification/Dir_Search.thy ===== *)
theory Dir_Search
  imports Dir_Walk
begin

text \<open>
  Callbacks that search: they pass over entries without changing anything until the first entry
  that satisfies a predicate. All callbacks of \<^verbatim>\<open>dir.c\<close> but the one of readdir are of this
  kind, so the iterator's effect on them is "the first such entry", stated here once for every
  device; holes of the directory never match.
\<close>

section \<open>Searching callbacks\<close>

text \<open>
  A callback that, in context \<open>c\<close>, goes on with nothing changed except at entries satisfying
  \<open>P\<close>, where it stops (or fails).
\<close>

definition search_cb :: "'c xv6_diter_callback \<Rightarrow> (nat \<Rightarrow> dirent \<Rightarrow> bool) \<Rightarrow> 'c \<Rightarrow> bool" where
  "search_cb cb P c \<longleftrightarrow> (\<forall>k e. P k e \<longrightarrow> (\<forall>a e' c'. cb (of_nat k) e c = Some (a, e', c') \<longrightarrow> \<not> act_cont a))
     \<and> (\<forall>k e. \<not> P k e \<longrightarrow> (\<exists>a. act_cont a \<and> cb (of_nat k) e c = Some (a, e, c)))"

lemma search_run:
  assumes sc: "search_cb cb P c" and run: "run_cb cb L act c = Some (a, c', st)"
  shows "case st of None \<Rightarrow> c' = c \<and> (\<forall>p \<in> set L. \<not> P (fst p) (snd p))
    | Some (m, x) \<Rightarrow> (\<exists>e L1 L2. L = L1 @ (m, e) # L2 \<and> (\<forall>p \<in> set L1. \<not> P (fst p) (snd p))
        \<and> P m e \<and> cb (of_nat m) e c = Some (a, x, c'))"
  using run
proof (induction L arbitrary: act)
  case (Cons p L)
  obtain k e where p: "p = (k, e)" by (cases p)
  show ?case
  proof (cases "P k e")
    case True
    from Cons.prems [unfolded p] show ?thesis
    proof (cases rule: run_cb_ConsE)
      case (stop e')
      then show ?thesis
        unfolding p stop(3) option.case prod.case
        by (intro exI [of _ e] exI [of _ "[]"] exI [of _ L]) (use True in simp)
    next
      case (go a1 e1 c1)
      then show ?thesis using sc True unfolding search_cb_def by blast
    qed
  next
    case False
    then obtain a1 where a1: "act_cont a1" "cb (of_nat k) e c = Some (a1, e, c)"
      using sc unfolding search_cb_def by blast
    then have "run_cb cb L a1 c = Some (a, c', st)" using Cons.prems by (simp add: p)
    from Cons.IH [OF this] show ?thesis
    proof (cases st)
      case (Some q)
      obtain m x where q: "q = (m, x)" by (cases q)
      with Cons.IH [OF \<open>run_cb cb L a1 c = Some (a, c', st)\<close>] Some
      obtain e' L1 L2 where "L = L1 @ (m, e') # L2" "\<forall>p \<in> set L1. \<not> P (fst p) (snd p)" "P m e'"
          "cb (of_nat m) e' c = Some (a, x, c')" by auto
      then show ?thesis
        unfolding Some q p option.case prod.case
        by (intro exI [of _ e'] exI [of _ "(k, e) # L1"] exI [of _ L2]) (use False in simp)
    qed (use False p in auto)
  qed
qed simp

lemma search_None:
  assumes sc: "search_cb cb P c" and run: "run_cb cb L act c = None"
  shows "\<exists>p \<in> set L. P (fst p) (snd p) \<and> cb (of_nat (fst p)) (snd p) c = None"
  using run
proof (induction L arbitrary: act)
  case (Cons p L)
  obtain k e where p: "p = (k, e)" by (cases p)
  show ?case
  proof (cases "P k e")
    case True
    show ?thesis
    proof (cases "cb (of_nat k) e c")
      case (Some r)
      obtain a e' c' where r: "r = (a, e', c')" by (cases r)
      then have "\<not> act_cont a" using sc True Some unfolding search_cb_def by blast
      then show ?thesis using Cons.prems Some r by (simp add: p)
    qed (use True p in auto)
  next
    case False
    then obtain a1 where "act_cont a1" "cb (of_nat k) e c = Some (a1, e, c)"
      using sc unfolding search_cb_def by blast
    then show ?thesis using Cons.prems Cons.IH [of a1] by (auto simp: p)
  qed
qed simp

text \<open>
  The calls in order: each shows the entry of its number; a number in range that is skipped
  lies in a hole.
\<close>

definition calls_of :: "(nat \<Rightarrow> dirent) \<Rightarrow> nat \<Rightarrow> nat \<Rightarrow> (nat \<times> dirent) list \<Rightarrow> bool" where
  "calls_of E lo hi C \<longleftrightarrow>
     (\<forall>p \<in> set C. snd p = E (fst p) \<and> (lo \<le> fst p \<and> fst p < hi \<or> E (fst p) = zero_dirent))
     \<and> (\<forall>k. lo \<le> k \<and> k < hi \<longrightarrow> (k, E k) \<in> set C \<or> E k = zero_dirent)
     \<and> sorted_wrt (\<lambda>p q. fst p < fst q) C"

lemma calls_of_append:
  assumes "calls_of E lo mid C" "calls_of E mid hi D" "lo \<le> mid" "mid \<le> hi"
    and "\<forall>p \<in> set C. fst p < mid" "\<forall>p \<in> set D. mid \<le> fst p"
  shows "calls_of E lo hi (C @ D)"
proof -
  have "\<forall>p \<in> set (C @ D). snd p = E (fst p) \<and> (lo \<le> fst p \<and> fst p < hi \<or> E (fst p) = zero_dirent)"
    using assms unfolding calls_of_def by fastforce
  moreover have "(k, E k) \<in> set (C @ D) \<or> E k = zero_dirent" if "lo \<le> k" "k < hi" for k
    using assms that unfolding calls_of_def by (cases "k < mid") auto
  moreover have "sorted_wrt (\<lambda>p q. fst p < fst q) (C @ D)"
    using assms unfolding calls_of_def sorted_wrt_append by fastforce
  ultimately show ?thesis by (auto simp: calls_of_def)
qed

definition here_calls :: "bool \<Rightarrow> (nat \<Rightarrow> u32) \<Rightarrow> (nat \<Rightarrow> dirent) \<Rightarrow> nat \<Rightarrow> nat \<Rightarrow> nat \<Rightarrow> (nat \<times> dirent) list" where
  "here_calls alloc bm E i off lim = (if \<not> alloc \<and> bm i = 0 then [(64 * i, zero_dirent)]
      else map (\<lambda>k. (64 * i + k, E (64 * i + k))) [off..<lim])"

lemma calls_of_block:
  assumes hole: "\<And>k. bm (k div 64) = 0 \<Longrightarrow> E k = zero_dirent" and "off \<le> lim" "lim \<le> 64"
  shows "calls_of E (64 * i + off) (64 * i + lim) (here_calls alloc bm E i off lim)"
    "\<forall>p \<in> set (here_calls alloc bm E i off lim). 64 * i \<le> fst p \<and> fst p < 64 * i + 64"
proof -
  have h0: "E k = zero_dirent" if "\<not> alloc \<and> bm i = 0" "64 * i \<le> k" "k < 64 * i + 64" for k
  proof -
    have "k div 64 = i" using that(2,3) by linarith
    then show ?thesis using hole [of k] that(1) by simp
  qed
  have "(k, E k) \<in> set (map (\<lambda>k. (64 * i + k, E (64 * i + k))) [off..<lim])"
    if "64 * i + off \<le> k" "k < 64 * i + lim" for k
    unfolding set_map using that by (intro image_eqI [of _ _ "k - 64 * i"]) auto
  then show "calls_of E (64 * i + off) (64 * i + lim) (here_calls alloc bm E i off lim)"
    using h0 assms(3) by (auto simp: calls_of_def here_calls_def sorted_wrt_map)
  show "\<forall>p \<in> set (here_calls alloc bm E i off lim). 64 * i \<le> fst p \<and> fst p < 64 * i + 64"
    using assms(3) by (auto simp: here_calls_def)
qed

lemma calls_props:
  assumes hole: "\<And>k. bm (k div 64) = 0 \<Longrightarrow> E k = zero_dirent"
  shows "off < 64 \<Longrightarrow> calls_of E (64 * i + off) (64 * i + off + sz) (calls alloc bm E i off sz)
     \<and> (\<forall>p \<in> set (calls alloc bm E i off sz). 64 * i \<le> fst p)"
proof (induction sz arbitrary: i off rule: less_induct)
  case (less sz)
  show ?case
  proof (cases "sz \<le> min 64 (sz + off) - off")
    case True
    then have m: "min 64 (sz + off) = off + sz" using less.prems by linarith
    show ?thesis
      unfolding calls_here [OF True] m here_calls_def [symmetric]
      using calls_of_block [where bm = bm and E = E and off = off and lim = "off + sz" and alloc = alloc and i = i, OF hole] m by (auto simp: add.assoc)
  next
    case False
    then have m: "64 - off < sz" using less.prems by linarith
    have e: "64 * (i + 1) + 0 = 64 * i + 64" "64 * (i + 1) + 0 + (sz - (64 - off)) = 64 * i + off + sz"
      using less.prems m by auto
    have I: "calls_of E (64 * i + 64) (64 * i + off + sz) (calls alloc bm E (i + 1) 0 (sz - (64 - off)))"
        "\<forall>p \<in> set (calls alloc bm E (i + 1) 0 (sz - (64 - off))). 64 * i + 64 \<le> fst p"
      using less.IH [of "sz - (64 - off)" 0 "i + 1", unfolded e] less.prems m by (simp_all add: algebra_simps)
    note B = calls_of_block [where bm = bm and E = E and off = off and lim = 64 and alloc = alloc and i = i, OF hole]
    show ?thesis
      unfolding calls_more [OF less.prems False] here_calls_def [symmetric]
    proof (intro conjI)
      show "calls_of E (64 * i + off) (64 * i + off + sz)
         (here_calls alloc bm E i off 64 @ calls alloc bm E (i + 1) 0 (sz - (64 - off)))"
        by (rule calls_of_append [OF B(1) I(1)]) (use B(2) I(2) less.prems m in auto)
      show "\<forall>p \<in> set (here_calls alloc bm E i off 64 @ calls alloc bm E (i + 1) 0 (sz - (64 - off))).
           64 * i \<le> fst p"
        using B(2) I(2) less.prems by auto
    qed
  qed
qed

lemma search_calls:
  assumes sc: "search_cb cb P c" and C: "calls_of E lo hi (L1 @ L2)" and run: "run_cb cb L1 act c = Some (a, c', st)"
    and z: "\<And>k. \<not> P k zero_dirent"
  shows "case st of None \<Rightarrow> c' = c \<and> (L2 = [] \<longrightarrow> (\<forall>k. lo \<le> k \<longrightarrow> k < hi \<longrightarrow> \<not> P k (E k)))
    | Some (m, x) \<Rightarrow> lo \<le> m \<and> m < hi \<and> P m (E m) \<and> (\<forall>k. lo \<le> k \<longrightarrow> k < m \<longrightarrow> \<not> P k (E k))
        \<and> cb (of_nat m) (E m) c = Some (a, x, c')"
proof (cases st)
  case None
  with search_run [OF sc run] have *: "c' = c" "\<forall>p \<in> set L1. \<not> P (fst p) (snd p)" by auto
  have "\<not> P k (E k)" if "L2 = []" "lo \<le> k" "k < hi" for k
    using C * that z [of k] unfolding calls_of_def by force
  then show ?thesis using None * by simp
next
  case (Some q)
  obtain m x where q: "q = (m, x)" by (cases q)
  from search_run [OF sc run, unfolded Some q option.case prod.case]
  obtain e A B where D: "L1 = A @ (m, e) # B" "\<forall>p \<in> set A. \<not> P (fst p) (snd p)" "P m e"
      "cb (of_nat m) e c = Some (a, x, c')" by blast
  have e: "e = E m" "lo \<le> m" "m < hi"
    using C D(1,3) z [of m] unfolding calls_of_def by fastforce+
  have "\<not> P k (E k)" if "lo \<le> k" "k < m" for k
  proof (cases "E k = zero_dirent")
    case False
    then have "(k, E k) \<in> set (A @ (m, e) # (B @ L2))"
      using C D(1) that e unfolding calls_of_def by auto
    moreover have "sorted_wrt (\<lambda>p q. fst p < fst q) (A @ (m, e) # (B @ L2))"
      using C e(1) unfolding D(1) calls_of_def by simp
    then have "\<forall>p \<in> set (B @ L2). m < fst p" unfolding sorted_wrt_append by simp
    ultimately have "(k, E k) \<in> set A" using that by force
    then show ?thesis using D(2) by force
  qed (use z [of k] in simp)
  then show ?thesis using D e by (simp add: Some q)
qed

section \<open>The iterator on a searching callback\<close>

context checker_dev
begin

lemma iterate_search:
  assumes good: "good_cb cb" and inv: "inv s" and wf: "file_wf (view s) (pool s \<union> meta s) (ic_addrs d)"
    and sz: "ic_size d mod 16 = 0" "32 \<le> ic_size d" and off: "off \<le> ic_size d div 16"
    and noext: "\<And>k e c a e' c'. cb k e c = Some (a, e', c') \<Longrightarrow> \<not> act_dir_ext a"
    and sc: "search_cb cb P c" and z: "\<And>k. \<not> P k zero_dirent" and nd: "\<not> ic_dirty d"
    and n: "n = unat (ic_size d) div 16" and E: "E = entry (view s) (ic_addrs d)"
  obtains (panic) k where "xv6_dir_iterate ck d cb c off False s = None" "unat off \<le> k" "k < n" "P k (E k)"
      "cb (of_nat k) (E k) c = None"
  | (none) e d' s' where "xv6_dir_iterate ck d cb c off False s = Some (e, d', c, s')"
      "ic_addrs d' = ic_addrs d" "ic_size d' = ic_size d" "\<not> ic_dirty d'"
      "evolves s (ic_addrs d) s' (ic_addrs d)" "pool s' = pool s" "view s' = view s"
      "e = 0 \<longrightarrow> (\<forall>k. unat off \<le> k \<longrightarrow> k < n \<longrightarrow> \<not> P k (E k))"
  | (hit) m e d' a x c' s' where "xv6_dir_iterate ck d cb c off False s = Some (e, d', c', s')"
      "ic_addrs d' = ic_addrs d" "ic_size d' = ic_size d" "\<not> ic_dirty d'"
      "evolves s (ic_addrs d) s' (ic_addrs d)" "pool s' = pool s"
      "unat off \<le> m" "m < n" "P m (E m)" "\<forall>k. unat off \<le> k \<longrightarrow> k < m \<longrightarrow> \<not> P k (E k)"
      "cb (of_nat m) (E m) c = Some (a, x, c')" "entry (view s') (ic_addrs d) = E(m := x)"
      "x = E m \<longrightarrow> view s' = view s"
proof -
  let ?bm = "bmap (view s) (ic_addrs d)"
  let ?L = "calls False ?bm E (unat off div 64) (unat off mod 64) (n - unat off)"
  have on: "unat off \<le> n" using off by (simp add: n word_le_unat unat_div)
  have C: "calls_of E (unat off) n ?L"
  proof -
    have "calls_of E (64 * (unat off div 64) + unat off mod 64)
        (64 * (unat off div 64) + unat off mod 64 + (n - unat off)) ?L"
      using calls_props [of ?bm E "unat off mod 64" "unat off div 64" "n - unat off" False]
      by (simp add: E entry_def)
    then show ?thesis using on by simp
  qed
  have I: "case xv6_dir_iterate ck d cb c off False s of
      None \<Rightarrow> \<exists>L1 L2. ?L = L1 @ L2 \<and> run_cb cb L1 xv6_diter_action_init c = None
    | Some (e, d', c', s') \<Rightarrow> \<exists>a. walk_post False cb ?L xv6_diter_action_init c s (ic_addrs d) e a c' s' (ic_addrs d)
        \<and> ic_addrs d' = ic_addrs d \<and> ic_size d' = ic_size d \<and> (ic_dirty d' \<longrightarrow> ic_dirty d)"
    unfolding E n by (rule iterate_read [OF good inv wf sz off]) (rule noext)
  show thesis
  proof (cases "xv6_dir_iterate ck d cb c off False s")
    case None
    then obtain L1 L2 where L: "?L = L1 @ L2" "run_cb cb L1 xv6_diter_action_init c = None" using I by auto
    from search_None [OF sc L(2)] obtain p where p: "p \<in> set L1" "P (fst p) (snd p)"
        "cb (of_nat (fst p)) (snd p) c = None" by blast
    have "p \<in> set ?L" using L(1) p(1) by simp
    then have "snd p = E (fst p)" "unat off \<le> fst p \<and> fst p < n"
      using C p(2) z [of "fst p"] unfolding calls_of_def by force+
    then show ?thesis using panic [of "fst p"] None p by simp
  next
    case (Some r)
    obtain e d' c' s' where r: "r = (e, d', c', s')" by (cases r)
    from I [unfolded Some r] obtain a where w: "walk_post False cb ?L xv6_diter_action_init c s (ic_addrs d) e a c' s' (ic_addrs d)"
        and d': "ic_addrs d' = ic_addrs d" "ic_size d' = ic_size d" "\<not> ic_dirty d'"
      using nd by auto
    from w show ?thesis
    proof (cases rule: walk_postE)
      case (1 L1 L2 st)
      have C': "calls_of E (unat off) n (L1 @ L2)" using C 1(3) by simp
      note S = search_calls [OF sc C' 1(4) z]
      show ?thesis
      proof (cases st)
        case None
        then show ?thesis
          using none [of e d' s'] S 1 Some r d' by auto
      next
        case (Some q)
        obtain m x where q: "q = (m, x)" by (cases q)
        from S have H: "unat off \<le> m" "m < n" "P m (E m)" "\<forall>k. unat off \<le> k \<longrightarrow> k < m \<longrightarrow> \<not> P k (E k)"
            "cb (of_nat m) (E m) c = Some (a, x, c')" by (simp_all add: Some q)
        from 1(7) have X: "entry (view s') (ic_addrs d) = (if bmap (view s') (ic_addrs d) (m div 64) = 0
              then E else E(m := x))" "x = E m \<longrightarrow> view s' = view s"
          by (simp_all add: Some q E)
        have "bmap (view s') (ic_addrs d) (m div 64) \<noteq> 0"
        proof
          assume b: "bmap (view s') (ic_addrs d) (m div 64) = 0"
          then have "entry (view s') (ic_addrs d) m = zero_dirent" by (simp add: entry_def)
          then have "E m = zero_dirent" using X(1) b by simp
          then show False using H(3) z by simp
        qed
        then show ?thesis
          using hit [OF _ d' 1(1) _ H, of e] X 1(2) \<open>xv6_dir_iterate ck d cb c off False s = Some r\<close> r by simp
      qed
    qed
  qed
qed

lemma map_upt_split:
  assumes "map (\<lambda>k. (k, E k)) [0..<n] = A @ (m, e) # B"
  shows "m < n" "e = E m" "k < m \<Longrightarrow> (k, E k) \<in> set A"
proof -
  have len: "length A < n" using arg_cong [OF assms, of length] by simp
  have "map (\<lambda>k. (k, E k)) [0..<n] ! length A = (m, e)" by (simp add: assms)
  then have m: "length A = m" "e = E m" using len by auto
  then show "m < n" "e = E m" using len by auto
  assume "k < m"
  then have "A ! k = (A @ (m, e) # B) ! k" using m by (simp add: nth_append)
  also have "\<dots> = (k, E k)" unfolding assms [symmetric] using \<open>k < m\<close> len m by simp
  finally have "A ! k = (k, E k)" .
  then show "(k, E k) \<in> set A" using \<open>k < m\<close> m by (metis nth_mem)
qed

text \<open>A walk that may extend the directory, with a callback that looks for a place.\<close>

lemma iterate_place:
  assumes good: "good_cb cb" and inv: "inv s" and wf: "file_wf (view s) (pool s \<union> meta s) (ic_addrs d)"
    and sz: "ic_size d mod 16 = 0" "32 \<le> ic_size d"
    and ext: "\<And>k e c a e' c'. cb k e c = Some (a, e', c') \<Longrightarrow> act_dir_ext a \<and> act_dir_dirty a"
    and sc: "search_cb cb P c"
    and zs: "\<forall>k c a e' c'. cb k zero_dirent c = Some (a, e', c') \<longrightarrow> \<not> act_cont a"
    and n: "n = unat (ic_size d) div 16" and E: "E = entry (view s) (ic_addrs d)"
  obtains (panic) "xv6_dir_iterate ck d cb c 0 True s = None"
      "(\<exists>k \<le> n. P k (E k) \<and> cb (of_nat k) (E k) c = None) \<or> (\<exists>t. inv t \<and> ck_balloc ck 0 t = None)"
  | (fail) e d' s' where "xv6_dir_iterate ck d cb c 0 True s = Some (e, d', c, s')" "e \<noteq> 0"
      "evolves s (ic_addrs d) s' (ic_addrs d')" "entry (view s') (ic_addrs d') = E"
      "ic_size d' = ic_size d" "ic_addrs d' \<noteq> ic_addrs d \<longrightarrow> ic_dirty d'"
  | (put) m e d' a x c' s' where "xv6_dir_iterate ck d cb c 0 True s = Some (e, d', c', s')"
      "evolves s (ic_addrs d) s' (ic_addrs d')" "ic_size d' = ic_size d"
      "ic_addrs d' \<noteq> ic_addrs d \<longrightarrow> ic_dirty d'"
      "m < n" "P m (E m)" "\<forall>k < m. \<not> P k (E k)" "cb (of_nat m) (E m) c = Some (a, x, c')"
      "entry (view s') (ic_addrs d') = E(m := x)"
      "e = 0 \<longrightarrow> pool s \<subseteq> pool s' \<union> owned (view s') (ic_addrs d')"
  | (app) e d' a x c' s' where "xv6_dir_iterate ck d cb c 0 True s = Some (e, d', c', s')"
      "evolves s (ic_addrs d) s' (ic_addrs d')" "ic_size d' = ic_size d + 16" "ic_dirty d'"
      "n < 64 * MAXFILE" "\<forall>k < n. \<not> P k (E k)" "cb (of_nat n) (E n) c = Some (a, x, c')"
      "entry (view s') (ic_addrs d') = E(n := x)"
      "e = 0 \<longrightarrow> pool s \<subseteq> pool s' \<union> owned (view s') (ic_addrs d')"
proof -
  let ?l = "dir_loop ck cb True 0 0 (ic_size d div 16) xv6_diter_action_init d c s"
  have n2: "2 \<le> n"
  proof -
    have "32 \<le> unat (ic_size d)" using sz(2) by (simp add: word_le_unat)
    then show ?thesis by (simp add: n)
  qed
  have C: "calls True (bmap (view s) (ic_addrs d)) E 0 0 n = map (\<lambda>k. (k, E k)) [0..<n]" (is "?C = ?M")
    by (simp add: calls_alloc)
  have ok: "loop_ok True cb ?M xv6_diter_action_init d c s ?l"
    using iterate_loop [OF good inv wf, of 0 True xv6_diter_action_init c] unfolding n E C [unfolded E n, symmetric]
    by simp
  have unf: "xv6_dir_iterate ck d cb c 0 True s = do {
      (error, act, dir, ctx, s) \<leftarrow> ?l;
      if error = 0 \<and> act_cont act \<and> act_dir_ext act then dir_extend ck cb True dir ctx s
      else Some (error, dir, ctx, s) }"
    using sz by (simp add: xv6_dir_iterate_def panic_unless_def Let_def)
  show thesis
  proof (cases ?l)
    case None
    with ok have "(\<exists>L1 L2. ?M = L1 @ L2 \<and> run_cb cb L1 xv6_diter_action_init c = None) \<or> (\<exists>t. inv t \<and> ck_balloc ck 0 t = None)"
      by (simp add: loop_ok_def)
    moreover have "\<exists>k \<le> n. P k (E k) \<and> cb (of_nat k) (E k) c = None"
      if "?M = L1 @ L2" "run_cb cb L1 xv6_diter_action_init c = None" for L1 L2
    proof -
      from search_None [OF sc that(2)] obtain p where p: "p \<in> set L1" "P (fst p) (snd p)"
          "cb (of_nat (fst p)) (snd p) c = None" by blast
      then have "p \<in> set ?M" using that(1) by (metis UnCI set_append)
      then show ?thesis using p(2,3) by (auto intro!: exI [of _ "fst p"])
    qed
    ultimately show ?thesis using panic unfolding unf by (simp add: None) blast
  next
    case (Some r)
    obtain e a d' c' s' where r: "r = (e, a, d', c', s')" by (cases r)
    from ok have w: "walk_post True cb ?M xv6_diter_action_init c s (ic_addrs d) e a c' s' (ic_addrs d')"
        "ic_size d' = ic_size d" "ic_addrs d' \<noteq> ic_addrs d \<longrightarrow> ic_dirty d'"
        and same: "act_cont a \<Longrightarrow> e = 0 \<Longrightarrow> ic_addrs d' = ic_addrs d"
      using zs n2 by (simp_all add: loop_ok_def Some r)
    from w(1) show ?thesis
    proof (cases rule: walk_postE)
      case (1 L1 L2 st)
      note S = search_run [OF sc 1(4)]
      show ?thesis
      proof (cases st)
        case (Some q)
        obtain m x where q: "q = (m, x)" by (cases q)
        from S [unfolded Some q option.case prod.case] obtain f A B where D: "L1 = A @ (m, f) # B"
            "\<forall>p \<in> set A. \<not> P (fst p) (snd p)" "P m f" "cb (of_nat m) f c = Some (a, x, c')" by blast
        have M: "?M = A @ (m, f) # (B @ L2)" using 1(3) D(1) by simp
        note U = map_upt_split [OF M]
        have "\<not> act_cont a" using run_cb_cont [OF 1(4)] Some by simp
        then have res: "xv6_dir_iterate ck d cb c 0 True s = Some (e, d', c', s')"
          unfolding unf using \<open>?l = Some r\<close> r by simp
        have "bmap (view s') (ic_addrs d') (m div 64) \<noteq> 0" using 1(7) Some q by blast
        then have "entry (view s') (ic_addrs d') = E(m := x)" using 1(7) Some q by (simp add: E)
        then show ?thesis
          using put [OF res 1(1) w(2,3), of m a x] D U 1(8) by force
      next
        case None
        with S have c': "c' = c" and nP: "\<forall>p \<in> set L1. \<not> P (fst p) (snd p)" by simp_all
        have E': "entry (view s') (ic_addrs d') = E" using 1(6) None by (simp add: E)
        show ?thesis
        proof (cases "e = 0")
          case False
          then have "xv6_dir_iterate ck d cb c 0 True s = Some (e, d', c, s')"
            unfolding unf using Some r c' by simp
          then show ?thesis using fail False 1(1) E' w(2,3) by blast
        next
          case True
          then have L1: "L1 = ?M" using 1(3,5) None by simp
          then have "L1 \<noteq> []" using n2 by auto
          have all: "\<forall>k < n. \<not> P k (E k)" using nP L1 by auto
          have ac: "act_cont a" using run_cb_cont [OF 1(4)] None \<open>L1 \<noteq> []\<close> by simp
          have "act_dir_ext a"
          proof -
            have "act_dir_ext a" if "run_cb cb L act c = Some (a, c', None)" "L \<noteq> []" for L act c
              using that
            proof (induction L arbitrary: act c)
              case (Cons p L)
              obtain k f where p: "p = (k, f)" by (cases p)
              from Cons.prems(1) [unfolded p] show ?case
              proof (cases rule: run_cb_ConsE)
                case (go a1 e1 c1)
                then show ?thesis using Cons.IH ext [OF go(1)] by (cases "L = []") auto
              qed simp
            qed simp
            then show ?thesis using 1(4) None \<open>L1 \<noteq> []\<close> by blast
          qed
          then have res: "xv6_dir_iterate ck d cb c 0 True s = dir_extend ck cb True d' c s'"
            unfolding unf using Some r c' True ac by simp
          have inv': "inv s'" "file_wf (view s') (pool s' \<union> meta s') (ic_addrs d')"
            using 1(1) by (auto simp: evolves_def)
          note X = extend_spec [OF good inv', of c, unfolded E' w(2), folded n]
          show ?thesis
          proof (cases "dir_extend ck cb True d' c s'")
            case None
            with X have "cb (of_nat n) (E n) c = None \<or> (\<exists>t. inv t \<and> ck_balloc ck 0 t = None)" by simp
            moreover have "P n (E n)" if "cb (of_nat n) (E n) c = None"
              using sc that unfolding search_cb_def by (metis option.distinct(1))
            ultimately show ?thesis using panic res None by auto
          next
            case (Some q)
            obtain e2 d2 c2 s2 where q: "q = (e2, d2, c2, s2)" by (cases q)
            from X have ex: "e2 = 0 \<longrightarrow> pool s' \<subseteq> pool s2 \<union> owned (view s2) (ic_addrs d2)" by (simp add: Some q)
            from X have ev: "evolves s' (ic_addrs d') s2 (ic_addrs d2)" "ic_addrs d2 \<noteq> ic_addrs d' \<longrightarrow> ic_dirty d2"
              and Y: "e2 \<noteq> 0 \<and> entry (view s2) (ic_addrs d2) = E \<and> ic_size d2 = ic_size d \<and> c2 = c
                \<or> n < 64 * MAXFILE \<and> (\<exists>a x. cb (of_nat n) (E n) c = Some (a, x, c2)
                    \<and> entry (view s2) (ic_addrs d2) = E(n := x)
                    \<and> ic_size d2 = (if act_dir_dirty a then ic_size d + 16 else ic_size d)
                    \<and> (act_dir_dirty a \<longrightarrow> ic_dirty d2))"
              by (auto simp: Some q)
            note ev2 = evolves_trans [OF 1(1) ev(1)]
            have "e2 = 0 \<longrightarrow> pool s \<subseteq> pool s2 \<union> owned (view s2) (ic_addrs d2)"
              using 1(8) True ex ev(1) unfolding evolves_def by blast
            note app = app [OF _ _ _ _ _ _ _ _ this]
            have res2: "xv6_dir_iterate ck d cb c 0 True s = Some (e2, d2, c2, s2)" using res Some q by simp
            from Y show ?thesis
            proof (elim disjE conjE exE)
              assume "e2 \<noteq> 0" "entry (view s2) (ic_addrs d2) = E" "ic_size d2 = ic_size d" "c2 = c"
              then show ?thesis using fail [of e2 d2 s2] res2 ev2 ev(2) same [OF ac True] by simp
            next
              fix a x
              assume "n < 64 * MAXFILE" and cbn: "cb (of_nat n) (E n) c = Some (a, x, c2)"
                and "entry (view s2) (ic_addrs d2) = E(n := x)"
                and "ic_size d2 = (if act_dir_dirty a then ic_size d + 16 else ic_size d)"
                and "act_dir_dirty a \<longrightarrow> ic_dirty d2"
              then show ?thesis using app [OF res2 ev2 _ _ _ all cbn] ext [OF cbn] by simp
            qed
          qed
        qed
      qed
    qed
  qed
qed

end

end
