(* ===== verification/Modcheck.thy ===== *)
theory Modcheck
  imports Block_Pool Dir_Search
begin

text \<open>
  The checker of the mounted file system: the table \<^verbatim>\<open>modcheck\<close> of \<^verbatim>\<open>super.c\<close>,
  whose operations (\<^verbatim>\<open>init.c\<close>) are the buffer cache and the block allocator. It is shown
  to be a \<open>checker_dev\<close>, on read-only mounts too: the blocks it may hand out are the free
  blocks of the bitmap, and no block outside the data region is ever file data.
\<close>

section \<open>The table\<close>

definition checker_bread :: "u32 \<Rightarrow> fs \<Rightarrow> u32 option \<times> fs" where
  "checker_bread block s = sb_bread block s"

definition checker_data :: "u32 \<Rightarrow> fs \<Rightarrow> block" where
  "checker_data buffer s = b_data buffer s"

definition checker_brelse :: "u32 \<Rightarrow> fs \<Rightarrow> fs" where
  "checker_brelse buffer s = brelse buffer s"

definition checker_bflush :: "u32 \<Rightarrow> fs \<Rightarrow> int \<times> fs" where
  "checker_bflush buf s = sync_dirty_buffer buf (mark_buffer_dirty buf s)"

definition modcheck :: "fs checker" where
  "modcheck = \<lparr>ck_bread = checker_bread, ck_bdata = checker_data, ck_bstore = b_store,
     ck_brelse = checker_brelse, ck_balloc = xv6_balloc, ck_bflush = checker_bflush\<rparr>"

section \<open>It is a device\<close>

text \<open>The members no block operation changes.\<close>

type_synonym frame = "kenv \<times> xv6_fs_info \<times> bool \<times> bool \<times> bool \<times> (iref \<Rightarrow> vinode) \<times> (iref list \<times> (iref \<Rightarrow> int) \<times> iref)"

definition frame_of :: "fs \<Rightarrow> frame" where
  "frame_of s = (env s, info s, rdonly s, itable_lock s, itree_lock s, inodes s, (inode_tree s, refcount s, next_iref s))"

definition kinv :: "frame \<Rightarrow> fs \<Rightarrow> bool" where
  "kinv fr s \<longleftrightarrow> frame_of s = fr \<and> wf_geom (info s) \<and> hint_ok s \<and> \<not> balloc_lock s"

definition meta_blocks :: "fs \<Rightarrow> u32 set" where
  "meta_blocks s = {b. \<not> data_block (info s) b}"

lemma kinv_alloc: "alloc_inv s \<longleftrightarrow> kinv (frame_of s) s \<and> \<not> rdonly s"
  by (auto simp: alloc_inv_def kinv_def)

lemma frame_touches: "touches B s s' \<Longrightarrow> frame_of s' = frame_of s"
  by (cases s; cases s'; simp add: touches_def frame_of_def)

lemma frame_upd [simp]:
  "frame_of (s\<lparr>now := n\<rparr>) = frame_of s" "frame_of (s\<lparr>cache := c\<rparr>) = frame_of s"
  "frame_of (s\<lparr>disk := c\<rparr>) = frame_of s" "frame_of (s\<lparr>dirty := d\<rparr>) = frame_of s"
  "frame_of (s\<lparr>refs := r\<rparr>) = frame_of s" "frame_of (s\<lparr>balloc_hint := h\<rparr>) = frame_of s"
  "frame_of (s\<lparr>balloc_lock := l\<rparr>) = frame_of s"
  by (simp_all add: frame_of_def)

lemma kinv_upd [simp]:
  "kinv fr (s\<lparr>now := n\<rparr>) = kinv fr s" "kinv fr (s\<lparr>cache := c\<rparr>) = kinv fr s"
  "kinv fr (s\<lparr>disk := c\<rparr>) = kinv fr s" "kinv fr (s\<lparr>dirty := d\<rparr>) = kinv fr s"
  "kinv fr (s\<lparr>refs := r\<rparr>) = kinv fr s"
  by (simp_all add: kinv_def hint_ok_def hint_of_def)

lemma pool_upd [simp]:
  "free_blocks (s\<lparr>now := n\<rparr>) = free_blocks s" "free_blocks (s\<lparr>dirty := d\<rparr>) = free_blocks s"
  "free_blocks (s\<lparr>disk := c\<rparr>) = free_blocks s" "free_blocks (s\<lparr>refs := r\<rparr>) = free_blocks s"
  by (simp_all add: free_blocks_def bm_used_def)

lemma meta_upd [simp]:
  "meta_blocks (s\<lparr>now := n\<rparr>) = meta_blocks s" "meta_blocks (s\<lparr>dirty := d\<rparr>) = meta_blocks s"
  "meta_blocks (s\<lparr>disk := c\<rparr>) = meta_blocks s" "meta_blocks (s\<lparr>refs := r\<rparr>) = meta_blocks s"
  "meta_blocks (s\<lparr>cache := c'\<rparr>) = meta_blocks s"
  by (simp_all add: meta_blocks_def)

lemma meta_bmblk:
  assumes "wf_geom (info s)" "x < fi_size (info s)"
  shows "bmblk (info s) x \<in> meta_blocks s"
  using data_not_bmblk [OF assms(1)] assms by (auto simp: meta_blocks_def data_block_def)

lemma pool_store:
  assumes "wf_geom (info s)" "b \<notin> meta_blocks s"
  shows "free_blocks (s\<lparr>cache := (cache s)(b := d)\<rparr>) = free_blocks s"
proof -
  have "bm_used (s\<lparr>cache := (cache s)(b := d)\<rparr>) x = bm_used s x" if "x < fi_size (info s)" for x
    using meta_bmblk [OF assms(1) that] assms(2) by (auto simp: bm_used_def)
  then show ?thesis by (auto simp: free_blocks_def)
qed

text \<open>The blocks of the bitmap: the only metadata an allocation writes.\<close>

definition bitmap_blocks :: "xv6_fs_info \<Rightarrow> u32 set" where
  "bitmap_blocks i = bmblk i ` {x. x < fi_size i}"

abbreviation frame_bits :: "frame \<Rightarrow> u32 set" where
  "frame_bits fr \<equiv> bitmap_blocks (fst (snd fr))"

lemma frame_info: "fst (snd (frame_of s)) = info s"
  by (simp add: frame_of_def)

lemma frame_bits_kinv: "kinv fr s \<Longrightarrow> frame_bits fr = bitmap_blocks (info s)"
  by (auto simp: kinv_def frame_of_def)

lemma bitmap_blocks_meta: "wf_geom (info s) \<Longrightarrow> bitmap_blocks (info s) \<subseteq> meta_blocks s"
  using meta_bmblk by (auto simp: bitmap_blocks_def)

lemma bitmap_blocksI: "x < fi_size i \<Longrightarrow> bmblk i x \<in> bitmap_blocks i"
  by (simp add: bitmap_blocks_def)

lemma balloc_rdonly: "rdonly s \<Longrightarrow> \<not> balloc_lock s \<Longrightarrow> xv6_balloc blk s = Some (- EROFS, blk, s)"
  by (simp add: balloc_unfold xv6_balloc_unsafe_def)

lemma balloc_device:
  assumes inv: "kinv fr s" and run: "xv6_balloc 0 s = Some (e, b, s')"
  shows "kinv fr s' \<and> meta_blocks s' = meta_blocks s \<and> refs s' = refs s \<and> free_blocks s' \<subseteq> free_blocks s
    \<and> (\<forall>x. x \<notin> free_blocks s \<longrightarrow> x \<notin> frame_bits fr \<longrightarrow> cache s' x = cache s x)
    \<and> (b \<noteq> 0 \<longrightarrow> b \<in> free_blocks s \<and> b \<notin> free_blocks s' \<and> cache s' b = zero_block
         \<and> (e = 0 \<longrightarrow> free_blocks s \<subseteq> insert b (free_blocks s')))"
proof (cases "rdonly s")
  case True
  then show ?thesis using inv run balloc_rdonly [of s 0] by (simp add: kinv_def)
next
  case False
  have ai: "alloc_inv s" using inv False by (simp add: alloc_inv_def kinv_def)
  have wf: "wf_geom (info s)" "hint_ok s" using ai by (auto simp: alloc_inv_def)
  note bits = frame_bits_kinv [OF inv]
  note post = balloc_sound(1) [OF ai run] and inv' = balloc_sound(2) [OF ai run]
  have err_pool: "e \<noteq> 0 \<Longrightarrow> free_blocks s' \<subseteq> free_blocks s" by (rule balloc_err_pool [OF ai run])
  from post consider (t) "e \<noteq> 0" "b = 0" "touches {} s s'"
    | (e) f where "next_fit s f" "e \<noteq> 0" "touches {f, bmblk (info s) f} s s'"
        "b = 0 \<or> claim_cached s f b s'"
    | (c) "next_fit s b" "e = 0" "b \<noteq> 0" "claimed s b s'"
    | (q) "e = 0" "b = 0" "quiet s s'" "free_blocks s = {}"
    by (auto simp: alloc_post_def)
  then show ?thesis
  proof cases
    case t
    then show ?thesis
      using inv' inv err_pool frame_touches [OF t(3)] touchesD [OF t(3)] touches_cache [OF t(3)]
      by (auto simp: alloc_inv_def kinv_def meta_blocks_def)
  next
    case e
    have fr: "f \<in> free_blocks s" by (rule next_fit_free [OF wf e(1)])
    have fs: "f < fi_size (info s)" using fr by (simp add: free_blocks_def)
    have o: "cache s' x = cache s x" if "x \<notin> free_blocks s" "x \<notin> frame_bits fr" for x
      by (rule touches_cache [OF e(3)]) (use that fr bits bitmap_blocksI [OF fs] in auto)
    have "b \<noteq> 0 \<Longrightarrow> b \<in> free_blocks s \<and> b \<notin> free_blocks s' \<and> cache s' b = zero_block"
    proof -
      assume "b \<noteq> 0"
      then have cc: "b = f" "cache s' f = zero_block" "cache s' (bmblk (info s) f) = bitmap_with s f"
        using e(4) by (auto simp: claim_cached_def)
      have "\<And>y. y \<noteq> f \<Longrightarrow> y \<noteq> bmblk (info s) f \<Longrightarrow> cache s' y = cache s y"
        using touches_cache [OF e(3)] by blast
      then have "bm_used s' f"
        using used_after_set [OF wf(1) fs fr touchesD(2) [OF e(3)] cc(3)] by blast
      then show ?thesis using cc fr by (simp add: free_blocks_def)
    qed
    then show ?thesis
      using inv' inv err_pool e(2) frame_touches [OF e(3)] touchesD [OF e(3)] o
      by (auto simp: alloc_inv_def kinv_def meta_blocks_def)
  next
    case c
    have fr: "b \<in> free_blocks s" by (rule next_fit_free [OF wf c(1)])
    note P = claimed_pool [OF wf(1) fr c(4)] and t = claimed_touches [OF c(4)]
    have lt: "b < fi_size (info s)" using fr by (simp add: free_blocks_def)
    have o: "cache s' x = cache s x" if "x \<notin> free_blocks s" "x \<notin> frame_bits fr" for x
      by (rule touches_cache [OF t]) (use that fr bits bitmap_blocksI [OF lt] in auto)
    then show ?thesis
      using inv' inv P fr frame_touches [OF t] touchesD [OF t]
      by (auto simp: alloc_inv_def kinv_def meta_blocks_def)
  next
    case q
    note t = quiet_touches [OF q(3), of "{}"]
    show ?thesis
      using inv' inv q frame_touches [OF t] quietD [OF q(3)]
      by (auto simp: alloc_inv_def kinv_def meta_blocks_def free_blocks_def quiet_used)
  qed
qed

interpretation kdev: checker_dev modcheck cache free_blocks meta_blocks "frame_bits fr" refs "kinv fr" for fr
proof unfold_locales
  fix s s' :: fs and b r
  assume "kinv fr s" "ck_bread modcheck b s = (r, s')"
  then show "cache s' = cache s \<and> free_blocks s' = free_blocks s \<and> meta_blocks s' = meta_blocks s \<and> kinv fr s'
      \<and> (r = None \<and> refs s' = refs s \<or> r = Some b \<and> refs s' = (refs s)(b := refs s b + 1))"
    by (auto simp: modcheck_def checker_bread_def sb_bread_def split: if_splits)
next
  fix s :: fs and b
  show "ck_bdata modcheck b s = cache s b"
    by (simp add: modcheck_def checker_data_def b_data_def)
next
  fix s s' :: fs and b d
  assume "kinv fr s" "b \<notin> meta_blocks s" "s' = ck_bstore modcheck b d s"
  then show "cache s' = (cache s)(b := d) \<and> free_blocks s' = free_blocks s \<and> meta_blocks s' = meta_blocks s
      \<and> refs s' = refs s \<and> kinv fr s'"
    by (simp add: modcheck_def b_store_def pool_store kinv_def [of fr s])
next
  fix s s' :: fs and b
  assume "kinv fr s" "s' = ck_brelse modcheck b s"
  then show "cache s' = cache s \<and> free_blocks s' = free_blocks s \<and> meta_blocks s' = meta_blocks s
      \<and> refs s' = (refs s)(b := refs s b - 1) \<and> kinv fr s'"
    by (simp add: modcheck_def checker_brelse_def brelse_def)
next
  fix s s' :: fs and b e
  assume "kinv fr s" "ck_bflush modcheck b s = (e, s')"
  then show "cache s' = cache s \<and> free_blocks s' = free_blocks s \<and> meta_blocks s' = meta_blocks s
      \<and> refs s' = refs s \<and> kinv fr s'"
    by (auto simp: modcheck_def checker_bflush_def mark_buffer_dirty_def sync_dirty_buffer_def Let_def
        split: if_splits)
next
  fix s s' :: fs and e b
  assume "kinv fr s" "ck_balloc modcheck 0 s = Some (e, b, s')"
  then show "kinv fr s' \<and> meta_blocks s' = meta_blocks s \<and> refs s' = refs s \<and> free_blocks s' \<subseteq> free_blocks s
      \<and> (\<forall>x. x \<notin> free_blocks s \<longrightarrow> x \<notin> frame_bits fr \<longrightarrow> cache s' x = cache s x)
      \<and> (b \<noteq> 0 \<longrightarrow> b \<in> free_blocks s \<and> b \<notin> free_blocks s' \<and> cache s' b = zero_block
           \<and> (e = 0 \<longrightarrow> free_blocks s \<subseteq> insert b (free_blocks s')))"
    using balloc_device [of fr s e b s'] by (simp add: modcheck_def)
next
  fix s :: fs
  assume k: "kinv fr s"
  then show "frame_bits fr \<subseteq> meta_blocks s"
    unfolding frame_bits_kinv [OF k] by (intro bitmap_blocks_meta) (simp add: kinv_def)
next
  fix s :: fs
  show "free_blocks s \<inter> meta_blocks s = {}"
    by (auto simp: free_blocks_def meta_blocks_def data_block_def)
next
  fix s :: fs
  assume "kinv fr s"
  then show "0 \<notin> free_blocks s" using free_nonzero [of s 0] by (auto simp: kinv_def)
qed

text \<open>A run on a file of the mounted file system, in terms of the state.\<close>

lemma evolves_frame:
  assumes "kdev.evolves (frame_of s) s a s' a'"
  shows "frame_of s' = frame_of s" "hint_ok s'" "\<not> balloc_lock s'" "wf_geom (info s')" "refs s' = refs s"
    "meta_blocks s' = meta_blocks s" "free_blocks s' \<subseteq> free_blocks s"
    "inodes s' = inodes s" "info s' = info s" "rdonly s' = rdonly s" "env s' = env s"
    "\<And>x. x \<notin> free_blocks s \<Longrightarrow> x \<notin> bitmap_blocks (info s) \<Longrightarrow> x \<notin> owned (cache s) a \<Longrightarrow> cache s' x = cache s x"
proof -
  have k: "kinv (frame_of s) s'" by (rule kdev.evolvesD(1) [OF assms])
  then show f: "frame_of s' = frame_of s" and "hint_ok s'" "\<not> balloc_lock s'" "wf_geom (info s')"
    by (auto simp: kinv_def)
  show "inodes s' = inodes s" "info s' = info s" "rdonly s' = rdonly s" "env s' = env s"
    using f by (simp_all add: frame_of_def)
  show "refs s' = refs s" "meta_blocks s' = meta_blocks s" "free_blocks s' \<subseteq> free_blocks s"
    using kdev.evolvesD(2-4) [OF assms] by simp_all
  show "cache s' x = cache s x" if "x \<notin> free_blocks s" "x \<notin> bitmap_blocks (info s)" "x \<notin> owned (cache s) a" for x
    by (rule kdev.evolvesD(6) [OF assms]) (use that in \<open>simp_all add: frame_info\<close>)
qed

text \<open>On a disk with a single bitmap block no allocation hangs.\<close>

lemma balloc_total:
  assumes "kinv fr s" "fi_size (info s) \<le> 8192"
  shows "xv6_balloc 0 s \<noteq> None"
proof (cases "rdonly s")
  case True
  then show ?thesis using assms(1) by (simp add: balloc_rdonly kinv_def)
next
  case False
  have l: "\<not> balloc_lock s" using assms(1) by (simp add: kinv_def)
  let ?s = "s\<lparr>balloc_lock := True\<rparr>"
  have "wf_geom (info ?s)" "hint_ok ?s" "\<not> rdonly ?s" "fi_size (info ?s) \<le> 8192"
    using assms False by (auto simp: kinv_def hint_ok_def hint_of_def)
  from unsafe_returns [OF this, of 0] obtain e b t where "xv6_balloc_unsafe 0 ?s = Some (e, b, t)" by auto
  then show ?thesis by (simp add: balloc_unfold [OF l])
qed

end
