(* ===== verification/Inode_Tree.thy ===== *)
theory Inode_Tree
  imports Modcheck
begin

text \<open>
  The tree of active inodes (\<^verbatim>\<open>super.c\<close>): allocation and release of in-memory inodes and
  the lookup by inode number. The red-black tree is the list of its nodes in order; a node is
  the reference of its inode. \<^verbatim>\<open>rb_find\<close> returns a node with the key, \<^verbatim>\<open>rb_add\<close>
  puts a node after every node that is not greater.
\<close>

section \<open>The operations\<close>

definition upd_inode :: "iref \<Rightarrow> (vinode \<Rightarrow> vinode) \<Rightarrow> fs \<Rightarrow> fs" where
  "upd_inode ino f s = s\<lparr>inodes := (inodes s)(ino := f (inodes s ino))\<rparr>"

definition xv6_rb_cmp :: "u32 \<Rightarrow> iref \<Rightarrow> fs \<Rightarrow> int" where
  "xv6_rb_cmp key node s =
     (if key < i_ino (inodes s node) then -1 else if key > i_ino (inodes s node) then 1 else 0)"

definition xv6_rb_less :: "iref \<Rightarrow> iref \<Rightarrow> fs \<Rightarrow> bool" where
  "xv6_rb_less node1 node2 s = (i_ino (inodes s node1) < i_ino (inodes s node2))"

definition rb_find :: "u32 \<Rightarrow> fs \<Rightarrow> iref option" where
  "rb_find key s = find (\<lambda>node. xv6_rb_cmp key node s = 0) (inode_tree s)"

definition rb_add :: "iref \<Rightarrow> fs \<Rightarrow> fs" where
  "rb_add node s = s\<lparr>inode_tree :=
     takeWhile (\<lambda>x. \<not> xv6_rb_less node x s) (inode_tree s) @ [node]
     @ dropWhile (\<lambda>x. \<not> xv6_rb_less node x s) (inode_tree s)\<rparr>"

definition rb_erase :: "iref \<Rightarrow> fs \<Rightarrow> fs" where
  "rb_erase node s = s\<lparr>inode_tree := remove1 node (inode_tree s)\<rparr>"

definition mutex_lock_itree :: "fs \<Rightarrow> fs option" where
  "mutex_lock_itree s = (if itree_lock s then None else Some (s\<lparr>itree_lock := True\<rparr>))"

definition mutex_unlock_itree :: "fs \<Rightarrow> fs" where
  "mutex_unlock_itree s = s\<lparr>itree_lock := False\<rparr>"

text \<open>\<^verbatim>\<open>alloc_inode_sb\<close> takes an unused object of the cache, or fails.\<close>

definition xv6_alloc_inode :: "fs \<Rightarrow> iref option \<times> fs" where
  "xv6_alloc_inode s =
     (if env_alloc (env s) (now s)
      then let xi = next_iref s
           in (Some xi, s\<lparr>now := Suc (now s), next_iref := Suc xi, refcount := (refcount s)(xi := 1)\<rparr>)
      else (None, tick s))"

text \<open>The kernel's \<^verbatim>\<open>new_inode\<close> calls \<^verbatim>\<open>alloc_inode\<close> and initialises the members.\<close>

definition new_inode :: "fs \<Rightarrow> iref option \<times> fs" where
  "new_inode s = (case xv6_alloc_inode s of
     (None, s) \<Rightarrow> (None, s)
   | (Some xi, s) \<Rightarrow> (Some xi, upd_inode xi (\<lambda>_. sample_inode) s))"

definition xv6_find_inode :: "u32 \<Rightarrow> fs \<Rightarrow> (iref option \<times> bool \<times> fs) option" where
  "xv6_find_inode inum s =
     (if inum = 0 then (let (ino, s) = xv6_alloc_inode s in Some (ino, False, s))
      else do {
        s \<leftarrow> mutex_lock_itree s;
        case rb_find inum s of
          Some xi \<Rightarrow>
            (let s = s\<lparr>refcount := (refcount s)(xi := refcount s xi + 1)\<rparr>
             in Some (Some xi, True, mutex_unlock_itree s))
        | None \<Rightarrow>
            (case new_inode s of
               (None, s) \<Rightarrow> Some (None, False, mutex_unlock_itree s)
             | (Some xi, s) \<Rightarrow>
                 (let s = s\<lparr>refcount := (refcount s)(xi := 1)\<rparr>;
                      s = upd_inode xi (\<lambda>i. i\<lparr>i_ino := inum\<rparr>) s;
                      s = rb_add xi s
                  in Some (Some xi, False, mutex_unlock_itree s)))
      })"

definition xv6_free_inode :: "iref \<Rightarrow> fs \<Rightarrow> fs option" where
  "xv6_free_inode xi s = do {
     let inum = i_ino (inodes s xi);
     s \<leftarrow> mutex_lock_itree s;
     let s = s\<lparr>refcount := (refcount s)(xi := refcount s xi - 1)\<rparr>;
     if refcount s xi > 0 then Some (mutex_unlock_itree s)
     else case rb_find inum s of
       Some node \<Rightarrow> do {
         let s = rb_erase node s;
         _ \<leftarrow> xv6_assert (node = xi);
         Some (mutex_unlock_itree s)
       }
     | None \<Rightarrow> Some (mutex_unlock_itree s)
   }"

definition xv6_evict_inode :: "iref \<Rightarrow> fs \<Rightarrow> fs" where
  "xv6_evict_inode ino s = upd_inode ino (\<lambda>i. i\<lparr>i_private := None\<rparr>) s"

text \<open>Dropping the last reference of an inode: the kernel evicts it and frees the object.\<close>

definition iput_last :: "iref \<Rightarrow> fs \<Rightarrow> fs option" where
  "iput_last ino s = xv6_free_inode ino (xv6_evict_inode ino s)"

section \<open>The tree as a map\<close>

text \<open>
  The invariant: nodes in strictly increasing order of inode number (so at most one inode per
  number), live objects only, reference counts positive.
\<close>

definition tree_key :: "fs \<Rightarrow> iref \<Rightarrow> u32" where
  "tree_key s r = i_ino (inodes s r)"

definition tree_inv :: "fs \<Rightarrow> bool" where
  "tree_inv s \<longleftrightarrow> sorted_wrt (\<lambda>a b. tree_key s a < tree_key s b) (inode_tree s)
     \<and> (\<forall>r \<in> set (inode_tree s). r < next_iref s \<and> 0 < refcount s r \<and> tree_key s r \<noteq> 0)
     \<and> \<not> itree_lock s"

definition tree_map :: "fs \<Rightarrow> u32 \<Rightarrow> iref option" where
  "tree_map s k = rb_find k s"

lemma rb_cmp_0 [simp]: "xv6_rb_cmp k r s = 0 \<longleftrightarrow> tree_key s r = k"
  by (auto simp: xv6_rb_cmp_def tree_key_def)

lemma find_key_unique:
  assumes "sorted_wrt (\<lambda>a b. key a < (key b :: u32)) xs" "x \<in> set xs"
  shows "find (\<lambda>r. key r = key x) xs = Some x"
  using assms
proof (induction xs)
  case (Cons y ys)
  then show ?case by (cases "key y = key x") auto
qed simp

lemma rb_find_Some:
  assumes "tree_inv s"
  shows "rb_find k s = Some r \<longleftrightarrow> r \<in> set (inode_tree s) \<and> tree_key s r = k"
proof -
  have f: "rb_find k s = find (\<lambda>r. tree_key s r = k) (inode_tree s)"
    by (simp add: rb_find_def)
  show ?thesis
  proof
    assume "rb_find k s = Some r"
    then show "r \<in> set (inode_tree s) \<and> tree_key s r = k"
      unfolding f by (auto simp: find_Some_iff)
  next
    assume "r \<in> set (inode_tree s) \<and> tree_key s r = k"
    then show "rb_find k s = Some r"
      unfolding f using find_key_unique [of "tree_key s" "inode_tree s" r] assms by (auto simp: tree_inv_def)
  qed
qed

lemma rb_find_None: "rb_find k s = None \<longleftrightarrow> (\<forall>r \<in> set (inode_tree s). tree_key s r \<noteq> k)"
  by (auto simp: rb_find_def find_None_iff)

lemma split_sorted:
  assumes "sorted_wrt (\<lambda>a b. key a < (key b :: u32)) xs" "\<forall>x \<in> set xs. key x \<noteq> key r"
  shows "sorted_wrt (\<lambda>a b. key a < key b)
    (takeWhile (\<lambda>x. \<not> key r < key x) xs @ [r] @ dropWhile (\<lambda>x. \<not> key r < key x) xs)"
  using assms
proof (induction xs)
  case (Cons y ys)
  show ?case
  proof (cases "key r < key y")
    case True
    with Cons.prems show ?thesis by (auto intro: order.strict_trans)
  next
    case False
    with Cons.prems have "key y < key r" by auto
    moreover have "set (takeWhile P ys) \<union> set (dropWhile P ys) = set ys" for P
      by (metis set_append takeWhile_dropWhile_id)
    ultimately show ?thesis using False Cons by (auto dest: set_takeWhileD set_dropWhileD)
  qed
qed simp

lemma set_rb_add: "set (inode_tree (rb_add r s)) = insert r (set (inode_tree s))"
proof -
  have "set (takeWhile P ys) \<union> set (dropWhile P ys) = set ys" for P and ys :: "iref list"
    by (metis set_append takeWhile_dropWhile_id)
  then show ?thesis by (auto simp: rb_add_def)
qed

lemma tree_map_add:
  assumes inv: "tree_inv s" and new: "xi \<notin> set (inode_tree s)" "xi < next_iref s" "0 < refcount s xi"
    and k: "tree_key s xi = k" "k \<noteq> 0" "rb_find k s = None"
  shows "tree_inv (rb_add xi s)" "tree_map (rb_add xi s) = (tree_map s)(k \<mapsto> xi)"
proof -
  have key: "tree_key (rb_add xi s) = tree_key s" by (simp add: tree_key_def [abs_def] rb_add_def)
  have "sorted_wrt (\<lambda>a b. tree_key s a < tree_key s b) (inode_tree (rb_add xi s))"
    using split_sorted [of "tree_key s" "inode_tree s" xi] inv k
    by (simp add: tree_inv_def rb_find_None rb_add_def xv6_rb_less_def tree_key_def)
  moreover have "next_iref (rb_add xi s) = next_iref s" "refcount (rb_add xi s) = refcount s"
      "itree_lock (rb_add xi s) = itree_lock s"
    by (simp_all add: rb_add_def)
  ultimately show inv': "tree_inv (rb_add xi s)"
    using inv new k by (auto simp: tree_inv_def key set_rb_add)
  show "tree_map (rb_add xi s) = (tree_map s)(k \<mapsto> xi)"
  proof
    fix q
    have "rb_find q (rb_add xi s) = Some r \<longleftrightarrow> ((tree_map s)(k \<mapsto> xi)) q = Some r" for r
      using rb_find_Some [OF inv'] rb_find_Some [OF inv] k
      by (auto simp: key set_rb_add tree_map_def rb_find_None)
    then show "tree_map (rb_add xi s) q = ((tree_map s)(k \<mapsto> xi)) q"
      unfolding tree_map_def by (metis option.exhaust)
  qed
qed

lemma tree_map_cong:
  "inode_tree s' = inode_tree s \<Longrightarrow> (\<And>r. r \<in> set (inode_tree s) \<Longrightarrow> tree_key s' r = tree_key s r) \<Longrightarrow>
   tree_map s' = tree_map s"
  by (auto simp: tree_map_def rb_find_def fun_eq_iff cong: find_cong)

lemma tree_inv_cong:
  "inode_tree s' = inode_tree s \<Longrightarrow> (\<And>r. r \<in> set (inode_tree s) \<Longrightarrow> tree_key s' r = tree_key s r) \<Longrightarrow>
   next_iref s \<le> next_iref s' \<Longrightarrow> (\<And>r. r \<in> set (inode_tree s) \<Longrightarrow> 0 < refcount s' r) \<Longrightarrow>
   \<not> itree_lock s' \<Longrightarrow> tree_inv s \<Longrightarrow> tree_inv s'"
  unfolding tree_inv_def
  by (auto elim!: sorted_wrt_mono_rel [rotated] intro: order_less_le_trans)

lemma sorted_key_distinct: "sorted_wrt (\<lambda>a b. key a < (key b :: u32)) xs \<Longrightarrow> distinct xs"
  by (induction xs) auto

lemma sorted_key_remove1:
  "sorted_wrt (\<lambda>a b. key a < (key b :: u32)) xs \<Longrightarrow> sorted_wrt (\<lambda>a b. key a < key b) (remove1 x xs)"
  by (induction xs) (auto dest: notin_set_remove1 set_remove1_subset [THEN subsetD])

lemma tree_map_erase:
  assumes inv: "tree_inv s" and r: "r \<in> set (inode_tree s)" "tree_key s r = k"
  shows "tree_inv (rb_erase r s)" "tree_map (rb_erase r s) = (tree_map s)(k := None)"
proof -
  have key: "tree_key (rb_erase r s) = tree_key s" by (simp add: tree_key_def [abs_def] rb_erase_def)
  have srt: "sorted_wrt (\<lambda>a b. tree_key s a < tree_key s b) (inode_tree s)"
    using inv by (simp add: tree_inv_def)
  then have d: "distinct (inode_tree s)"
    by (rule sorted_key_distinct)
  have set: "set (inode_tree (rb_erase r s)) = set (inode_tree s) - {r}"
    using d by (simp add: rb_erase_def)
  have "sorted_wrt (\<lambda>a b. tree_key s a < tree_key s b) (remove1 r (inode_tree s))"
    using srt by (rule sorted_key_remove1)
  then have "sorted_wrt (\<lambda>a b. tree_key s a < tree_key s b) (inode_tree (rb_erase r s))"
    by (simp add: rb_erase_def)
  moreover have "next_iref (rb_erase r s) = next_iref s" "refcount (rb_erase r s) = refcount s"
      "itree_lock (rb_erase r s) = itree_lock s"
    by (simp_all add: rb_erase_def)
  ultimately show inv': "tree_inv (rb_erase r s)"
    unfolding tree_inv_def key set using inv by (auto simp: tree_inv_def)
  have uniq: "q = r" if "q \<in> set (inode_tree s)" "tree_key s q = k" for q
    using rb_find_Some [OF inv] that r by (metis option.inject)
  show "tree_map (rb_erase r s) = (tree_map s)(k := None)"
  proof
    fix q
    have "rb_find q (rb_erase r s) = Some x \<longleftrightarrow> ((tree_map s)(k := None)) q = Some x" for x
    proof -
      have "rb_find q (rb_erase r s) = Some x \<longleftrightarrow> x \<in> set (inode_tree s) \<and> x \<noteq> r \<and> tree_key s x = q"
        unfolding rb_find_Some [OF inv'] key set by blast
      moreover have "tree_map s q = Some x \<longleftrightarrow> x \<in> set (inode_tree s) \<and> tree_key s x = q"
        unfolding tree_map_def by (rule rb_find_Some [OF inv])
      ultimately show ?thesis using uniq [of x] r by (cases "q = k") auto
    qed
    then show "tree_map (rb_erase r s) q = ((tree_map s)(k := None)) q"
      unfolding tree_map_def by (metis option.exhaust)
  qed
qed

section \<open>Properties\<close>

lemma sample_tree_inv: "tree_inv sample_fs"
  by (simp add: tree_inv_def sample_defs)

lemma find_inode_map:
  assumes inv: "tree_inv s" and k: "k \<noteq> 0" and run: "xv6_find_inode k s = Some (r, found, s')"
  shows "tree_inv s' \<and> found = (tree_map s k \<noteq> None)
    \<and> (case tree_map s k of
         Some xi \<Rightarrow> r = Some xi \<and> tree_map s' = tree_map s
           \<and> refcount s' = (refcount s)(xi := refcount s xi + 1) \<and> inodes s' = inodes s
       | None \<Rightarrow> r = None \<and> tree_map s' = tree_map s
           \<or> (\<exists>xi. r = Some xi \<and> xi \<notin> set (inode_tree s) \<and> tree_map s' = (tree_map s)(k \<mapsto> xi)
               \<and> refcount s' xi = 1 \<and> i_ino (inodes s' xi) = k
               \<and> (\<forall>y. y \<noteq> xi \<longrightarrow> inodes s' y = inodes s y)))"
proof -
  have nl: "\<not> itree_lock s" using inv by (simp add: tree_inv_def)
  let ?s = "s\<lparr>itree_lock := True\<rparr>"
  have unlock: "s\<lparr>refcount := R, itree_lock := False\<rparr> = s\<lparr>refcount := R\<rparr>"
      "s\<lparr>itree_lock := False, now := n\<rparr> = s\<lparr>now := n\<rparr>"
      "s\<lparr>now := n, itree_lock := False\<rparr> = s\<lparr>now := n\<rparr>" for R n
    using nl by (cases s; simp)+
  have fnd: "rb_find k ?s = tree_map s k"
    by (simp add: rb_find_def tree_map_def tree_key_def)
  show ?thesis
  proof (cases "tree_map s k")
    case (Some xi)
    let ?s' = "s\<lparr>refcount := (refcount s)(xi := refcount s xi + 1)\<rparr>"
    have res: "r = Some xi" "found" "s' = ?s'"
      using run k nl fnd Some
      by (auto simp: xv6_find_inode_def mutex_lock_itree_def mutex_unlock_itree_def Let_def unlock)
    have "tree_map ?s' = tree_map s" by (rule tree_map_cong) (simp_all add: tree_key_def)
    moreover have "tree_inv ?s'"
      by (rule tree_inv_cong [of _ s]) (use inv in \<open>auto simp: tree_key_def tree_inv_def\<close>)
    ultimately show ?thesis using res Some by simp
  next
    case None
    show ?thesis
    proof (cases "env_alloc (env s) (now s)")
      case False
      let ?s' = "s\<lparr>now := Suc (now s)\<rparr>"
      have res: "r = None" "\<not> found" "s' = ?s'"
        using run k nl fnd None False
        by (auto simp: xv6_find_inode_def mutex_lock_itree_def mutex_unlock_itree_def Let_def
            new_inode_def xv6_alloc_inode_def tick_def unlock)
      have "tree_map ?s' = tree_map s" by (rule tree_map_cong) (simp_all add: tree_key_def)
      moreover have "tree_inv ?s'"
        by (rule tree_inv_cong [of _ s]) (use inv in \<open>auto simp: tree_key_def tree_inv_def\<close>)
      ultimately show ?thesis using res None by simp
    next
      case True
      let ?xi = "next_iref s"
      let ?s1 = "s\<lparr>now := Suc (now s), next_iref := Suc ?xi, refcount := (refcount s)(?xi := 1),
        inodes := (inodes s)(?xi := sample_inode\<lparr>i_ino := k\<rparr>)\<rparr>"
      have eq: "mutex_unlock_itree (rb_add ?xi (?s1\<lparr>itree_lock := True\<rparr>)) = rb_add ?xi ?s1"
        using nl by (cases s) (simp add: mutex_unlock_itree_def rb_add_def xv6_rb_less_def)
      have res: "r = Some ?xi" "\<not> found" "s' = rb_add ?xi ?s1"
        using run k nl fnd None True
        by (auto simp: xv6_find_inode_def mutex_lock_itree_def Let_def
            new_inode_def xv6_alloc_inode_def upd_inode_def fun_upd_twist eq [symmetric] intro!: arg_cong [where f = mutex_unlock_itree] arg_cong [where f = "rb_add _"])
      have fresh: "?xi \<notin> set (inode_tree s)" using inv by (auto simp: tree_inv_def)
      have same: "tree_key ?s1 q = tree_key s q" if "q \<in> set (inode_tree s)" for q
        using that fresh by (auto simp: tree_key_def)
      have i1: "tree_inv ?s1"
        by (rule tree_inv_cong [of _ s]) (use inv same in \<open>auto simp: tree_inv_def\<close>)
      have m1: "tree_map ?s1 = tree_map s" by (rule tree_map_cong) (simp_all add: same)
      have key: "tree_key ?s1 ?xi = k" by (simp add: tree_key_def)
      have "rb_find k ?s1 = None" using fun_cong [OF m1, of k] None unfolding tree_map_def by simp
      from tree_map_add [OF i1 _ _ _ key k this]
      have "tree_inv (rb_add ?xi ?s1)" "tree_map (rb_add ?xi ?s1) = (tree_map s)(k \<mapsto> ?xi)"
        using fresh m1 by simp_all
      then show ?thesis using res None fresh by (simp add: rb_add_def)
    qed
  qed
qed

text \<open>
  C17. \<^verbatim>\<open>xv6_find_inode\<close> implements lookup-or-insert on the map from inode numbers to
  active inodes: a number in the map yields the inode it is mapped to, with one more reference;
  any other number yields a new object with one reference, added under that number, or no inode
  (out of memory) and the same map. The tree stays ordered without duplicates.
\<close>

theorem find_inode_refines_map:
  assumes inv: "tree_inv s" and k: "k \<noteq> 0" and run: "xv6_find_inode k s = Some (r, found, s')"
  shows "tree_inv s' \<and> found = (tree_map s k \<noteq> None)
    \<and> (case tree_map s k of
         Some xi \<Rightarrow> r = Some xi \<and> tree_map s' = tree_map s
           \<and> refcount s' = (refcount s)(xi := refcount s xi + 1) \<and> inodes s' = inodes s
       | None \<Rightarrow> r = None \<and> tree_map s' = tree_map s
           \<or> (\<exists>xi. r = Some xi \<and> xi \<notin> set (inode_tree s) \<and> tree_map s' = (tree_map s)(k \<mapsto> xi)
               \<and> refcount s' xi = 1 \<and> i_ino (inodes s' xi) = k
               \<and> (\<forall>y. y \<noteq> xi \<longrightarrow> inodes s' y = inodes s y)))"
  by (rule find_inode_map [OF assms])

lemma sample_find: "\<exists>s'. xv6_find_inode 7 sample_fs = Some (Some 0, False, s')"
  by (simp add: xv6_find_inode_def mutex_lock_itree_def rb_find_def new_inode_def xv6_alloc_inode_def
      sample_defs Let_def)

theorem find_inode_refines_map_witness:
  "\<exists>s'. xv6_find_inode 7 sample_fs = Some (Some 0, False, s') \<and> tree_map s' 7 = Some 0 \<and> tree_inv s'"
proof -
  obtain s' where r: "xv6_find_inode 7 sample_fs = Some (Some 0, False, s')" using sample_find by blast
  have "tree_map sample_fs 7 = None" by (simp add: tree_map_def rb_find_def sample_defs)
  with find_inode_refines_map [OF sample_tree_inv _ r] r show ?thesis by auto
qed

lemma free_inode_cases:
  assumes inv: "tree_inv s" and xi: "xi \<in> set (inode_tree s)"
  shows "\<exists>s'. xv6_free_inode xi s = Some s' \<and> tree_inv s'
    \<and> tree_map s' = (if refcount s xi = 1 then (tree_map s)(tree_key s xi := None) else tree_map s)
    \<and> refcount s' = (refcount s)(xi := refcount s xi - 1)"
proof -
  have nl: "\<not> itree_lock s" and pos: "0 < refcount s xi" using inv xi by (auto simp: tree_inv_def)
  let ?R = "(refcount s)(xi := refcount s xi - 1)"
  have m: "tree_map (s\<lparr>refcount := ?R\<rparr>) = tree_map s"
    by (rule tree_map_cong) (simp_all add: tree_key_def)
  have unlock: "s\<lparr>itree_lock := True, refcount := ?R, itree_lock := False\<rparr> = s\<lparr>refcount := ?R\<rparr>"
    using nl by (cases s) simp
  show ?thesis
  proof (cases "refcount s xi = 1")
    case False
    then have "xv6_free_inode xi s = Some (s\<lparr>refcount := ?R\<rparr>)"
      using nl pos unlock by (simp add: xv6_free_inode_def mutex_lock_itree_def mutex_unlock_itree_def Let_def)
    moreover have "tree_inv (s\<lparr>refcount := ?R\<rparr>)"
      by (rule tree_inv_cong [of _ s]) (use inv False pos in \<open>auto simp: tree_key_def tree_inv_def\<close>)
    ultimately show ?thesis using m False by simp
  next
    case True
    let ?t = "rb_erase xi s"
    have fnd: "rb_find (i_ino (inodes s xi)) (s\<lparr>itree_lock := True, refcount := ?R\<rparr>) = Some xi"
      using rb_find_Some [OF inv, of "tree_key s xi" xi] xi by (simp add: rb_find_def tree_key_def)
    have res: "xv6_free_inode xi s = Some (?t\<lparr>refcount := ?R\<rparr>)"
      using nl True fnd by (cases s)
        (simp add: xv6_free_inode_def mutex_lock_itree_def mutex_unlock_itree_def Let_def rb_erase_def)
    note E = tree_map_erase [OF inv xi refl]
    have "xi \<notin> set (inode_tree ?t)"
      using inv by (auto simp: rb_erase_def tree_inv_def dest!: sorted_key_distinct)
    then have "tree_inv (?t\<lparr>refcount := ?R\<rparr>)"
      by (intro tree_inv_cong [OF _ _ _ _ _ E(1)]) (use E(1) in \<open>auto simp: tree_key_def tree_inv_def rb_erase_def\<close>)
    moreover have "tree_map (?t\<lparr>refcount := ?R\<rparr>) = tree_map ?t"
      by (rule tree_map_cong) (simp_all add: tree_key_def)
    ultimately show ?thesis using res E(2) True by simp
  qed
qed

text \<open>
  C22. \<^verbatim>\<open>xv6_free_inode\<close> on an inode of the tree returns, drops one reference, and removes
  the inode from the map exactly when it was the last one; the tree invariant holds again.
\<close>

theorem free_inode_refines_map:
  assumes "tree_inv s" and "xi \<in> set (inode_tree s)"
  shows "\<exists>s'. xv6_free_inode xi s = Some s' \<and> tree_inv s'
    \<and> tree_map s' = (if refcount s xi = 1 then (tree_map s)(i_ino (inodes s xi) := None) else tree_map s)
    \<and> refcount s' = (refcount s)(xi := refcount s xi - 1)"
  by (rule free_inode_cases [OF assms, unfolded tree_key_def])

definition one_inode_fs :: fs where
  "one_inode_fs = sample_fs\<lparr>inode_tree := [0], next_iref := 1, refcount := (\<lambda>_. 1),
     inodes := (\<lambda>_. sample_inode\<lparr>i_ino := 7\<rparr>)\<rparr>"

lemma one_inode_inv: "tree_inv one_inode_fs"
  by (simp add: tree_inv_def one_inode_fs_def sample_defs tree_key_def)

theorem free_inode_refines_map_witness:
  "\<exists>s'. xv6_free_inode 0 one_inode_fs = Some s' \<and> tree_map s' 7 = None"
proof -
  have "0 \<in> set (inode_tree one_inode_fs)" by (simp add: one_inode_fs_def)
  from free_inode_refines_map [OF one_inode_inv this] show ?thesis
    by (auto simp: one_inode_fs_def)
qed

text \<open>
  Looking an inode up and dropping the reference again leaves the map of active inodes as
  it was, whether the inode was active or had to be created.
\<close>

lemma find_free_inode_roundtrip:
  assumes inv: "tree_inv s" and k: "k \<noteq> 0" and f: "xv6_find_inode k s = Some (Some xi, found, s1)"
  shows "\<exists>s2. xv6_free_inode xi s1 = Some s2 \<and> tree_map s2 = tree_map s \<and> tree_inv s2"
proof -
  obtain r where "xv6_find_inode k s = Some (r, found, s1)" "r = Some xi" using f by simp
  then have P: "tree_inv s1 \<and> (case tree_map s k of
         Some xi \<Rightarrow> r = Some xi \<and> tree_map s1 = tree_map s
           \<and> refcount s1 = (refcount s)(xi := refcount s xi + 1) \<and> inodes s1 = inodes s
       | None \<Rightarrow> r = None \<and> tree_map s1 = tree_map s
           \<or> (\<exists>xi. r = Some xi \<and> xi \<notin> set (inode_tree s) \<and> tree_map s1 = (tree_map s)(k \<mapsto> xi)
               \<and> refcount s1 xi = 1 \<and> i_ino (inodes s1 xi) = k
               \<and> (\<forall>y. y \<noteq> xi \<longrightarrow> inodes s1 y = inodes s y)))"
    using find_inode_map [OF inv k] by blast
  have m: "tree_map s1 k = Some xi \<and> (if tree_map s k = None then refcount s1 xi = 1 else refcount s1 xi \<noteq> 1)
      \<and> (tree_map s k \<noteq> None \<longrightarrow> tree_map s1 = tree_map s) \<and> (tree_map s k = None \<longrightarrow> tree_map s1 = (tree_map s)(k \<mapsto> xi))"
  proof (cases "tree_map s k")
    case None
    then show ?thesis using P \<open>r = Some xi\<close> by auto
  next
    case (Some y)
    then have "y \<in> set (inode_tree s)" using rb_find_Some [OF inv] by (simp add: tree_map_def)
    then have "0 < refcount s y" using inv by (auto simp: tree_inv_def)
    then show ?thesis using P Some \<open>r = Some xi\<close> by auto
  qed
  then have "xi \<in> set (inode_tree s1)" "tree_key s1 xi = k"
    using P rb_find_Some [of s1 k xi] by (auto simp: tree_map_def)
  from free_inode_cases [OF conjunct1 [OF P] this(1)] this(2) m show ?thesis
    by (cases "tree_map s k") (auto simp: fun_upd_idem)
qed

lemma find_free_inode_roundtrip_witness:
  "\<exists>s1 s2. xv6_find_inode 7 sample_fs = Some (Some 0, False, s1) \<and> xv6_free_inode 0 s1 = Some s2
     \<and> tree_map s2 = tree_map sample_fs"
proof -
  obtain s1 where r: "xv6_find_inode 7 sample_fs = Some (Some 0, False, s1)" using sample_find by blast
  from find_free_inode_roundtrip [OF sample_tree_inv _ r] r show ?thesis by auto
qed

end
