(* ===== verification/Inode.thy ===== *)
theory Inode
  imports Inode_Tree
begin

text \<open>
  \<^verbatim>\<open>inode.c\<close>, with \<^verbatim>\<open>xv6_dget\<close> and \<^verbatim>\<open>xv6_init_ictx\<close> of \<^verbatim>\<open>dir.c\<close> which it
  uses: allocation of on-disk inodes, loading and storing them, the blocks of a file, and the
  comparison of names. \<^verbatim>\<open>xv6_create\<close> and \<^verbatim>\<open>xv6_lookup\<close>, which work on directories,
  are in \<open>Namei\<close>.
\<close>

section \<open>The inode table\<close>

text \<open>
  \<^verbatim>\<open>xv6_ialloc\<close>: \<open>ialloc_slots\<close> is the loop over the slots of one block (its
  results are \<^verbatim>\<open>error\<close>, \<^verbatim>\<open>*inum\<close>, \<^verbatim>\<open>node\<close> and the state), \<open>ialloc_blocks\<close> the loop
  over the blocks of the table.
\<close>

function ialloc_slots :: "u32 \<Rightarrow> u32 \<Rightarrow> u32 \<Rightarrow> dinode option \<Rightarrow> fs \<Rightarrow> int \<times> u32 \<times> u32 \<times> fs" where
  "ialloc_slots bh i node dino s =
     (if i < IPB
      then if di_type (rd_dinode (b_data bh s) (unat i)) = 0
           then (let (error, s) =
                   (case dino of
                      None \<Rightarrow> (0, s)
                    | Some d \<Rightarrow>
                        (let s = b_store bh (wr_dinode (b_data bh s) (unat i) d) s;
                             s = mark_buffer_dirty bh s
                         in sync_dirty_buffer bh s))
                 in if error \<noteq> 0 then (error, 0, node, s) else (0, node, node, s))
           else ialloc_slots bh (i + 1) (node + 1) dino s
      else (0, 0, node, s))"
  by pat_completeness auto
termination
  by (relation "measure (\<lambda>(bh, i, node, dino, s). unat IPB - unat i)") (auto intro: measure_Suc)

function ialloc_blocks :: "u32 \<Rightarrow> u32 \<Rightarrow> u32 \<Rightarrow> u32 \<Rightarrow> dinode option \<Rightarrow> fs \<Rightarrow> int \<times> u32 \<times> fs" where
  "ialloc_blocks block blockend off node dino s =
     (if block < blockend
      then case sb_bread block s of
        (None, s) \<Rightarrow> (- EIO, 0, s)
      | (Some bh, s) \<Rightarrow>
          (let (error, inum, node, s) = ialloc_slots bh off node dino s;
               s = brelse bh s
           in if inum \<noteq> 0 \<or> error \<noteq> 0 then (error, inum, s)
              else ialloc_blocks (block + 1) blockend 0 node dino s)
      else (0, 0, s))"
  by pat_completeness auto
termination
  by (relation "measure (\<lambda>(block, blockend, off, node, dino, s). unat blockend - unat block)")
    (auto intro: measure_Suc)

declare ialloc_slots.simps [simp del] ialloc_blocks.simps [simp del]

definition xv6_ialloc :: "dinode option \<Rightarrow> fs \<Rightarrow> (int \<times> u32 \<times> fs) option" where
  "xv6_ialloc dino s = do {
     s \<leftarrow> xv6_lock_itable s;
     let (error, inum, s) = ialloc_blocks (fi_inodestart (info s)) (fi_bmapstart (info s)) (2 mod IPB) 2 dino s;
     let s = xv6_unlock_itable s;
     Some (if inum = 0 \<and> error = 0 then - ENOSPC else error, inum, s)
   }"

definition xv6_ifree :: "u32 \<Rightarrow> fs \<Rightarrow> (int \<times> fs) option" where
  "xv6_ifree inum s = do {
     s \<leftarrow> xv6_lock_itable s;
     let block = fi_inodestart (info s) + inum div IPB;
     case sb_bread block s of
       (None, s) \<Rightarrow> Some (- EIO, xv6_unlock_itable s)
     | (Some bh, s) \<Rightarrow>
         (let s = b_store bh (wr_dinode (b_data bh s) (unat (inum mod IPB)) zero_dinode) s;
              s = mark_buffer_dirty bh s;
              (error, s) = sync_dirty_buffer bh s;
              s = brelse bh s
          in Some (error, xv6_unlock_itable s))
   }"

section \<open>Names\<close>

text \<open>
  The kernel passes names as pointers into longer strings; the code reads them byte by byte.
  \<^verbatim>\<open>full_name_hash\<close> is the kernel's hash of a byte string.
\<close>

definition xv6_hash :: "(bytes \<Rightarrow> u32) \<Rightarrow> (nat \<Rightarrow> u8) \<Rightarrow> u32 \<Rightarrow> u32" where
  "xv6_hash full_name_hash xv6_name hash =
     (if xv6_name 0 \<noteq> 0 then full_name_hash (get xv6_name 0 DIRSIZ) else hash)"

fun xv6_cmp_loop :: "(nat \<Rightarrow> u8) \<Rightarrow> (nat \<Rightarrow> u8) \<Rightarrow> nat \<Rightarrow> nat \<Rightarrow> int" where
  "xv6_cmp_loop pa pb i 0 = 0"
| "xv6_cmp_loop pa pb i (Suc n) =
     (let a = pa i; b = pb i
      in if a \<noteq> b \<or> a = 0 then int (unat a) - int (unat b) else xv6_cmp_loop pa pb (i + 1) n)"

definition xv6_cmp :: "(nat \<Rightarrow> u8) \<Rightarrow> (nat \<Rightarrow> u8) \<Rightarrow> int" where
  "xv6_cmp str name = xv6_cmp_loop name str 0 DIRSIZ"

section \<open>Loading and storing an inode\<close>

definition S_IFMT :: u16 where "S_IFMT = 0xf000"
definition S_IFDIR :: u16 where "S_IFDIR = 0x4000"
definition S_IFREG :: u16 where "S_IFREG = 0x8000"
definition S_IRWXUGO :: u16 where "S_IRWXUGO = 0x1ff"
definition S_IWUGO :: u16 where "S_IWUGO = 0x92"

definition xv6_dget :: "iref \<Rightarrow> dinode \<Rightarrow> fs \<Rightarrow> (int \<times> dinode \<times> fs) option" where
  "xv6_dget dir dino s = do {
     let inum = i_ino (inodes s dir);
     _ \<leftarrow> xv6_assert (inum \<noteq> 0);
     let block = fi_inodestart (info s) + inum div IPB;
     case sb_bread block s of
       (None, s) \<Rightarrow> Some (- EIO, dino, s)
     | (Some bh, s) \<Rightarrow>
         (let dino = rd_dinode (b_data bh s) (unat (inum mod IPB)) in Some (0, dino, brelse bh s))
   }"

definition xv6_inode_ctx_init :: "iref \<Rightarrow> fs \<Rightarrow> xv6_inode_ctx" where
  "xv6_inode_ctx_init ino s = \<lparr>ic_addrs = [], ic_size = ucast (i_size (inodes s ino)), ic_dirty = False\<rparr>"

definition xv6_init_ictx :: "xv6_inode_ctx \<Rightarrow> iref \<Rightarrow> dinode \<Rightarrow> fs \<Rightarrow> (int \<times> xv6_inode_ctx \<times> fs) option" where
  "xv6_init_ictx ictx inode di s =
     (case i_private (inodes s inode) of
        Some addrs \<Rightarrow> Some (0, ictx\<lparr>ic_addrs := addrs\<rparr>, s)
      | None \<Rightarrow> do {
          (error, di, s) \<leftarrow> xv6_dget inode di s;
          if error \<noteq> 0 then Some (error, ictx, s) else Some (0, ictx\<lparr>ic_addrs := di_addrs di\<rparr>, s)
        })"

text \<open>
  \<^verbatim>\<open>ictx.addrs\<close> points into \<^verbatim>\<open>i_private\<close> when there is one: what \<^verbatim>\<open>fs.cpp\<close> stores
  through it is in the inode.
\<close>

definition ictx_alias :: "iref \<Rightarrow> xv6_inode_ctx \<Rightarrow> fs \<Rightarrow> fs" where
  "ictx_alias ino ictx s = (case i_private (inodes s ino) of
     None \<Rightarrow> s | Some _ \<Rightarrow> upd_inode ino (\<lambda>i. i\<lparr>i_private := Some (ic_addrs ictx)\<rparr>) s)"

definition mark_inode_dirty :: "iref \<Rightarrow> fs \<Rightarrow> fs" where
  "mark_inode_dirty ino s = upd_inode ino (\<lambda>i. i\<lparr>i_dirty := True\<rparr>) s"

definition xv6_sync_inode :: "iref \<Rightarrow> fs \<Rightarrow> (int \<times> fs) option" where
  "xv6_sync_inode ino s =
     (if rdonly s then Some (0, s)
      else do {
        let inum = i_ino (inodes s ino);
        _ \<leftarrow> xv6_assert (inum \<noteq> 0);
        let block = fi_inodestart (info s) + inum div IPB;
        case sb_bread block s of
          (None, s) \<Rightarrow> Some (- EIO, s)
        | (Some bh, s) \<Rightarrow>
            (let k = unat (inum mod IPB);
                 dptr = rd_dinode (b_data bh s) k;
                 dptr = (case i_private (inodes s ino) of
                    Some addrs \<Rightarrow> dptr\<lparr>di_addrs := addrs\<rparr> | None \<Rightarrow> dptr);
                 dptr = dptr\<lparr>di_size := ucast (i_size (inodes s ino)),
                   di_nlink := ucast (i_nlink (inodes s ino))\<rparr>;
                 s = b_store bh (wr_dinode (b_data bh s) k dptr) s;
                 s = mark_buffer_dirty bh s;
                 (error, s) = sync_dirty_buffer bh s
             in Some (error, brelse bh s))
      })"

definition xv6_write_inode :: "iref \<Rightarrow> fs \<Rightarrow> (int \<times> fs) option" where
  "xv6_write_inode ino s = do {
     _ \<leftarrow> xv6_assert (i_rwsem (inodes s ino) \<noteq> Exclusive);
     let sem = i_rwsem (inodes s ino);
     let s = upd_inode ino (\<lambda>i. i\<lparr>i_rwsem := Shared\<rparr>) s;
     (ret, s) \<leftarrow> xv6_sync_inode ino s;
     Some (ret, upd_inode ino (\<lambda>i. i\<lparr>i_rwsem := sem\<rparr>) s)
   }"

definition xv6_init_inode :: "iref \<Rightarrow> dinode \<Rightarrow> u32 \<Rightarrow> fs \<Rightarrow> int \<times> fs" where
  "xv6_init_inode ino dino inum s =
     (let s = upd_inode ino (\<lambda>i. i\<lparr>i_ino := inum, i_uid := fi_uid (info s), i_gid := fi_gid (info s),
            i_fop := XV6_FILE_OPS, i_rwsem := Unlocked,
            i_generation := env_random (env s) (now s)\<rparr>) s;
          s = tick s;
          s = upd_inode ino (\<lambda>i. i\<lparr>i_nlink := ucast (di_nlink dino)\<rparr>) s;
          mode = (if rdonly s then S_IRWXUGO AND NOT S_IWUGO else S_IRWXUGO);
          itype = di_type dino
      in if itype \<noteq> T_DIR \<and> itype \<noteq> T_FILE \<and> itype \<noteq> T_DEVICE then (- EINVAL, s)
         else
           (let s = (if itype = T_DIR
                 then upd_inode ino (\<lambda>i. i\<lparr>i_generation := i_generation i AND NOT 1, i_fop := XV6_DIRECTORY_OPS\<rparr>) s
                 else upd_inode ino (\<lambda>i. i\<lparr>i_generation := i_generation i OR 1\<rparr>) s);
                mode = (if itype = T_DIR then mode OR S_IFDIR else mode OR S_IFREG);
                s = upd_inode ino (\<lambda>i. i\<lparr>i_times := 0, i_mode := mode, i_size := ucast (di_size dino)\<rparr>) s
            in if \<not> env_alloc (env s) (now s) then (- ENOMEM, tick s)
               else (0, upd_inode ino (\<lambda>i. i\<lparr>i_private := Some (di_addrs dino)\<rparr>) (tick s))))"

definition xv6_iget :: "u32 \<Rightarrow> fs \<Rightarrow> ((int + iref) \<times> fs) option" where
  "xv6_iget inum s = do {
     _ \<leftarrow> xv6_assert (inum \<noteq> 0 \<and> inum < fi_ninodes (info s));
     let inode_block = fi_inodestart (info s) + inum div IPB;
     (inode, found, s) \<leftarrow> xv6_find_inode inum s;
     case inode of
       None \<Rightarrow> Some (Inl (- ENOMEM), s)
     | Some inode \<Rightarrow>
         if found then Some (Inr inode, s)
         else
           (let (error, s) =
              (case sb_bread inode_block s of
                 (None, s) \<Rightarrow> (- EIO, s)
               | (Some bh, s) \<Rightarrow>
                   (let disk_inode = rd_dinode (b_data bh s) (unat (inum mod IPB));
                        s = upd_inode inode (\<lambda>i. i\<lparr>i_ino := inum\<rparr>) s;
                        (error, s) = xv6_init_inode inode disk_inode inum s
                    in (error, brelse bh s)))
            in if error \<noteq> 0 then do { s \<leftarrow> iput_last inode s; Some (Inl error, s) }
               else Some (Inr inode, s))
   }"

section \<open>Blocks of a file\<close>

text \<open>The results are the error, \<^verbatim>\<open>*bhptr\<close> (a buffer held by the caller) and the state.\<close>

definition xv6_ictx_dirty :: "iref \<Rightarrow> xv6_inode_ctx \<Rightarrow> fs \<Rightarrow> (int \<times> fs) option" where
  "xv6_ictx_dirty inode ictx s =
     (if ic_dirty ictx
      then
        (let s = mark_inode_dirty inode s;
             s = upd_inode inode (\<lambda>i. i\<lparr>i_size := ucast (ic_size ictx)\<rparr>) s
         in if i_private (inodes s inode) = None
            then do {
              let s = upd_inode inode (\<lambda>i. i\<lparr>i_private := Some (ic_addrs ictx)\<rparr>) s;
              (error, s) \<leftarrow> xv6_sync_inode inode s;
              Some (error, upd_inode inode (\<lambda>i. i\<lparr>i_private := None\<rparr>) s)
            }
            else Some (0, s))
      else Some (0, s))"

definition xv6_inode_block :: "iref \<Rightarrow> u32 \<Rightarrow> fs \<Rightarrow> (int \<times> u32 option \<times> fs) option" where
  "xv6_inode_block ino i s = do {
     let ictx = xv6_inode_ctx_init ino s;
     (error, ictx, s) \<leftarrow> xv6_init_ictx ictx ino zero_dinode s;
     if error \<noteq> 0 then Some (error, None, s)
     else do {
       (error, blockno, ictx, s) \<leftarrow> xv6_inode_addr modcheck ictx i False s;
       let s = ictx_alias ino ictx s;
       if error \<noteq> 0 then Some (error, None, s)
       else do {
         let (bh, s) = (if blockno \<noteq> 0 then sb_bread blockno s else (None, s));
         let error = (if blockno \<noteq> 0 \<and> bh = None then - EIO else 0);
         _ \<leftarrow> xv6_assert (\<not> ic_dirty ictx);
         Some (error, bh, s)
       }
     }
   }"

definition xv6_inode_wblock :: "iref \<Rightarrow> u32 \<Rightarrow> fs \<Rightarrow> (int \<times> u32 option \<times> fs) option" where
  "xv6_inode_wblock ino i s = do {
     let ictx = xv6_inode_ctx_init ino s;
     (error, ictx, s) \<leftarrow> xv6_init_ictx ictx ino zero_dinode s;
     if error \<noteq> 0 then Some (error, None, s)
     else do {
       (error, blockno, ictx, s) \<leftarrow> xv6_inode_addr modcheck ictx i True s;
       let s = ictx_alias ino ictx s;
       if error \<noteq> 0 then Some (error, None, s)
       else do {
         let (bh, s) = (if blockno \<noteq> 0 then sb_bread blockno s else (None, s));
         let error = (if blockno \<noteq> 0 then (if bh = None then - EIO else 0) else - ENOSPC);
         (error, s) \<leftarrow> (if error = 0 then xv6_ictx_dirty ino ictx s else Some (error, s));
         Some (error, bh, s)
       }
     }
   }"

text \<open>\<^verbatim>\<open>xv6_inode_clear\<close>: free the direct blocks, then the indirect ones.\<close>

fun clear_direct :: "nat \<Rightarrow> u32 list \<Rightarrow> fs \<Rightarrow> (u32 list \<times> fs) option" where
  "clear_direct 0 addrs s = Some (addrs, s)"
| "clear_direct (Suc n) addrs s = do {
     let i = NDIRECT - Suc n;
     if addrs ! i \<noteq> 0
     then do { (_, s) \<leftarrow> xv6_bfree (addrs ! i) s; clear_direct n (addrs[i := 0]) s }
     else clear_direct n addrs s
   }"

fun clear_indirect :: "nat \<Rightarrow> u32 \<Rightarrow> fs \<Rightarrow> fs option" where
  "clear_indirect 0 bh s = Some s"
| "clear_indirect (Suc n) bh s = do {
     let a = rd32 (b_data bh s) (4 * (NINDIRECT - Suc n));
     if a \<noteq> 0 then do { (_, s) \<leftarrow> xv6_bfree a s; clear_indirect n bh s }
     else clear_indirect n bh s
   }"

definition set_private :: "iref \<Rightarrow> u32 list option \<Rightarrow> fs \<Rightarrow> fs" where
  "set_private ino p s = upd_inode ino (\<lambda>i. i\<lparr>i_private := p\<rparr>) s"

text \<open>Here too \<^verbatim>\<open>addrs\<close> points into \<^verbatim>\<open>i_private\<close> when there is one.\<close>

definition xv6_inode_clear :: "iref \<Rightarrow> fs \<Rightarrow> (int \<times> fs) option" where
  "xv6_inode_clear inode s = do {
     let private = i_private (inodes s inode);
     (error, addrs, s) \<leftarrow>
       (case private of
          None \<Rightarrow> do { (error, dino, s) \<leftarrow> xv6_dget inode zero_dinode s; Some (error, di_addrs dino, s) }
        | Some addrs \<Rightarrow> Some (0, addrs, s));
     if error \<noteq> 0 then Some (error, s)
     else do {
       (addrs, s) \<leftarrow> clear_direct NDIRECT addrs s;
       let s = (if private = None then s else set_private inode (Some addrs) s);
       let iaddr = addrs ! NDIRECT;
       (error, s) \<leftarrow>
         (if iaddr \<noteq> 0
          then case sb_bread iaddr s of
            (None, s) \<Rightarrow> Some (- EIO, s)
          | (Some bh, s) \<Rightarrow> do {
              s \<leftarrow> clear_indirect NINDIRECT bh s;
              let s = brelse bh s;
              (_, s) \<leftarrow> xv6_bfree iaddr s;
              Some (0, s)
            }
          else Some (0, s));
       if error \<noteq> 0 then Some (error, s)
       else do {
         let addrs = addrs[NDIRECT := 0];
         let s = (if private = None then s else set_private inode (Some addrs) s);
         let s = upd_inode inode (\<lambda>i. i\<lparr>i_size := 0\<rparr>) s;
         let s = mark_inode_dirty inode s;
         if private = None
         then do {
           (error, s) \<leftarrow> xv6_sync_inode inode (set_private inode (Some addrs) s);
           Some (error, set_private inode None s)
         }
         else xv6_sync_inode inode s
       }
     }
   }"

end
