(* ===== verification/Inode_Table.thy ===== *)
theory Inode_Table
  imports Inode
begin

text \<open>
  The inode table as an array of on-disk inodes: \<^verbatim>\<open>xv6_ialloc\<close> takes the first unused
  entry, \<^verbatim>\<open>xv6_ifree\<close> and \<^verbatim>\<open>xv6_sync_inode\<close> write one entry, none touches
  another; names compare as NUL-terminated strings of at most 14 bytes.
\<close>

section \<open>The table\<close>

definition iblk :: "xv6_fs_info \<Rightarrow> nat \<Rightarrow> u32" where
  "iblk i n = fi_inodestart i + of_nat (n div 16)"

definition inode_at :: "fs \<Rightarrow> nat \<Rightarrow> dinode" where
  "inode_at s n = rd_dinode (cache s (iblk (info s) n)) (n mod 16)"

text \<open>The number of entries of the blocks between the start of the table and the bitmap.\<close>

definition icap :: "xv6_fs_info \<Rightarrow> nat" where
  "icap i = 16 * (unat (fi_bmapstart i) - unat (fi_inodestart i))"

definition wf_itable :: "xv6_fs_info \<Rightarrow> bool" where
  "wf_itable i \<longleftrightarrow> fi_inodestart i \<le> fi_bmapstart i \<and> unat (fi_bmapstart i) < 2 ^ 27"

definition in_use :: "fs \<Rightarrow> nat \<Rightarrow> bool" where
  "in_use s n \<longleftrightarrow> di_type (inode_at s n) \<noteq> 0"

lemma iblk_inj:
  assumes "wf_itable i" "m < icap i" "n < icap i" "iblk i m = iblk i n"
  shows "m div 16 = n div 16"
proof -
  have b: "unat (fi_inodestart i) + k div 16 < 2 ^ 32" if "k < icap i" for k
  proof -
    have "k div 16 < unat (fi_bmapstart i) - unat (fi_inodestart i)" using that by (simp add: icap_def)
    then show ?thesis using assms(1) by (simp add: wf_itable_def) linarith
  qed
  have "unat (iblk i k) = unat (fi_inodestart i) + k div 16" if "k < icap i" for k
    using b [OF that] by (simp add: iblk_def unat_of_nat32 unat_add_no_wrap)
  then show ?thesis using assms(2-4) by (metis add_left_cancel)
qed

section \<open>xv6_ialloc\<close>

definition store_dinode :: "u32 \<Rightarrow> nat \<Rightarrow> dinode \<Rightarrow> fs \<Rightarrow> int \<times> fs" where
  "store_dinode bh k d s =
     sync_dirty_buffer bh (mark_buffer_dirty bh (b_store bh (wr_dinode (b_data bh s) k d) s))"

lemma store_dinode_eq:
  "store_dinode bh k d s = (e, s') \<Longrightarrow> s' = s\<lparr>now := Suc (now s), cache := (cache s)(bh := wr_dinode (cache s bh) k d),
     dirty := (dirty s)(bh := False), disk := (if e = 0 then (disk s)(bh := wr_dinode (cache s bh) k d) else disk s)\<rparr>"
  unfolding store_dinode_def by (drule store_flush) (simp add: b_data_def)

lemma slots_cases:
  assumes "unat i \<le> 16"
  obtains (full) "\<And>k. unat i \<le> k \<Longrightarrow> k < 16 \<Longrightarrow> di_type (rd_dinode (cache s bh) k) \<noteq> 0"
      "ialloc_slots bh i node (Some d) s = (0, 0, node + (16 - i), s)"
  | (hit) k e s' where "unat i \<le> k" "k < 16" "di_type (rd_dinode (cache s bh) k) = 0"
      "\<And>j. unat i \<le> j \<Longrightarrow> j < k \<Longrightarrow> di_type (rd_dinode (cache s bh) j) \<noteq> 0"
      "store_dinode bh k d s = (e, s')"
      "ialloc_slots bh i node (Some d) s
         = (e, if e = 0 then node + of_nat (k - unat i) else 0, node + of_nat (k - unat i), s')"
  using assms
proof (induction "16 - unat i" arbitrary: thesis i node rule: less_induct)
  case less
  consider "unat i = 16" | "unat i < 16" "di_type (rd_dinode (cache s bh) (unat i)) = 0"
    | "unat i < 16" "di_type (rd_dinode (cache s bh) (unat i)) \<noteq> 0"
    using less.prems(3) by linarith
  then show ?case
  proof cases
    case 1
    then have "i = 16" by (simp add: word_eq_unat)
    then show ?thesis using less.prems(1)
      by (simp add: ialloc_slots.simps [of bh 16] IPB_val)
  next
    case 2
    obtain e s' where st: "store_dinode bh (unat i) d s = (e, s')" by force
    then have "sync_dirty_buffer bh (mark_buffer_dirty bh (b_store bh (wr_dinode (b_data bh s) (unat i) d) s)) = (e, s')"
      by (simp add: store_dinode_def)
    then have "ialloc_slots bh i node (Some d) s = (e, if e = 0 then node else 0, node, s')"
      using 2 by (simp add: ialloc_slots.simps [of bh i] IPB_val b_data_def word_less_unat)
    then show ?thesis using less.prems(2) [of "unat i" e s'] 2 st by simp
  next
    case 3
    then have lt: "i < 16" by (simp add: word_less_unat)
    note u = unat_Suc_less [OF lt]
    have step: "ialloc_slots bh i node (Some d) s = ialloc_slots bh (i + 1) (node + 1) (Some d) s"
      using 3 lt by (simp add: ialloc_slots.simps [of bh i] IPB_val b_data_def)
    have "16 - unat (i + 1) < 16 - unat i" "unat (i + 1) \<le> 16" using u 3(1) by simp_all
    note IH = less.hyps [OF this(1) _ _ this(2), of "node + 1"]
    show ?thesis
    proof (rule IH)
      assume f: "\<And>k. unat (i + 1) \<le> k \<Longrightarrow> k < 16 \<Longrightarrow> di_type (rd_dinode (cache s bh) k) \<noteq> 0"
        and r: "ialloc_slots bh (i + 1) (node + 1) (Some d) s = (0, 0, node + 1 + (16 - (i + 1)), s)"
      show ?thesis
      proof (rule less.prems(1))
        fix k assume "unat i \<le> k" "k < 16"
        then show "di_type (rd_dinode (cache s bh) k) \<noteq> 0"
          using f [of k] 3 u by (cases "k = unat i") auto
      qed (use step r in \<open>simp add: algebra_simps\<close>)
    next
      fix k e s'
      assume h: "unat (i + 1) \<le> k" "k < 16" "di_type (rd_dinode (cache s bh) k) = 0"
        "\<And>j. unat (i + 1) \<le> j \<Longrightarrow> j < k \<Longrightarrow> di_type (rd_dinode (cache s bh) j) \<noteq> 0"
        "store_dinode bh k d s = (e, s')"
        "ialloc_slots bh (i + 1) (node + 1) (Some d) s
          = (e, if e = 0 then node + 1 + of_nat (k - unat (i + 1)) else 0, node + 1 + of_nat (k - unat (i + 1)), s')"
      have n: "node + 1 + of_nat (k - unat (i + 1)) = node + of_nat (k - unat i)"
        using h(1) u by (simp add: of_nat_diff)
      show ?thesis
      proof (rule less.prems(2) [OF _ h(2,3) _ h(5)])
        fix j assume "unat i \<le> j" "j < k"
        then show "di_type (rd_dinode (cache s bh) j) \<noteq> 0"
          using h(4) [of j] 3 u by (cases "j = unat i") auto
      qed (use step h(1,6) n u in auto)
    qed
  qed
qed

definition blocks_post :: "nat \<Rightarrow> dinode \<Rightarrow> fs \<Rightarrow> int \<times> u32 \<times> fs \<Rightarrow> bool" where
  "blocks_post n0 d s r = (case r of (e, inum, s') \<Rightarrow>
     (e = 0 \<and> inum = 0 \<and> quiet s s' \<and> (\<forall>n. n0 \<le> n \<longrightarrow> n < icap (info s) \<longrightarrow> in_use s n))
     \<or> (e = - EIO \<and> inum = 0 \<and> quiet s s')
     \<or> (\<exists>n. n0 \<le> n \<and> n < icap (info s) \<and> \<not> in_use s n \<and> (\<forall>j. n0 \<le> j \<longrightarrow> j < n \<longrightarrow> in_use s j)
         \<and> inum = (if e = 0 then of_nat n else 0)
         \<and> (let b = iblk (info s) n; c = wr_dinode (cache s b) (n mod 16) d
            in s' = s\<lparr>now := now s', cache := (cache s)(b := c), dirty := (dirty s)(b := False),
                 disk := (if e = 0 then (disk s)(b := c) else disk s)\<rparr>)))"

lemma in_use_quiet: "quiet s s' \<Longrightarrow> in_use s' = in_use s"
  by (simp add: in_use_def [abs_def] inode_at_def quietD)

lemma blocks_post_quiet:
  assumes "quiet s s1" "blocks_post n0 d s1 r" "n1 \<le> n0" "\<And>n. n1 \<le> n \<Longrightarrow> n < n0 \<Longrightarrow> in_use s n"
  shows "blocks_post n1 d s r"
proof -
  obtain e inum s' where r: "r = (e, inum, s')" by (cases r)
  have u: "in_use s1 = in_use s" "info s1 = info s" by (simp_all add: in_use_quiet quietD assms(1))
  have c: "cache s1 = cache s" "disk s1 = disk s" "dirty s1 = dirty s" by (simp_all add: quietD assms(1))
  have used: "in_use s j" if "n1 \<le> j" "n0 \<le> j \<Longrightarrow> in_use s j" for j
    using assms(4) [of j] that by (cases "j < n0") auto
  from assms(2) consider "e = 0" "inum = 0" "quiet s1 s'" "\<forall>n. n0 \<le> n \<longrightarrow> n < icap (info s) \<longrightarrow> in_use s n"
    | "e = - EIO" "inum = 0" "quiet s1 s'"
    | n where "n0 \<le> n" "n < icap (info s)" "\<not> in_use s n" "\<forall>j. n0 \<le> j \<longrightarrow> j < n \<longrightarrow> in_use s j"
        "inum = (if e = 0 then of_nat n else 0)"
        "let b = iblk (info s) n; c = wr_dinode (cache s b) (n mod 16) d
            in s' = s1\<lparr>now := now s', cache := (cache s)(b := c), dirty := (dirty s)(b := False),
                 disk := (if e = 0 then (disk s)(b := c) else disk s)\<rparr>"
    unfolding blocks_post_def r prod.case u c by blast
  then show ?thesis
  proof cases
    case 1
    then show ?thesis using quiet_trans [OF assms(1)] used by (auto simp: blocks_post_def r)
  next
    case 2
    then show ?thesis using quiet_trans [OF assms(1)] by (auto simp: blocks_post_def r)
  next
    case 3
    have "s1 = s\<lparr>now := now s1\<rparr>" using assms(1) by (simp add: quiet_def)
    then have "let b = iblk (info s) n; c = wr_dinode (cache s b) (n mod 16) d
            in s' = s\<lparr>now := now s', cache := (cache s)(b := c), dirty := (dirty s)(b := False),
                 disk := (if e = 0 then (disk s)(b := c) else disk s)\<rparr>"
      using 3(6) by (cases s; cases s1) (simp add: Let_def)
    then show ?thesis
      using 3(1-5) assms(3) used unfolding blocks_post_def r prod.case
      by (intro disjI2 exI [of _ n]) auto
  qed
qed

lemma blocks_spec:
  assumes wf: "wf_itable (info s)"
  shows "unat blk = unat (fi_inodestart (info s)) + n div 16 \<Longrightarrow> unat off = n mod 16 \<Longrightarrow> node = of_nat n \<Longrightarrow>
    2 \<le> n \<Longrightarrow> n < icap (info s) + 16 \<Longrightarrow>
    blocks_post n d s (ialloc_blocks blk (fi_bmapstart (info s)) off node (Some d) s)"
  using wf
proof (induction "unat (fi_bmapstart (info s)) - unat blk" arbitrary: blk n off node s rule: less_induct)
  case less
  let ?bend = "fi_bmapstart (info s)" and ?st = "fi_inodestart (info s)"
  have cap: "n div 16 < unat ?bend - unat ?st \<longleftrightarrow> n < icap (info s)" for n
    by (auto simp: icap_def div_less_iff_less_mult mult.commute)
  show ?case
  proof (cases "blk < ?bend")
    case False
    then have "\<not> n div 16 < unat ?bend - unat ?st"
      using less.prems(1) by (simp add: word_less_unat)
    then have "\<not> n < icap (info s)" using cap [of n] by blast
    then show ?thesis using False by (simp add: ialloc_blocks.simps [of blk] blocks_post_def)
  next
    case True
    then have "n div 16 < unat ?bend - unat ?st"
      using less.prems(1) unfolding word_less_unat by linarith
    then have ncap: "n < icap (info s)" using cap [of n] by blast
    have blk: "blk = iblk (info s) n"
    proof -
      have "unat blk < 2 ^ 32" by (rule unat_lt2p)
      then have "n div 16 < 2 ^ 32" "unat ?st + n div 16 < 2 ^ 32" using less.prems(1) by linarith+
      then show ?thesis
        using less.prems(1) by (simp add: iblk_def word_eq_unat unat_add_no_wrap unat_of_nat32)
    qed
    show ?thesis
    proof (cases rule: sb_bread_cases [of blk s])
      case (fail s1)
      then show ?thesis using True by (simp add: ialloc_blocks.simps [of blk] blocks_post_def)
    next
      case (ok s1)
      have unref: "quiet s (brelse blk s1)" using bread_brelse [OF ok(1)] by simp
      have c1: "cache s1 = cache s" by (simp add: ok(2))
      have off: "unat off \<le> 16" using less.prems(2) by simp
      have at: "di_type (rd_dinode (cache s1 blk) k) \<noteq> 0 \<longleftrightarrow> in_use s (16 * (n div 16) + k)" if "k < 16" for k
        using that by (simp add: in_use_def inode_at_def c1 blk iblk_def)
      have div: "(16 * (n div 16) + k) div 16 = n div 16" "(16 * (n div 16) + k) mod 16 = k" if "k < 16" for k
        using that by simp_all
      from off show ?thesis
      proof (cases rule: slots_cases [where s = s1 and bh = blk and node = node and d = d])
        case full
        let ?n' = "16 * (n div 16) + 16"
        have "of_nat n = (node :: u32)" using less.prems(3) by simp
        have nn: "node + (16 - off) = of_nat ?n'"
        proof -
          have "off = of_nat (n mod 16)" using less.prems(2) by (metis of_nat_unat ucast_id)
          moreover have "node = of_nat (16 * (n div 16) + n mod 16)" using less.prems(3) by simp
          ultimately have "node = of_nat (16 * (n div 16)) + off" by (simp only: of_nat_add)
          then show ?thesis by simp
        qed
        have u: "unat (blk + 1) = unat blk + 1" using unat_Suc_less [OF True] by simp
        have res: "ialloc_blocks blk ?bend off node (Some d) s
            = ialloc_blocks (blk + 1) ?bend 0 (of_nat ?n') (Some d) (brelse blk s1)"
          using True ok(1) full(2) nn by (simp add: ialloc_blocks.simps [of blk])
        have i2: "info (brelse blk s1) = info s" by (simp add: quietD [OF unref])
        have "blocks_post ?n' d (brelse blk s1)
            (ialloc_blocks (blk + 1) (fi_bmapstart (info (brelse blk s1))) 0 (of_nat ?n') (Some d) (brelse blk s1))"
        proof (rule less.hyps)
          show "unat (fi_bmapstart (info (brelse blk s1))) - unat (blk + 1) < unat ?bend - unat blk"
            unfolding i2 using measure_Suc [OF True] .
          show "unat (blk + 1) = unat (fi_inodestart (info (brelse blk s1))) + ?n' div 16"
            unfolding i2 u less.prems(1) by simp
          show "2 \<le> ?n'" by simp
          show "?n' < icap (info (brelse blk s1)) + 16"
            unfolding i2 using ncap by (simp add: icap_def)
          show "wf_itable (info (brelse blk s1))" unfolding i2 by (rule less.prems(6))
        qed simp_all
        then have P: "blocks_post ?n' d (brelse blk s1)
            (ialloc_blocks (blk + 1) ?bend 0 (of_nat ?n') (Some d) (brelse blk s1))"
          unfolding i2 .
        show ?thesis
          unfolding res
        proof (rule blocks_post_quiet [OF unref P])
          show "n \<le> ?n'" by (metis add_left_mono le_less mod_less_divisor mult_div_mod_eq zero_less_numeral)
          fix m assume m: "n \<le> m" "m < ?n'"
          define k where "k = m - 16 * (n div 16)"
          have "16 * (n div 16) \<le> n" by simp
          then have k: "m = 16 * (n div 16) + k" "k < 16" using m by (auto simp: k_def)
          then have "unat off \<le> k" using m(1) less.prems(2) by (metis add_le_cancel_left mult_div_mod_eq)
          then show "in_use s m" using full(1) [OF _ k(2)] at [OF k(2)] k(1) by simp
        qed
      next
        case (hit k e s2)
        let ?m = "16 * (n div 16) + k"
        have nn: "node + of_nat (k - unat off) = of_nat ?m"
        proof -
          have "?m = n + (k - n mod 16)"
            using hit(1) less.prems(2) mult_div_mod_eq [of 16 n] by linarith
          then show ?thesis using less.prems(2,3) by simp
        qed
        have mcap: "?m < icap (info s)" using ncap hit(2) cap [of ?m] cap [of n] by simp
        note sd = store_dinode_eq [OF hit(5)]
        have im: "iblk (info s) ?m = blk" using hit(2) by (simp add: blk iblk_def)
        have used: "in_use s j" if "n \<le> j" "j < ?m" for j
        proof -
          define q where "q = j - 16 * (n div 16)"
          have "16 * (n div 16) \<le> n" by simp
          then have q: "j = 16 * (n div 16) + q" "q < k" using that by (auto simp: q_def)
          then have "unat off \<le> q" using that(1) less.prems(2) by (metis add_le_cancel_left mult_div_mod_eq)
          then show ?thesis using hit(4) [OF _ q(2)] at [of q] q hit(2) by simp
        qed
        have free: "\<not> in_use s ?m" using hit(3) at [OF hit(2)] by simp
        have s2: "brelse blk s2 = s\<lparr>now := now s2, cache := (cache s)(blk := wr_dinode (cache s blk) k d),
            dirty := (dirty s)(blk := False),
            disk := (if e = 0 then (disk s)(blk := wr_dinode (cache s blk) k d) else disk s)\<rparr>"
          unfolding sd ok(2) by (cases s) (simp add: brelse_def)
        have le: "n \<le> ?m" using hit(1) less.prems(2) mult_div_mod_eq [of 16 n] by linarith
        have cap32: "icap (info s) < 2 ^ 32"
          using less.prems(6) by (simp add: wf_itable_def icap_def) linarith
        then have inum: "of_nat ?m \<noteq> (0 :: u32)"
          using unat_of_nat32 [of ?m] mcap le less.prems(4) by (metis le_zero_eq less_trans not_numeral_le_zero unat_0)
        have "ialloc_blocks blk ?bend off node (Some d) s = (e, if e = 0 then of_nat ?m else 0, brelse blk s2)"
          using True ok(1) hit(6) nn inum by (simp add: ialloc_blocks.simps [of blk] del: of_nat_add of_nat_mult)
        moreover have "let b = iblk (info s) ?m; c = wr_dinode (cache s b) (?m mod 16) d
            in brelse blk s2 = s\<lparr>now := now (brelse blk s2), cache := (cache s)(b := c), dirty := (dirty s)(b := False),
                 disk := (if e = 0 then (disk s)(b := c) else disk s)\<rparr>"
          unfolding im s2 Let_def using hit(2) by simp
        ultimately show ?thesis
          unfolding blocks_post_def using le mcap free used
          by (simp only: prod.case) (rule disjI2, rule disjI2, rule exI [of _ ?m], auto)
      qed
    qed
  qed
qed

lemma inode_at_store:
  assumes "wf_itable (info s)" "n < icap (info s)" "wf_dinode d" "info s' = info s"
    "cache s' = (cache s)(iblk (info s) n := wr_dinode (cache s (iblk (info s) n)) (n mod 16) d)"
    "j < icap (info s)"
  shows "inode_at s' j = (if j = n then d else inode_at s j)"
proof (cases "iblk (info s) j = iblk (info s) n")
  case True
  then have "j div 16 = n div 16" using iblk_inj [OF assms(1,6,2)] by simp
  then have "j mod 16 = n mod 16 \<longleftrightarrow> j = n" using div_mod_eq_nat [of j 16 n] by auto
  then show ?thesis using True assms by (simp add: inode_at_def rd_dinode_wr)
next
  case False
  then show ?thesis using assms by (auto simp: inode_at_def)
qed

definition dinode_stored :: "fs \<Rightarrow> nat \<Rightarrow> dinode \<Rightarrow> bool \<Rightarrow> fs \<Rightarrow> bool" where
  "dinode_stored s n d synced s' \<longleftrightarrow> (let b = iblk (info s) n; c = wr_dinode (cache s b) (n mod 16) d
     in s' = s\<lparr>now := now s', cache := (cache s)(b := c), dirty := (dirty s)(b := False),
          disk := (if synced then (disk s)(b := c) else disk s)\<rparr>)"

lemma blocks_postE:
  assumes "blocks_post n0 d s (e, inum, s')"
  obtains (full) "e = 0" "inum = 0" "quiet s s'" "\<forall>n. n0 \<le> n \<longrightarrow> n < icap (info s) \<longrightarrow> in_use s n"
    | (eio) "e = - EIO" "inum = 0" "quiet s s'"
    | (hit) n where "n0 \<le> n" "n < icap (info s)" "\<not> in_use s n" "\<forall>j. n0 \<le> j \<longrightarrow> j < n \<longrightarrow> in_use s j"
        "inum = (if e = 0 then of_nat n else 0)" "dinode_stored s n d (e = 0) s'"
  using assms unfolding blocks_post_def prod.case dinode_stored_def [symmetric]
  by (elim disjE exE conjE) (rule full eio hit; assumption)+

lemma ialloc_unfold:
  "\<not> itable_lock s \<Longrightarrow> xv6_ialloc dino s =
     (case ialloc_blocks (fi_inodestart (info s)) (fi_bmapstart (info s)) 2 2 dino (s\<lparr>itable_lock := True\<rparr>) of
       (e, inum, s') \<Rightarrow> Some (if inum = 0 \<and> e = 0 then - ENOSPC else e, inum, s'\<lparr>itable_lock := False\<rparr>))"
  by (simp add: xv6_ialloc_def xv6_lock_itable_def xv6_unlock_itable_def IPB_val split: prod.split)

lemma ialloc_blocks_post:
  assumes "wf_itable (info s)"
    "ialloc_blocks (fi_inodestart (info s)) (fi_bmapstart (info s)) 2 2 (Some d) (s\<lparr>itable_lock := True\<rparr>) = (e1, i1, s1)"
  shows "blocks_post 2 d (s\<lparr>itable_lock := True\<rparr>) (e1, i1, s1)"
proof -
  let ?s = "s\<lparr>itable_lock := True\<rparr>"
  have *: "blocks_post 2 d ?s (ialloc_blocks (fi_inodestart (info s)) (fi_bmapstart (info ?s)) 2 2 (Some d) ?s)"
    by (rule blocks_spec) (use assms(1) in simp_all)
  have i: "info ?s = info s" by simp
  show ?thesis using * unfolding i assms(2) by simp
qed

lemma icap_bound: "wf_itable i \<Longrightarrow> n < icap i \<Longrightarrow> n < 2 ^ 32"
  by (simp add: wf_itable_def icap_def) linarith

lemma ialloc_spec:
  assumes wf: "wf_itable (info s)" and run: "xv6_ialloc (Some d) s = Some (e, inum, s')"
  shows "(e = - ENOSPC \<and> inum = 0 \<and> quiet s s' \<and> (\<forall>n. 2 \<le> n \<longrightarrow> n < icap (info s) \<longrightarrow> in_use s n))
     \<or> (e = - EIO \<and> inum = 0 \<and> quiet s s')
     \<or> (\<exists>n. 2 \<le> n \<and> n < icap (info s) \<and> \<not> in_use s n \<and> (\<forall>j. 2 \<le> j \<longrightarrow> j < n \<longrightarrow> in_use s j)
         \<and> (if e = 0 then inum = of_nat n else inum = 0)
         \<and> dinode_stored s n d (e = 0) s')"
proof -
  let ?s = "s\<lparr>itable_lock := True\<rparr>"
  have nl: "\<not> itable_lock s"
    using run by (auto simp: xv6_ialloc_def xv6_lock_itable_def split: if_splits)
  obtain e1 i1 s1 where r: "ialloc_blocks (fi_inodestart (info s)) (fi_bmapstart (info s)) 2 2 (Some d) ?s = (e1, i1, s1)"
    by (metis prod_cases3)
  have P: "blocks_post 2 d ?s (e1, i1, s1)" by (rule ialloc_blocks_post [OF wf r])
  have out: "e = (if i1 = 0 \<and> e1 = 0 then - ENOSPC else e1)" "inum = i1" "s' = s1\<lparr>itable_lock := False\<rparr>"
    using run r by (auto simp: ialloc_unfold [OF nl])
  have q: "quiet ?s s1 \<Longrightarrow> quiet s s'"
    using nl unfolding out by (cases s; cases s1) (simp add: quiet_def)
  have u: "in_use ?s = in_use s" "info ?s = info s" "cache ?s = cache s" "disk ?s = disk s" "dirty ?s = dirty s"
    by (simp_all add: in_use_def [abs_def] inode_at_def)
  from P show ?thesis
  proof (cases rule: blocks_postE)
    case full then show ?thesis using out q u by simp
  next
    case eio then show ?thesis using out q u by simp
  next
    case (hit n)
    have "icap (info s) < 2 ^ 32" using wf by (simp add: wf_itable_def icap_def) linarith
    then have "of_nat n \<noteq> (0 :: u32)" using hit(1,2) unat_of_nat32 [of n] by auto
    then have e: "e1 = e" "if e = 0 then inum = of_nat n else inum = 0"
      using out(1,2) hit(5) by (auto split: if_splits)
    have "dinode_stored s n d (e = 0) s'"
      using hit(6) nl unfolding out(3) e(1) by (cases s; cases s1) (simp add: dinode_stored_def Let_def)
    then show ?thesis using hit(1-4) e(2) u by (intro disjI2 exI [of _ n]) simp
  qed
qed

lemma blocks_faultfree:
  "(\<And>n b. env_bread (env s) n b) \<Longrightarrow> (\<And>n b. env_sync (env s) n b = 0) \<Longrightarrow> unat off \<le> 16 \<Longrightarrow>
   fst (ialloc_blocks blk ed off node (Some d) s) = 0"
proof (induction "unat ed - unat blk" arbitrary: blk off node s rule: less_induct)
  case less
  show ?case
  proof (cases "blk < ed")
    case False
    then show ?thesis by (simp add: ialloc_blocks.simps [of blk])
  next
    case True
    obtain s1 where br: "sb_bread blk s = (Some blk, s1)" "env s1 = env s"
      using less.prems(1) by (simp add: sb_bread_def)
    from less.prems(3) show ?thesis
    proof (cases rule: slots_cases [where s = s1 and bh = blk and node = node and d = d])
      case full
      have "fst (ialloc_blocks (blk + 1) ed 0 (node + (16 - off)) (Some d) (brelse blk s1)) = 0"
        by (rule less.hyps [OF measure_Suc [OF True]]) (use less.prems br(2) in \<open>auto simp: brelse_def\<close>)
      then show ?thesis using True br(1) full(2) by (simp add: ialloc_blocks.simps [of blk] add_diff_eq)
    next
      case (hit k e s2)
      have "e = 0" using hit(5) less.prems(2) br(2)
        by (auto simp: store_dinode_def sync_dirty_buffer_def mark_buffer_dirty_def b_store_def Let_def
            split: if_splits)
      show ?thesis
      proof (cases "node + of_nat (k - unat off) = 0")
        case True
        have "fst (ialloc_blocks (blk + 1) ed 0 0 (Some d) (brelse blk s2)) = 0"
          by (rule less.hyps [OF measure_Suc [OF \<open>blk < ed\<close>]])
            (use less.prems br(2) store_dinode_eq [OF hit(5)] in \<open>auto simp: brelse_def\<close>)
        then show ?thesis using \<open>blk < ed\<close> br(1) hit(6) \<open>e = 0\<close> True by (simp add: ialloc_blocks.simps [of blk])
      next
        case False
        then show ?thesis using True br(1) hit(6) \<open>e = 0\<close> by (simp add: ialloc_blocks.simps [of blk])
      qed
    qed
  qed
qed


lemma stored_inode_at:
  assumes "wf_itable (info s)" "n < icap (info s)" "wf_dinode d" "dinode_stored s n d b s'"
  shows "info s' = info s" "refs s' = refs s" "touches {iblk (info s) n} s s'"
    "j < icap (info s) \<Longrightarrow> inode_at s' j = (if j = n then d else inode_at s j)"
    "b \<Longrightarrow> disk s' (iblk (info s) n) = cache s' (iblk (info s) n)"
proof -
  have i: "info s' = info s" and r: "refs s' = refs s" and c: "cache s' = (cache s)(iblk (info s) n := wr_dinode (cache s (iblk (info s) n)) (n mod 16) d)"
    and t: "touches {iblk (info s) n} s s'" and dk: "b \<Longrightarrow> disk s' (iblk (info s) n) = cache s' (iblk (info s) n)"
    using assms(4) by (cases s; cases s'; simp add: dinode_stored_def Let_def touches_def)+
  show "info s' = info s" "refs s' = refs s" "touches {iblk (info s) n} s s'" by fact+
  show "b \<Longrightarrow> disk s' (iblk (info s) n) = cache s' (iblk (info s) n)" by fact
  show "j < icap (info s) \<Longrightarrow> inode_at s' j = (if j = n then d else inode_at s j)"
    by (rule inode_at_store [OF assms(1-3) i c])
qed

lemma ialloc_ok:
  assumes "wf_itable (info s)" "wf_dinode d" "xv6_ialloc (Some d) s = Some (0, inum, s')"
  obtains n where "inum = of_nat n" "2 \<le> n" "n < icap (info s)" "\<not> in_use s n"
    "\<forall>j. 2 \<le> j \<longrightarrow> j < n \<longrightarrow> in_use s j" "dinode_stored s n d True s'"
proof -
  from ialloc_spec [OF assms(1,3)] obtain n where "2 \<le> n \<and> n < icap (info s) \<and> \<not> in_use s n
      \<and> (\<forall>j. 2 \<le> j \<longrightarrow> j < n \<longrightarrow> in_use s j) \<and> inum = of_nat n \<and> dinode_stored s n d True s'"
    by auto
  then show thesis using that by blast
qed

section \<open>Properties\<close>

text \<open>
  C18. A successful \<^verbatim>\<open>xv6_ialloc\<close> returns the first unused entry at or after 2 of the
  inode table and writes the given inode there, in the cache and on disk. Every other entry and
  every other block is unchanged and all buffers are released.
\<close>

theorem ialloc_first_free:
  assumes "wf_itable (info s)" and "wf_dinode d" and "xv6_ialloc (Some d) s = Some (0, inum, s')"
  shows "2 \<le> unat inum \<and> unat inum < icap (info s) \<and> \<not> in_use s (unat inum)
    \<and> (\<forall>j. 2 \<le> j \<longrightarrow> j < unat inum \<longrightarrow> in_use s j)
    \<and> (\<forall>j < icap (info s). inode_at s' j = (if j = unat inum then d else inode_at s j))
    \<and> disk s' (iblk (info s) (unat inum)) = cache s' (iblk (info s) (unat inum))
    \<and> touches {iblk (info s) (unat inum)} s s'"
proof -
  obtain n where n: "inum = of_nat n" "2 \<le> n" "n < icap (info s)" "\<not> in_use s n"
    "\<forall>j. 2 \<le> j \<longrightarrow> j < n \<longrightarrow> in_use s j" "dinode_stored s n d True s'"
    by (rule ialloc_ok [OF assms])
  then have u: "unat inum = n" using icap_bound [OF assms(1) n(3)] by (simp add: unat_of_nat32)
  show ?thesis
    unfolding u using n stored_inode_at [OF assms(1) n(3) assms(2) n(6)] by simp
qed

lemma sample_wf_itable [simp]: "wf_itable sample_info"
  by (simp add: wf_itable_def sample_info_def)

definition file_dinode :: dinode where
  "file_dinode = zero_dinode\<lparr>di_type := T_FILE, di_nlink := 1\<rparr>"

lemma file_dinode_wf [simp]: "wf_dinode file_dinode"
  by (simp add: file_dinode_def wf_dinode_def zero_dinode_def)

lemma in_use_zero: "\<not> in_use sample_fs n"
  by (simp add: in_use_def inode_at_def sample_fs_def zero_dinode_def)

lemma ialloc_runs:
  assumes "wf_itable (info s)" "\<not> itable_lock s" "\<And>n b. env_bread (env s) n b" "\<And>n b. env_sync (env s) n b = 0"
    "2 \<le> n" "n < icap (info s)" "\<not> in_use s n"
  shows "\<exists>inum s'. xv6_ialloc (Some d) s = Some (0, inum, s')"
proof -
  let ?s = "s\<lparr>itable_lock := True\<rparr>"
  obtain e1 i1 s1 where r: "ialloc_blocks (fi_inodestart (info s)) (fi_bmapstart (info s)) 2 2 (Some d) ?s = (e1, i1, s1)"
    by (metis prod_cases3)
  have e1: "e1 = 0"
    using blocks_faultfree [of ?s 2 "fi_inodestart (info s)" "fi_bmapstart (info s)" 2 d] assms(3,4) r by simp
  have "blocks_post 2 d ?s (e1, i1, s1)" by (rule ialloc_blocks_post [OF assms(1) r])
  then have "i1 \<noteq> 0"
  proof (cases rule: blocks_postE)
    case full
    then show ?thesis using assms(5-7) by (simp add: in_use_def inode_at_def)
  next
    case (hit n)
    then show ?thesis using icap_bound [OF assms(1), of n] unat_of_nat32 [of n] e1 by auto
  qed (simp add: e1)
  then show ?thesis using r e1 by (simp add: ialloc_unfold [OF assms(2)])
qed

theorem ialloc_first_free_witness:
  "\<exists>s'. xv6_ialloc (Some file_dinode) sample_fs = Some (0, 2, s') \<and> inode_at s' 2 = file_dinode"
proof -
  have w: "wf_itable (info sample_fs)" by (simp add: sample_fs_def)
  have c: "icap (info sample_fs) = 208" by (simp add: icap_def sample_defs)
  obtain inum s' where r: "xv6_ialloc (Some file_dinode) sample_fs = Some (0, inum, s')"
    using ialloc_runs [OF w, of 2 file_dinode] in_use_zero [of 2] c by (auto simp: sample_defs)
  note T = ialloc_first_free [OF w file_dinode_wf r]
  then have "unat inum = 2" using in_use_zero by (metis nat_less_le order_refl)
  then have "inum = 2" by (simp add: word_eq_unat)
  then show ?thesis using T r c by auto
qed

text \<open>
  C23. The code does not keep to the number of inodes of the super block: when all inodes below
  it are in use and the table's last block has room, \<^verbatim>\<open>xv6_ialloc\<close> hands out the inode
  number \<^verbatim>\<open>ninodes\<close>, on which \<^verbatim>\<open>xv6_iget\<close> panics.
\<close>

theorem ialloc_exceeds_ninodes:
  assumes "wf_itable (info s)" and "wf_dinode d" and "xv6_ialloc (Some d) s = Some (0, inum, s')"
    and "\<forall>n. 2 \<le> n \<longrightarrow> n < unat (fi_ninodes (info s)) \<longrightarrow> in_use s n"
  shows "fi_ninodes (info s) \<le> inum \<and> (\<forall>t. info t = info s \<longrightarrow> xv6_iget inum t = None)"
proof -
  obtain n where n: "inum = of_nat n" "2 \<le> n" "n < icap (info s)" "\<not> in_use s n"
    by (rule ialloc_ok [OF assms(1-3)])
  then have "unat inum = n" using icap_bound [OF assms(1) n(3)] by (simp add: unat_of_nat32)
  then have le: "fi_ninodes (info s) \<le> inum"
    using n(2,4) assms(4) by (auto simp: word_le_unat not_less [symmetric])
  then have "\<not> inum < fi_ninodes (info s)" by (simp add: not_less)
  then show ?thesis using le by (simp add: xv6_iget_def xv6_assert_def)
qed

text \<open>Inodes 2 to 199 in use on the sample disk: every byte of the table is 1 up to there.\<close>

definition used_fs :: fs where
  "used_fs = sample_fs\<lparr>cache := (\<lambda>b i. if b < 44 \<or> i < 512 then 1 else 0)\<rparr>"

lemma rd_type_ones: "di_type (rd_dinode b k) = cat16 (b (64 * k)) (b (64 * k + 1))"
  by (simp add: rd_dinode_def Let_def rd16_def)

lemma used_in_use: "n < 208 \<Longrightarrow> in_use used_fs n \<longleftrightarrow> n < 200"
proof -
  assume n: "n < 208"
  have ones: "cat16 1 1 \<noteq> 0" by (simp add: cat16_unfold)
  have u: "unat (iblk sample_info n) = 32 + n div 16"
    using n by (simp add: iblk_def sample_info_def unat_add_no_wrap unat_of_nat32)
  show ?thesis
  proof (cases "n < 192")
    case True
    then have "iblk sample_info n < 44" using u by (simp add: word_less_unat)
    then show ?thesis using True ones by (simp add: in_use_def inode_at_def used_fs_def sample_fs_def rd_type_ones)
  next
    case False
    then have d: "n div 16 = 12" using n by simp
    then have "n = 192 + n mod 16" using mult_div_mod_eq [of 16 n] by simp
    with d have "\<not> iblk sample_info n < 44" "n mod 16 < 8 \<longleftrightarrow> n < 200"
      using u by (simp add: word_less_unat, linarith)
    moreover have "64 * k + 1 < 512 \<longleftrightarrow> k < 8" "64 * k < 512 \<longleftrightarrow> k < 8" for k :: nat by auto
    ultimately show ?thesis
      using ones by (auto simp: in_use_def inode_at_def used_fs_def sample_fs_def rd_type_ones)
  qed
qed

theorem ialloc_exceeds_ninodes_witness:
  "\<exists>inum s'. xv6_ialloc (Some file_dinode) used_fs = Some (0, inum, s') \<and> 200 \<le> inum
     \<and> xv6_iget inum s' = None"
proof -
  have w: "wf_itable (info used_fs)" and c: "icap (info used_fs) = 208"
    by (simp_all add: used_fs_def sample_fs_def icap_def sample_info_def wf_itable_def)
  obtain inum s' where r: "xv6_ialloc (Some file_dinode) used_fs = Some (0, inum, s')"
    using ialloc_runs [OF w, of 200 file_dinode] used_in_use [of 200] c by (auto simp: used_fs_def sample_defs)
  have "\<forall>n. 2 \<le> n \<longrightarrow> n < unat (fi_ninodes (info used_fs)) \<longrightarrow> in_use used_fs n"
    using used_in_use by (simp add: used_fs_def sample_defs)
  note T = ialloc_exceeds_ninodes [OF w file_dinode_wf r this]
  obtain n where "n < icap (info used_fs)" "dinode_stored used_fs n file_dinode True s'"
    by (rule ialloc_ok [OF w file_dinode_wf r])
  then have "info s' = info used_fs" by (rule stored_inode_at [OF w _ file_dinode_wf])
  then show ?thesis using T r by (auto simp: used_fs_def sample_defs)
qed

lemma ifree_cases:
  assumes "\<not> itable_lock s"
  obtains (io) s' where "xv6_ifree inum s = Some (- EIO, s')" "quiet s s'"
  | (done') e s' where "xv6_ifree inum s = Some (e, s')" "dinode_stored s (unat inum) zero_dinode (e = 0) s'"
proof -
  let ?b = "fi_inodestart (info s) + inum div IPB" and ?s = "s\<lparr>itable_lock := True\<rparr>"
  have b: "iblk (info s) (unat inum) = ?b"
  proof -
    have "of_nat (unat inum div 16) = inum div IPB"
    proof -
      have "unat inum div 16 < 2 ^ 32" using unat_lt2p [of inum] by linarith
      then show ?thesis by (simp add: word_eq_unat unat_div IPB_val unat_of_nat32)
    qed
    then show ?thesis by (simp add: iblk_def)
  qed
  have k: "unat (inum mod IPB) = unat inum mod 16" by (simp add: IPB_val unat_mod)
  show thesis
  proof (cases rule: sb_bread_cases [of ?b ?s])
    case (fail s1)
    have "quiet s (s1\<lparr>itable_lock := False\<rparr>)"
      using fail(2) assms by (cases s; cases s1) (simp add: quiet_def)
    then show ?thesis
      using io [of "s1\<lparr>itable_lock := False\<rparr>"] fail(1) assms
      by (simp add: xv6_ifree_def xv6_lock_itable_def xv6_unlock_itable_def Let_def)
  next
    case (ok s1)
    obtain e s2 where st: "store_dinode ?b (unat inum mod 16) zero_dinode s1 = (e, s2)" by force
    have "xv6_ifree inum s = Some (e, brelse ?b s2\<lparr>itable_lock := False\<rparr>)"
      using ok(1) st assms k
      by (simp add: xv6_ifree_def xv6_lock_itable_def xv6_unlock_itable_def Let_def store_dinode_def)
    moreover have "dinode_stored s (unat inum) zero_dinode (e = 0) (brelse ?b s2\<lparr>itable_lock := False\<rparr>)"
      unfolding store_dinode_eq [OF st] ok(2) dinode_stored_def b Let_def
      using assms by (cases s) (simp add: brelse_def)
    ultimately show ?thesis by (rule done')
  qed
qed

lemma ifree_ok:
  assumes "\<not> itable_lock s" "xv6_ifree inum s = Some (0, s')"
  shows "dinode_stored s (unat inum) zero_dinode True s'"
  using assms(1)
proof (cases rule: ifree_cases [where inum = inum])
  case (done' e t)
  then show ?thesis using assms(2) by auto
qed (use assms(2) in auto)

text \<open>
  \<^verbatim>\<open>xv6_ifree\<close> undoes \<^verbatim>\<open>xv6_ialloc\<close>: after both succeed the entry is the zero
  inode, unused again, every other entry is what it was, and the change is on disk.
\<close>

lemma ialloc_ifree_roundtrip:
  assumes "wf_itable (info s)" and "wf_dinode d" and "\<not> itable_lock s"
    and "xv6_ialloc (Some d) s = Some (0, inum, s1)" and "xv6_ifree inum s1 = Some (0, s2)"
  shows "(\<forall>j < icap (info s). inode_at s2 j = (if j = unat inum then zero_dinode else inode_at s j))
    \<and> (\<forall>j < icap (info s). in_use s2 j = in_use s j)
    \<and> disk s2 (iblk (info s) (unat inum)) = cache s2 (iblk (info s) (unat inum))"
proof -
  obtain n where n: "inum = of_nat n" "n < icap (info s)" "\<not> in_use s n" "dinode_stored s n d True s1"
    by (rule ialloc_ok [OF assms(1,2,4)])
  have u: "unat inum = n" using icap_bound [OF assms(1) n(2)] n(1) by (simp add: unat_of_nat32)
  note A = stored_inode_at [OF assms(1) n(2) assms(2) n(4)]
  have "\<not> itable_lock s1" using touchesD(6) [OF A(3)] assms(3) by simp
  from ifree_ok [OF this assms(5)] have F: "dinode_stored s1 n zero_dinode True s2" by (simp add: u)
  note B = stored_inode_at [OF _ _ wf_rd(3) F, unfolded A(1), OF assms(1) n(2)]
  have at: "inode_at s2 j = (if j = n then zero_dinode else inode_at s j)" if "j < icap (info s)" for j
    using B(4) [OF that] A(4) [OF that] by simp
  then have "in_use s2 j = in_use s j" if "j < icap (info s)" for j
    using that n(3) by (auto simp: in_use_def zero_dinode_def)
  then show ?thesis using at B(5) u by simp
qed

lemma ialloc_ifree_roundtrip_witness:
  "\<exists>s1 s2. xv6_ialloc (Some file_dinode) sample_fs = Some (0, 2, s1) \<and> xv6_ifree 2 s1 = Some (0, s2)
     \<and> inode_at s2 2 = zero_dinode"
proof -
  have w: "wf_itable (info sample_fs)" and c: "icap (info sample_fs) = 208" and l: "\<not> itable_lock sample_fs"
    by (simp_all add: icap_def sample_defs wf_itable_def)
  obtain inum s1 where r: "xv6_ialloc (Some file_dinode) sample_fs = Some (0, inum, s1)"
    using ialloc_runs [OF w, of 2 file_dinode] in_use_zero [of 2] c by (auto simp: sample_defs)
  obtain n where n: "inum = of_nat n" "2 \<le> n" "n < icap (info sample_fs)" "\<not> in_use sample_fs n"
      "\<forall>j. 2 \<le> j \<longrightarrow> j < n \<longrightarrow> in_use sample_fs j" "dinode_stored sample_fs n file_dinode True s1"
    by (rule ialloc_ok [OF w file_dinode_wf r])
  then have "n = 2" using in_use_zero [of 2] by (metis nat_less_le order_refl)
  then have i: "inum = 2" using n(1) by simp
  note t = stored_inode_at(3) [OF w n(3) file_dinode_wf n(6)]
  have l1: "\<not> itable_lock s1" "env s1 = sample_env" using touchesD [OF t] l by (simp_all add: sample_fs_def)
  from l1(1) obtain s2 where f: "xv6_ifree 2 s1 = Some (0, s2)"
  proof (cases rule: ifree_cases [where inum = 2])
    case (io s')
    then show ?thesis using l1
      by (simp add: xv6_ifree_def xv6_lock_itable_def sb_bread_def Let_def sample_env_def split: prod.splits)
        (auto simp: sync_dirty_buffer_def mark_buffer_dirty_def b_store_def Let_def)
  next
    case (done' e s')
    then have "e = 0" using l1
      by (auto simp: xv6_ifree_def xv6_lock_itable_def sb_bread_def Let_def sample_env_def
          sync_dirty_buffer_def mark_buffer_dirty_def b_store_def)
    with done' that show ?thesis by blast
  qed
  from ialloc_ifree_roundtrip [OF w file_dinode_wf l r] f i r c show ?thesis by auto
qed

definition synced_dinode :: "fs \<Rightarrow> iref \<Rightarrow> dinode" where
  "synced_dinode s ino = (let d = inode_at s (unat (i_ino (inodes s ino)));
      d = (case i_private (inodes s ino) of Some a \<Rightarrow> d\<lparr>di_addrs := a\<rparr> | None \<Rightarrow> d)
    in d\<lparr>di_size := ucast (i_size (inodes s ino)), di_nlink := ucast (i_nlink (inodes s ino))\<rparr>)"

lemma iblk_word: "iblk i (unat inum) = fi_inodestart i + inum div IPB"
proof -
  have "unat inum div 16 < 2 ^ 32" using unat_lt2p [of inum] by linarith
  then have "of_nat (unat inum div 16) = inum div IPB"
    by (simp add: word_eq_unat unat_div IPB_val unat_of_nat32)
  then show ?thesis by (simp add: iblk_def)
qed

lemma sync_inode_cases:
  assumes "\<not> rdonly s" "i_ino (inodes s ino) \<noteq> 0"
  obtains (io) s' where "xv6_sync_inode ino s = Some (- EIO, s')" "quiet s s'"
  | (done') e s' where "xv6_sync_inode ino s = Some (e, s')"
      "dinode_stored s (unat (i_ino (inodes s ino))) (synced_dinode s ino) (e = 0) s'"
proof -
  let ?n = "i_ino (inodes s ino)"
  let ?b = "fi_inodestart (info s) + ?n div IPB"
  have k: "unat (?n mod IPB) = unat ?n mod 16" by (simp add: IPB_val unat_mod)
  show thesis
  proof (cases rule: sb_bread_cases [of ?b s])
    case (fail s1)
    then show ?thesis using io assms by (simp add: xv6_sync_inode_def Let_def)
  next
    case (ok s1)
    have d: "(case i_private (inodes s ino) of None \<Rightarrow> rd_dinode (b_data ?b s1) (unat ?n mod 16)
          | Some a \<Rightarrow> rd_dinode (b_data ?b s1) (unat ?n mod 16)\<lparr>di_addrs := a\<rparr>)
        \<lparr>di_size := ucast (i_size (inodes s ino)), di_nlink := ucast (i_nlink (inodes s ino))\<rparr> = synced_dinode s ino"
      by (cases "i_private (inodes s ino)") (simp_all add: synced_dinode_def Let_def inode_at_def iblk_word ok(2) b_data_def)
    obtain e s2 where st: "store_dinode ?b (unat ?n mod 16) (synced_dinode s ino) s1 = (e, s2)" by force
    have i1: "inodes s1 = inodes s" by (simp add: ok(2))
    have "xv6_sync_inode ino s = Some (e, brelse ?b s2)"
      using st assms ok(1) by (simp add: xv6_sync_inode_def Let_def store_dinode_def k i1 d)
    moreover have "dinode_stored s (unat ?n) (synced_dinode s ino) (e = 0) (brelse ?b s2)"
      unfolding store_dinode_eq [OF st] ok(2) dinode_stored_def iblk_word Let_def
      by (cases s) (simp add: brelse_def)
    ultimately show ?thesis by (rule done')
  qed
qed

lemma synced_wf: "length a = 13 \<Longrightarrow> i_private (inodes s ino) = Some a \<Longrightarrow> wf_dinode (synced_dinode s ino)"
  by (simp add: synced_dinode_def Let_def wf_dinode_def NDIRECT_def)

lemma sync_inode_ok:
  assumes wf: "wf_itable (info s)" "unat (i_ino (inodes s ino)) < icap (info s)" "i_ino (inodes s ino) \<noteq> 0"
    and ro: "\<not> rdonly s" and a: "i_private (inodes s ino) = Some a" "length a = 13"
    and run: "xv6_sync_inode ino s = Some (0, s')"
  shows "dinode_stored s (unat (i_ino (inodes s ino))) (synced_dinode s ino) True s'"
  using ro wf(3)
proof (cases rule: sync_inode_cases)
  case (done' e t)
  then show ?thesis using run by auto
qed (use run in auto)

text \<open>
  C24. \<^verbatim>\<open>xv6_sync_inode\<close> followed by a reload is the identity on what the disk keeps: it
  stores size, link count and block addresses of the inode into its entry of the table (no other
  entry changes), and \<^verbatim>\<open>xv6_init_inode\<close> on that entry gives an inode with the same size,
  link count, and addresses, provided the size fits in 32 bits and the link count in 16.
\<close>

theorem sync_load_roundtrip:
  assumes "wf_itable (info s)" and "unat (i_ino (inodes s ino)) < icap (info s)" and "i_ino (inodes s ino) \<noteq> 0"
    and "\<not> rdonly s" and "i_private (inodes s ino) = Some a" and "length a = 13"
    and "xv6_sync_inode ino s = Some (0, s1)"
    and "xv6_init_inode r (inode_at s1 (unat (i_ino (inodes s ino)))) (i_ino (inodes s ino)) s1 = (0, s2)"
    and "unat (i_size (inodes s ino)) < 2 ^ 32" and "unat (i_nlink (inodes s ino)) < 2 ^ 16"
  shows "i_size (inodes s2 r) = i_size (inodes s ino) \<and> i_nlink (inodes s2 r) = i_nlink (inodes s ino)
    \<and> i_private (inodes s2 r) = Some a
    \<and> (\<forall>j < icap (info s). j \<noteq> unat (i_ino (inodes s ino)) \<longrightarrow> inode_at s1 j = inode_at s j)
    \<and> disk s1 (iblk (info s) (unat (i_ino (inodes s ino)))) = cache s1 (iblk (info s) (unat (i_ino (inodes s ino))))"
proof -
  let ?n = "unat (i_ino (inodes s ino))"
  have st: "dinode_stored s ?n (synced_dinode s ino) True s1"
    by (rule sync_inode_ok [OF assms(1-7)])
  note S = stored_inode_at [OF assms(1,2) synced_wf [OF assms(6,5)] st]
  have at: "inode_at s1 ?n = synced_dinode s ino" using S(4) [OF assms(2)] by simp
  have sz: "ucast (ucast (i_size (inodes s ino)) :: u32) = i_size (inodes s ino)"
    using assms(9) by (simp add: word_eq_unat unsigned_ucast_eq unsigned_take_bit_eq take_bit_nat_eq_self)
  have nl: "ucast (ucast (i_nlink (inodes s ino)) :: u16) = i_nlink (inodes s ino)"
    using assms(10) by (simp add: word_eq_unat unsigned_ucast_eq unsigned_take_bit_eq take_bit_nat_eq_self)
  have "i_size (inodes s2 r) = ucast (di_size (synced_dinode s ino))
      \<and> i_nlink (inodes s2 r) = ucast (di_nlink (synced_dinode s ino))
      \<and> i_private (inodes s2 r) = Some (di_addrs (synced_dinode s ino))"
    using assms(8) unfolding at xv6_init_inode_def Let_def upd_inode_def tick_def
    by (auto split: if_splits)
  then show ?thesis
    using S(4,5) assms(5) sz nl by (simp add: synced_dinode_def Let_def)
qed

definition open_fs :: fs where
  "open_fs = sample_fs\<lparr>inodes := (\<lambda>_. sample_inode\<lparr>i_ino := 2, i_nlink := 1, i_size := 5,
     i_private := Some (replicate 13 0)\<rparr>),
     cache := (\<lambda>_. wr_dinode zero_block 2 file_dinode)\<rparr>"

theorem sync_load_roundtrip_witness:
  "\<exists>s1 s2. xv6_sync_inode 0 open_fs = Some (0, s1) \<and> xv6_init_inode 1 (inode_at s1 2) 2 s1 = (0, s2)
     \<and> i_size (inodes s2 1) = 5"
proof -
  have f: "wf_itable (info open_fs)" "unat (i_ino (inodes open_fs 0)) < icap (info open_fs)"
      "i_ino (inodes open_fs 0) \<noteq> 0" "\<not> rdonly open_fs"
      "i_private (inodes open_fs 0) = Some (replicate 13 0)" "length (replicate 13 (0 :: u32)) = 13"
      "unat (i_size (inodes open_fs 0)) < 2 ^ 32" "unat (i_nlink (inodes open_fs 0)) < 2 ^ 16"
    by (simp_all add: open_fs_def sample_defs wf_itable_def icap_def)
  have e: "env_bread (env open_fs) n b" "env_sync (env open_fs) n b = 0" for n b
    by (simp_all add: open_fs_def sample_defs)
  obtain s1 where r: "xv6_sync_inode 0 open_fs = Some (0, s1)"
    using f(3,4) e by (simp add: xv6_sync_inode_def sb_bread_def Let_def sync_dirty_buffer_def
        mark_buffer_dirty_def b_store_def)
  have st: "dinode_stored open_fs 2 (synced_dinode open_fs 0) True s1"
    using sync_inode_ok [OF f(1-6) r] by (simp add: open_fs_def)
  have i2: "i_ino (inodes open_fs 0) = 2" by (simp add: open_fs_def)
  note S = stored_inode_at [OF f(1) f(2) [unfolded i2] synced_wf [OF f(6,5)], simplified, OF st]
  have "inode_at s1 2 = synced_dinode open_fs 0" using S(4) [of 2] f(2) i2 by simp
  moreover have "di_type (synced_dinode open_fs 0) = T_FILE"
    by (simp add: synced_dinode_def Let_def inode_at_def open_fs_def iblk_def rd_dinode_wr_same sample_inode_def)
      (simp add: file_dinode_def)
  moreover have "env_alloc (env s1) n" for n
    using touchesD(4) [OF S(3)] by (simp add: open_fs_def sample_defs)
  ultimately obtain s2 where l: "xv6_init_inode 1 (inode_at s1 2) 2 s1 = (0, s2)"
    by (simp add: xv6_init_inode_def Let_def upd_inode_def tick_def T_FILE_def T_DIR_def)
  from sync_load_roundtrip [OF f(1-6) r _ f(7,8), of 1 s2] l r i2 show ?thesis
    by (auto simp: open_fs_def)
qed

lemma cmp_loop_zero: "xv6_cmp_loop pa pb i n = 0 \<longleftrightarrow> cstr n (get pa i n) = cstr n (get pb i n)"
proof (induction n arbitrary: i)
  case 0
  then show ?case by (simp add: cstr_def get_def)
next
  case (Suc n)
  have g: "get p i (Suc n) = p i # get p (i + 1) n" for p :: "nat \<Rightarrow> u8"
    by (simp add: get_def upt_conv_Cons del: upt_Suc) (simp add: map_Suc_upt [symmetric] comp_def del: upt_Suc)
  have c: "cstr (Suc n) (x # xs) = (if x = 0 then [] else x # cstr n xs)" for x xs
    by (simp add: cstr_def)
  have u: "uint a = uint b \<longleftrightarrow> a = b" and z: "uint a = 0 \<longleftrightarrow> a = 0" for a b :: u8
    by (simp_all add: word_uint_eq_iff)
  show ?case
    by (auto simp: Let_def g c Suc.IH u z)
qed

text \<open>
  \<^verbatim>\<open>xv6_cmp\<close> decides equality of names as xv6 stores them: it returns 0 exactly when
  the two NUL-terminated strings agree in their first 14 bytes, the comparison
  \<^verbatim>\<open>strncmp\<close> makes when a directory is searched.
\<close>

lemma cmp_is_name_equality:
  "xv6_cmp str name = 0 \<longleftrightarrow> strncmp0 (get name 0 DIRSIZ) (get str 0 DIRSIZ) DIRSIZ"
  by (simp add: xv6_cmp_def cmp_loop_zero strncmp0_cstr)

text \<open>
  Hash and comparison disagree: the hash covers the 14 bytes behind the pointer, also
  those after the terminator, so two names that compare equal can have different hashes,
  which the directory cache does not allow.
\<close>

lemma hash_cmp_inconsistent:
  "\<exists>full_name_hash a b. xv6_cmp a b = 0 \<and> a 0 \<noteq> 0
     \<and> xv6_hash full_name_hash a h \<noteq> xv6_hash full_name_hash b h"
proof (intro exI conjI)
  let ?a = "(\<lambda>i. if i = 0 then 97 else 0) :: nat \<Rightarrow> u8"
  let ?b = "(\<lambda>i. if i = 0 then 97 else if i = 2 then 98 else 0) :: nat \<Rightarrow> u8"
  show "xv6_cmp ?a ?b = 0" by (simp add: xv6_cmp_def DIRSIZ_def eval_nat_numeral)
  show "?a 0 \<noteq> 0" by simp
  show "xv6_hash (\<lambda>bs. ucast (bs ! 2)) ?a h \<noteq> xv6_hash (\<lambda>bs. ucast (bs ! 2)) ?b h"
    by (simp add: xv6_hash_def DIRSIZ_def)
qed

end
