(* ===== verification/Dir.thy ===== *)
theory Dir
  imports Inode_Table
begin

text \<open>
  \<^verbatim>\<open>dir.c\<close>: the callbacks handed to \<^verbatim>\<open>xv6_dir_iterate\<close> and the directory operations
  built on them (\<^verbatim>\<open>xv6_dget\<close> and \<^verbatim>\<open>xv6_init_ictx\<close> are in \<open>Inode\<close>,
  \<^verbatim>\<open>xv6_rmdir\<close> is in \<open>Namei\<close>). The \<^verbatim>\<open>void *\<close> context of a callback is the tuple
  of the objects it points to. A name argument is the list of its bytes before the NUL.
\<close>

section \<open>Callbacks\<close>

definition de_find_callback :: "(bytes \<times> u32 \<times> dirent) xv6_diter_callback" where
  "de_find_callback dnum de ctx =
     (let (target, dnumout, deout) = ctx;
          next_act = xv6_diter_action_init\<lparr>act_cont := True\<rparr>
      in if strncmp0 target (de_name de) DIRSIZ
         then Some (next_act\<lparr>act_cont := False\<rparr>, de, (target, dnum, de))
         else Some (next_act, de, ctx))"

definition erased_dirent :: dirent where
  "erased_dirent = \<lparr>de_inum = 0, de_name = (replicate DIRSIZ 0xfd)[0 := 0]\<rparr>"

definition de_erase_callback :: "(bytes \<times> bool) xv6_diter_callback" where
  "de_erase_callback dnum de ctx =
     (let (target, success) = ctx;
          next_act = xv6_diter_action_init\<lparr>act_cont := True\<rparr>
      in if strncmp0 target (de_name de) DIRSIZ
         then Some (next_act\<lparr>act_cont := False, act_de_dirty := True\<rparr>, erased_dirent, (target, True))
         else Some (next_act, de, ctx))"

text \<open>Copying the 16 bytes of a \<^verbatim>\<open>struct dirent\<close>; its name has \<open>DIRSIZ\<close> of them.\<close>

definition memcpy_dirent :: "dirent \<Rightarrow> dirent" where
  "memcpy_dirent de = \<lparr>de_inum = de_inum de, de_name = take DIRSIZ (de_name de @ replicate DIRSIZ 0)\<rparr>"

lemma wf_memcpy_dirent [simp]: "wf_dirent (memcpy_dirent de)"
  by (simp add: memcpy_dirent_def wf_dirent_def)

lemma memcpy_dirent_id [simp]: "wf_dirent de \<Longrightarrow> memcpy_dirent de = de"
  by (simp add: memcpy_dirent_def wf_dirent_def)

definition de_insert_callback :: "dirent xv6_diter_callback" where
  "de_insert_callback dnum de nde =
     (let next_act = xv6_diter_action_init\<lparr>act_dir_ext := True, act_dir_dirty := True\<rparr>
      in if de_inum de = 0
         then do {
           _ \<leftarrow> xv6_assert (de_name de ! 0 = 0);
           Some (next_act\<lparr>act_cont := False, act_de_dirty := True\<rparr>, memcpy_dirent nde, nde)
         }
         else Some (next_act\<lparr>act_cont := True\<rparr>, de, nde))"

text \<open>
  \<^verbatim>\<open>readdir_callback\<close>: \<open>emit\<close> is the caller's \<^verbatim>\<open>dir_emit\<close>; it gets the position, the
  name and the inode number, and answers whether to go on. The context is \<^verbatim>\<open>dc->pos\<close> and the
  caller's state.
\<close>

definition readdir_callback ::
    "(u64 \<Rightarrow> bytes \<Rightarrow> u16 \<Rightarrow> 'e \<Rightarrow> bool \<times> 'e) \<Rightarrow> (u64 \<times> 'e) xv6_diter_callback" where
  "readdir_callback emit dnum de dc =
     (let next_act = xv6_diter_action_init\<lparr>act_cont := True\<rparr>; (pos, out) = dc
      in if sint (ucast dnum :: u64) < sint pos then Some (next_act, de, dc)
         else
           (let (cont, out) =
              (if de_inum de = 0 then (True, out)
               else emit pos (cstr DIRSIZ (de_name de)) (de_inum de) out);
                pos = ucast (dnum + (if cont then 1 else 0))
            in Some (next_act\<lparr>act_cont := cont\<rparr>, de, (pos, out))))"

definition rmtest_callback :: "bool xv6_diter_callback" where
  "rmtest_callback dnum de emptyp =
     (let act = xv6_diter_action_init\<lparr>act_cont := True\<rparr>
      in if dnum \<le> 1 then Some (act, de, emptyp)
         else if de_inum de \<noteq> 0
         then do {
           _ \<leftarrow> xv6_assert (de_name de ! 0 \<noteq> 0);
           Some (act\<lparr>act_cont := False\<rparr>, de, False)
         }
         else Some (act, de, emptyp))"

section \<open>Operations\<close>

definition is_dir :: "iref \<Rightarrow> fs \<Rightarrow> bool" where
  "is_dir ino s \<longleftrightarrow> i_mode (inodes s ino) AND S_IFMT = S_IFDIR"

text \<open>\<^verbatim>\<open>xv6_find_inum\<close> returns the error, \<^verbatim>\<open>*dnum\<close>, \<^verbatim>\<open>*dout\<close> and the state.\<close>

definition xv6_find_inum ::
    "iref \<Rightarrow> bytes \<Rightarrow> u32 \<Rightarrow> dirent \<Rightarrow> fs \<Rightarrow> (int \<times> u32 \<times> dirent \<times> fs) option" where
  "xv6_find_inum dir name dnum dout s =
     (if \<not> is_dir dir s then Some (- ENOTDIR, dnum, dout, s)
      else do {
        let dnum = 0;
        let ictx = xv6_inode_ctx_init dir s;
        (error, ictx, s) \<leftarrow> xv6_init_ictx ictx dir zero_dinode s;
        if error \<noteq> 0 then Some (error, dnum, dout, s)
        else do {
          (error, ictx, (_, dnum, dout), s) \<leftarrow>
            xv6_dir_iterate modcheck ictx de_find_callback (name, dnum, dout) 0 False s;
          _ \<leftarrow> xv6_assert (\<not> ic_dirty ictx);
          Some (error, dnum, dout, ictx_alias dir ictx s)
        }
      })"

definition cstrlen :: "bytes \<Rightarrow> nat" where
  "cstrlen s = length (takeWhile (\<lambda>c. c \<noteq> 0) s)"

definition strcmp0 :: "bytes \<Rightarrow> bytes \<Rightarrow> bool" where
  "strcmp0 a b \<longleftrightarrow> takeWhile (\<lambda>c. c \<noteq> 0) a = takeWhile (\<lambda>c. c \<noteq> 0) b"

definition xv6_dentry_insert :: "iref \<Rightarrow> bytes \<Rightarrow> u32 \<Rightarrow> fs \<Rightarrow> (int \<times> fs) option" where
  "xv6_dentry_insert dir name inum s =
     (if \<not> is_dir dir s then Some (- ENOTDIR, s)
      else if cstrlen name > DIRSIZ then Some (- ENAMETOOLONG, s)
      else if strcmp0 name [46] \<or> strcmp0 [46, 46] name then Some (- EEXIST, s)
      else do {
        let newde = zero_dirent\<lparr>de_name := strncpy_bytes name DIRSIZ, de_inum := ucast inum\<rparr>;
        let ictx = xv6_inode_ctx_init dir s;
        (error, ictx, s) \<leftarrow> xv6_init_ictx ictx dir zero_dinode s;
        if error \<noteq> 0 then Some (error, s)
        else do {
          (error, ictx, _, s) \<leftarrow> xv6_dir_iterate modcheck ictx de_insert_callback newde 0 True s;
          let s = ictx_alias dir ictx s;
          if error = 0 then xv6_ictx_dirty dir ictx s else Some (error, s)
        }
      })"

definition xv6_readdir :: "(u64 \<Rightarrow> bytes \<Rightarrow> u16 \<Rightarrow> 'e \<Rightarrow> bool \<times> 'e) \<Rightarrow> iref \<Rightarrow> u64 \<times> 'e \<Rightarrow> fs \<Rightarrow>
    (int \<times> (u64 \<times> 'e) \<times> fs) option" where
  "xv6_readdir emit inode ctx s =
     (if \<not> is_dir inode s then Some (- ENOTDIR, ctx, s)
      else do {
        let ictx = xv6_inode_ctx_init inode s;
        (error, ictx, s) \<leftarrow> xv6_init_ictx ictx inode zero_dinode s;
        if error \<noteq> 0 then Some (error, ctx, s)
        else do {
          (ret, ictx, ctx, s) \<leftarrow>
            xv6_dir_iterate modcheck ictx (readdir_callback emit) ctx (ucast (fst ctx)) False s;
          Some (ret, ctx, ictx_alias inode ictx s)
        }
      })"

definition xv6_dir_init :: "u32 \<Rightarrow> u32 \<Rightarrow> u32 \<Rightarrow> fs \<Rightarrow> (int \<times> fs) option" where
  "xv6_dir_init block inum_parent inum_this s =
     (case sb_bread block s of
        (None, s) \<Rightarrow> do { (_, s) \<leftarrow> xv6_bfree block s; Some (- EIO, s) }
      | (Some bh, s) \<Rightarrow> do {
          let s = b_store bh (put (b_data bh s) 2 [46, 0]) s;
          let s = b_store bh (wr16 (b_data bh s) 0 (ucast inum_this)) s;
          let s = b_store bh (put (b_data bh s) 18 [46, 46, 0]) s;
          let s = b_store bh (wr16 (b_data bh s) 16 (ucast inum_parent)) s;
          let s = mark_buffer_dirty bh s;
          let (error, s) = sync_dirty_buffer bh s;
          let s = brelse bh s;
          if error \<noteq> 0 then do { (_, s) \<leftarrow> xv6_bfree block s; Some (error, s) }
          else Some (error, s)
        })"

definition xv6_dir_erase :: "iref \<Rightarrow> bytes \<Rightarrow> fs \<Rightarrow> (int \<times> fs) option" where
  "xv6_dir_erase dir name s =
     (if \<not> is_dir dir s then Some (- ENOTDIR, s)
      else do {
        let ictx = xv6_inode_ctx_init dir s;
        (error, ictx, s) \<leftarrow> xv6_init_ictx ictx dir zero_dinode s;
        if error \<noteq> 0 then Some (error, s)
        else do {
          (error, ictx, (_, success), s) \<leftarrow>
            xv6_dir_iterate modcheck ictx de_erase_callback (name, False) 2 False s;
          _ \<leftarrow> xv6_assert (\<not> ic_dirty ictx);
          Some (if success then error else - ENOENT, ictx_alias dir ictx s)
        }
      })"

definition xv6_dir_rmtest :: "iref \<Rightarrow> fs \<Rightarrow> (int \<times> fs) option" where
  "xv6_dir_rmtest dir s = do {
     let ret = True;
     let ictx = xv6_inode_ctx_init dir s;
     (error, ictx, s) \<leftarrow> xv6_init_ictx ictx dir zero_dinode s;
     if error \<noteq> 0 then Some (error, s)
     else do {
       (error, ictx, ret, s) \<leftarrow> xv6_dir_iterate modcheck ictx rmtest_callback ret 2 False s;
       _ \<leftarrow> xv6_assert (\<not> ic_dirty ictx);
       let s = ictx_alias dir ictx s;
       if error \<noteq> 0 then Some (error, s) else Some (if ret then 0 else - ENOTEMPTY, s)
     }
   }"

end
