(* ===== verification/Dir_Spec.thy ===== *)
theory Dir_Spec
  imports Dir
begin

text \<open>
  What the directory operations do to a directory. A directory in memory is seen as the list
  of its entries \<open>dir_list\<close>; the invariant \<open>dir_ok\<close> says that its inode is loaded, its size
  is a whole number of entries within the maximal file size, and its blocks are mapped once and
  are neither free nor metadata. The abstract directory is the map \<open>dir_map\<close> from names to
  inode numbers: lookup and insertion implement the operations of a map, and so does erasure (its theorem is in
  \<open>Dir_Complete\<close>, with what it leaves on the disk).
\<close>

section \<open>The directory of an inode\<close>

definition dir_addrs :: "fs \<Rightarrow> iref \<Rightarrow> u32 list" where
  "dir_addrs s dir = (case i_private (inodes s dir) of Some a \<Rightarrow> a | None \<Rightarrow> [])"

definition dir_entry :: "fs \<Rightarrow> iref \<Rightarrow> nat \<Rightarrow> dirent" where
  "dir_entry s dir = entry (cache s) (dir_addrs s dir)"

definition dir_len :: "fs \<Rightarrow> iref \<Rightarrow> nat" where
  "dir_len s dir = unat (i_size (inodes s dir)) div 16"

definition dir_list :: "fs \<Rightarrow> iref \<Rightarrow> dirent list" where
  "dir_list s dir = map (dir_entry s dir) [0..<dir_len s dir]"

definition dir_ok :: "fs \<Rightarrow> iref \<Rightarrow> bool" where
  "dir_ok s dir \<longleftrightarrow> wf_geom (info s) \<and> hint_ok s \<and> \<not> balloc_lock s
     \<and> is_dir dir s \<and> i_private (inodes s dir) \<noteq> None
     \<and> file_wf (cache s) (free_blocks s \<union> meta_blocks s) (dir_addrs s dir)
     \<and> unat (i_size (inodes s dir)) mod 16 = 0 \<and> 32 \<le> unat (i_size (inodes s dir))
     \<and> unat (i_size (inodes s dir)) \<le> MAXFILE * BSIZE"

definition dctx :: "fs \<Rightarrow> iref \<Rightarrow> xv6_inode_ctx" where
  "dctx s dir = \<lparr>ic_addrs = dir_addrs s dir, ic_size = ucast (i_size (inodes s dir)), ic_dirty = False\<rparr>"

lemma dctx_simps [simp]: "ic_addrs (dctx s dir) = dir_addrs s dir" "ic_size (dctx s dir) = ucast (i_size (inodes s dir))"
    "\<not> ic_dirty (dctx s dir)"
  by (simp_all add: dctx_def)

lemma kinv_self: "kinv (frame_of s) s \<longleftrightarrow> wf_geom (info s) \<and> hint_ok s \<and> \<not> balloc_lock s"
  by (simp add: kinv_def)

lemma dir_okD:
  assumes "dir_ok s dir"
  shows "kinv (frame_of s) s" "is_dir dir s" "i_private (inodes s dir) = Some (dir_addrs s dir)"
    "file_wf (cache s) (free_blocks s \<union> meta_blocks s) (dir_addrs s dir)"
  using assms by (auto simp: dir_ok_def kinv_def dir_addrs_def)

lemma dir_ok_size:
  assumes "dir_ok s dir"
  defines "sz \<equiv> (ucast (i_size (inodes s dir)) :: u32)"
  shows "unat sz = unat (i_size (inodes s dir))" "sz mod 16 = 0" "32 \<le> sz" "dir_len s dir = unat sz div 16"
    "2 \<le> dir_len s dir" "unat sz = 16 * dir_len s dir" "dir_len s dir \<le> 64 * MAXFILE"
proof -
  have b: "unat (i_size (inodes s dir)) \<le> 274432" using assms(1) by (simp add: dir_ok_def layout_vals)
  then show u: "unat sz = unat (i_size (inodes s dir))"
    by (simp add: sz_def unsigned_ucast_eq unsigned_take_bit_eq take_bit_nat_eq_self)
  then show "sz mod 16 = 0" "32 \<le> sz" "dir_len s dir = unat sz div 16" "2 \<le> dir_len s dir"
      "unat sz = 16 * dir_len s dir" "dir_len s dir \<le> 64 * MAXFILE"
    using assms(1) b by (auto simp: dir_ok_def word_eq_unat unat_mod word_le_unat dir_len_def layout_vals)
qed

lemma init_dctx: "dir_ok s dir \<Longrightarrow> xv6_init_ictx (xv6_inode_ctx_init dir s) dir zero_dinode s = Some (0, dctx s dir, s)"
  using dir_okD(3) by (simp add: xv6_init_ictx_def xv6_inode_ctx_init_def dctx_def)

lemma alias_same: "i_private (inodes s dir) = Some (ic_addrs d) \<Longrightarrow> ictx_alias dir d s = s"
  by (cases s) (simp add: ictx_alias_def upd_inode_def fun_upd_idem)

lemma frame_inodes: "frame_of s' = frame_of s \<Longrightarrow> inodes s' = inodes s \<and> info s' = info s \<and> rdonly s' = rdonly s"
  by (simp add: frame_of_def)

text \<open>
  A step on the directory's own blocks: nothing else changed, apart from metadata and, when the
  directory grew, blocks that were free.
\<close>

definition dir_step :: "fs \<Rightarrow> iref \<Rightarrow> fs \<Rightarrow> bool" where
  "dir_step s dir s' \<longleftrightarrow> frame_of s' = frame_of s \<and> refs s' = refs s \<and> free_blocks s' = free_blocks s
     \<and> dir_ok s' dir \<and> owned (cache s') (dir_addrs s' dir) \<subseteq> owned (cache s) (dir_addrs s dir)
     \<and> (\<forall>b. b \<notin> free_blocks s \<longrightarrow> b \<notin> bitmap_blocks (info s) \<longrightarrow> b \<notin> owned (cache s) (dir_addrs s dir) \<longrightarrow>
          cache s' b = cache s b)"

lemma dir_stepI:
  assumes ok: "dir_ok s dir" and ev: "kdev.evolves (frame_of s) s (dir_addrs s dir) s' (dir_addrs s dir)"
    and p: "free_blocks s' = free_blocks s"
  shows "dir_step s dir s'"
proof -
  have k: "frame_of s' = frame_of s" "hint_ok s'" "\<not> balloc_lock s'" "refs s' = refs s"
      "meta_blocks s' = meta_blocks s"
    using evolves_frame [OF ev] by simp_all
  have f: "inodes s' = inodes s" "info s' = info s" using frame_inodes [OF k(1)] by auto
  have a: "dir_addrs s' dir = dir_addrs s dir" by (simp add: dir_addrs_def f)
  have wf: "file_wf (cache s') (free_blocks s' \<union> meta_blocks s') (dir_addrs s dir)"
    using kdev.evolvesD(5) [OF ev] k(5) by simp
  have "dir_ok s' dir"
    using ok wf k(2,3) by (simp add: dir_ok_def f a is_dir_def)
  then show ?thesis
    unfolding dir_step_def a using evolves_frame(12) [OF ev] kdev.evolvesD(7) [OF ev] k(1,4) p by blast
qed

lemma dir_stepD:
  assumes "dir_step s dir s'"
  shows "dir_ok s' dir" "inodes s' = inodes s" "info s' = info s" "dir_len s' dir = dir_len s dir"
    "dir_addrs s' dir = dir_addrs s dir" "rdonly s' = rdonly s"
  using assms frame_inodes [of s' s] by (auto simp: dir_step_def dir_len_def dir_addrs_def)

definition no_ext :: "'c xv6_diter_callback \<Rightarrow> bool" where
  "no_ext cb \<longleftrightarrow> (\<forall>k e c a e' c'. cb k e c = Some (a, e', c') \<longrightarrow> \<not> act_dir_ext a)"

lemma dir_search:
  assumes ok: "dir_ok s dir" and good: "good_cb cb" and off: "unat off \<le> dir_len s dir"
    and noext: "no_ext cb" and sc: "search_cb cb P c" and z: "\<forall>k. \<not> P k zero_dirent"
  obtains (panic) k where "xv6_dir_iterate modcheck (dctx s dir) cb c off False s = None" "unat off \<le> k"
      "k < dir_len s dir" "P k (dir_entry s dir k)" "cb (of_nat k) (dir_entry s dir k) c = None"
  | (none) e d' s' where "xv6_dir_iterate modcheck (dctx s dir) cb c off False s = Some (e, d', c, s')"
      "\<not> ic_dirty d'" "ictx_alias dir d' s' = s'" "dir_step s dir s'" "cache s' = cache s"
      "e = 0 \<longrightarrow> (\<forall>k. unat off \<le> k \<longrightarrow> k < dir_len s dir \<longrightarrow> \<not> P k (dir_entry s dir k))"
  | (hit) m e d' a x c' s' where "xv6_dir_iterate modcheck (dctx s dir) cb c off False s = Some (e, d', c', s')"
      "\<not> ic_dirty d'" "ictx_alias dir d' s' = s'" "dir_step s dir s'"
      "unat off \<le> m" "m < dir_len s dir" "P m (dir_entry s dir m)"
      "\<forall>k. unat off \<le> k \<longrightarrow> k < m \<longrightarrow> \<not> P k (dir_entry s dir k)"
      "cb (of_nat m) (dir_entry s dir m) c = Some (a, x, c')" "dir_entry s' dir = (dir_entry s dir)(m := x)"
      "x = dir_entry s dir m \<longrightarrow> cache s' = cache s"
proof -
  note z' = dir_ok_size [OF ok]
  have o: "off \<le> ic_size (dctx s dir) div 16"
    using off z'(4) by (simp add: word_le_unat unat_div)
  have al: "ictx_alias dir d' s' = s'" if "ic_addrs d' = ic_addrs (dctx s dir)" "dir_step s dir s'" for d' s'
    using that dir_okD(3) [OF ok] dir_stepD(2) [OF that(2)] by (intro alias_same) simp
  show thesis
  proof (rule kdev.iterate_search [where d = "dctx s dir" and P = P and cb = cb and off = off and s = s
        and c = c and fr = "frame_of s" and n = "dir_len s dir" and E = "dir_entry s dir"])
    show "good_cb cb" by fact
    show "kinv (frame_of s) s" using dir_okD(1) [OF ok] .
    show "file_wf (cache s) (free_blocks s \<union> meta_blocks s) (ic_addrs (dctx s dir))"
      using dir_okD(4) [OF ok] by simp
    show "ic_size (dctx s dir) mod 16 = 0" "32 \<le> ic_size (dctx s dir)" using z'(2,3) by simp_all
    show "off \<le> ic_size (dctx s dir) div 16" by (rule o)
    show "\<And>k e c a e' c'. cb k e c = Some (a, e', c') \<Longrightarrow> \<not> act_dir_ext a"
      using noext unfolding no_ext_def by blast
    show "search_cb cb P c" "\<And>k. \<not> P k zero_dirent" "\<not> ic_dirty (dctx s dir)" using sc z by simp_all
    show "dir_len s dir = unat (ic_size (dctx s dir)) div 16" using z'(4) by simp
    show "dir_entry s dir = entry (cache s) (ic_addrs (dctx s dir))" by (simp add: dir_entry_def)
  next
    fix e d' s'
    assume "xv6_dir_iterate modcheck (dctx s dir) cb c off False s = Some (e, d', c, s')"
      and d: "ic_addrs d' = ic_addrs (dctx s dir)" "\<not> ic_dirty d'"
      and ev: "kdev.evolves (frame_of s) s (ic_addrs (dctx s dir)) s' (ic_addrs (dctx s dir))"
        "free_blocks s' = free_blocks s"
      and "cache s' = cache s"
        "e = 0 \<longrightarrow> (\<forall>k\<ge>unat off. k < dir_len s dir \<longrightarrow> \<not> P k (dir_entry s dir k))"
    then show thesis using none dir_stepI [OF ok] al by simp
  next
    fix m e d' a x c' s'
    assume "xv6_dir_iterate modcheck (dctx s dir) cb c off False s = Some (e, d', c', s')"
      and d: "ic_addrs d' = ic_addrs (dctx s dir)" "\<not> ic_dirty d'"
      and ev: "kdev.evolves (frame_of s) s (ic_addrs (dctx s dir)) s' (ic_addrs (dctx s dir))"
        "free_blocks s' = free_blocks s"
      and H: "unat off \<le> m" "m < dir_len s dir" "P m (dir_entry s dir m)"
        "\<forall>k\<ge>unat off. k < m \<longrightarrow> \<not> P k (dir_entry s dir k)"
        "cb (word_of_nat m) (dir_entry s dir m) c = Some (a, x, c')"
      and E: "entry (cache s') (ic_addrs (dctx s dir)) = (dir_entry s dir)(m := x)"
        "x = dir_entry s dir m \<longrightarrow> cache s' = cache s"
    have st: "dir_step s dir s'" using dir_stepI [OF ok] ev by simp
    then show thesis
      using hit [OF \<open>xv6_dir_iterate _ _ _ _ _ _ _ = _\<close> d(2) al [OF d(1) st] st H] E dir_stepD(5) [OF st]
      by (simp add: dir_entry_def)
  qed (use panic in blast)
qed

section \<open>The callbacks search\<close>

lemma erased_wf [simp]: "wf_dirent erased_dirent"
  by (simp add: erased_dirent_def wf_dirent_def)

lemmas callback_defs = de_find_callback_def de_erase_callback_def de_insert_callback_def
  rmtest_callback_def xv6_diter_action_init_def Let_def

lemma good_callbacks [simp]:
  "good_cb de_find_callback" "good_cb de_erase_callback" "good_cb de_insert_callback" "good_cb rmtest_callback"
  by (auto simp: good_cb_def callback_defs xv6_assert_def split: if_splits prod.splits)

lemma noext_callbacks [simp]: "no_ext de_find_callback" "no_ext de_erase_callback" "no_ext rmtest_callback"
  by (auto simp: no_ext_def callback_defs xv6_assert_def split: if_splits prod.splits)

definition name_is :: "bytes \<Rightarrow> dirent \<Rightarrow> bool" where
  "name_is name e \<longleftrightarrow> cstr DIRSIZ (de_name e) = cstr DIRSIZ name"

lemma name_is_zero: "cstr DIRSIZ name \<noteq> [] \<Longrightarrow> \<not> name_is name zero_dirent"
  by (simp add: name_is_def zero_dirent_def cstr_def takeWhile_zeros)

lemma search_find: "search_cb de_find_callback (\<lambda>k. name_is name) (name, d, o')"
  by (auto simp: search_cb_def callback_defs name_is_def strncmp0_cstr split: if_splits)

lemma search_erase: "search_cb de_erase_callback (\<lambda>k. name_is name) (name, b)"
  by (auto simp: search_cb_def callback_defs name_is_def strncmp0_cstr split: if_splits)

lemma search_insert: "search_cb de_insert_callback (\<lambda>k e. de_inum e = 0) nde"
  by (auto simp: search_cb_def callback_defs xv6_assert_def split: if_splits)

lemma search_rmtest: "search_cb rmtest_callback (\<lambda>k e. (1 :: u32) < of_nat k \<and> de_inum e \<noteq> 0) b"
  by (auto simp: search_cb_def callback_defs xv6_assert_def not_le split: if_splits)

section \<open>Looking a name up\<close>

text \<open>The number of the first entry with a name.\<close>

definition name_index :: "dirent list \<Rightarrow> bytes \<Rightarrow> nat option" where
  "name_index es nm = find (\<lambda>k. cstr DIRSIZ (de_name (es ! k)) = nm) [0..<length es]"

lemma find_upt_Some: "find Q [0..<n] = Some m \<longleftrightarrow> m < n \<and> Q m \<and> (\<forall>k < m. \<not> Q k)"
  by (auto simp: find_Some_iff)

lemma find_upt_None: "find Q [0..<n] = None \<longleftrightarrow> (\<forall>k < n. \<not> Q k)"
  by (auto simp: find_None_iff)

lemma dir_list_simps [simp]: "length (dir_list s dir) = dir_len s dir"
    "k < dir_len s dir \<Longrightarrow> dir_list s dir ! k = dir_entry s dir k"
  by (simp_all add: dir_list_def)

lemma find_inum_cases:
  assumes ok: "dir_ok s dir" and nm: "cstr DIRSIZ name \<noteq> []"
  obtains (none) e s' where "xv6_find_inum dir name d0 o0 s = Some (e, 0, o0, s')" "dir_step s dir s'" "cache s' = cache s"
      "e = 0 \<longrightarrow> name_index (dir_list s dir) (cstr DIRSIZ name) = None"
  | (hit) e m s' where "xv6_find_inum dir name d0 o0 s = Some (e, of_nat m, dir_list s dir ! m, s')" "dir_step s dir s'"
      "cache s' = cache s" "name_index (dir_list s dir) (cstr DIRSIZ name) = Some m"
proof -
  have d: "is_dir dir s" using dir_okD(2) [OF ok] .
  have z: "\<forall>k :: nat. \<not> name_is name zero_dirent" using name_is_zero [OF nm] by simp
  show thesis
  proof (cases rule: dir_search [OF ok good_callbacks(1) _ noext_callbacks(1) search_find z, of 0 0 o0])
    case (2 k)
    then show ?thesis by (simp add: callback_defs split: if_splits)
  next
    case (3 e d' s')
    then show ?thesis
      using that(1) [of e s'] d init_dctx [OF ok]
      by (simp add: xv6_find_inum_def name_index_def find_upt_None name_is_def)
  next
    case (4 m e d' a x c' s')
    then have "c' = (name, of_nat m, dir_entry s dir m)" "x = dir_entry s dir m"
      by (auto simp: callback_defs name_is_def strncmp0_cstr split: if_splits)
    with 4 show ?thesis
      using that(2) [of e m s'] d init_dctx [OF ok]
      by (simp add: xv6_find_inum_def name_index_def find_upt_Some name_is_def)
  qed simp
qed

text \<open>
  \<^verbatim>\<open>xv6_find_inum\<close> always returns; without an I/O error the position and the copied entry
  are those of the first entry of the directory with this name (position 0 when there is
  none), and the file system is unchanged.
\<close>

lemma find_inum_first_match:
  assumes "dir_ok s dir" and "cstr DIRSIZ name \<noteq> []"
  shows "\<exists>e dnum dout s'. xv6_find_inum dir name d0 o0 s = Some (e, dnum, dout, s')
    \<and> cache s' = cache s \<and> inodes s' = inodes s \<and> refs s' = refs s
    \<and> (e = 0 \<longrightarrow> (dnum, dout) = (case name_index (dir_list s dir) (cstr DIRSIZ name) of
         None \<Rightarrow> (0, o0) | Some k \<Rightarrow> (of_nat k, dir_list s dir ! k)))"
proof (cases rule: find_inum_cases [OF assms, of d0 o0])
  case (1 e s')
  then show ?thesis using dir_stepD(2) [OF 1(2)] by (simp add: dir_step_def)
next
  case (2 e m s')
  then show ?thesis using dir_stepD(2) [OF 2(2)] by (simp add: dir_step_def)
qed

section \<open>The directory as a map\<close>

definition dir_map :: "dirent list \<Rightarrow> bytes \<Rightarrow> u16 option" where
  "dir_map es nm = (if nm = [] then None else map_option (\<lambda>k. de_inum (es ! k)) (name_index es nm))"

definition ent_name :: "dirent \<Rightarrow> bytes" where
  "ent_name e = cstr DIRSIZ (de_name e)"

text \<open>Unused entries have no name, and no two entries have the same name.\<close>

definition tidy :: "dirent list \<Rightarrow> bool" where
  "tidy es \<longleftrightarrow> (\<forall>k < length es. (de_inum (es ! k) = 0) = (ent_name (es ! k) = []))
     \<and> (\<forall>i < length es. \<forall>j < length es. ent_name (es ! i) = ent_name (es ! j) \<longrightarrow>
          ent_name (es ! i) \<noteq> [] \<longrightarrow> i = j)"

lemma find_upt_cong: "(\<And>k. k < n \<Longrightarrow> Q k = Q' k) \<Longrightarrow> find Q [0..<n] = find Q' [0..<n]"
  by (rule find_cong) auto

lemma name_index_Some: "name_index es nm = Some m \<longleftrightarrow>
    m < length es \<and> ent_name (es ! m) = nm \<and> (\<forall>k < m. ent_name (es ! k) \<noteq> nm)"
  by (simp add: name_index_def find_upt_Some ent_name_def)

lemma name_index_None: "name_index es nm = None \<longleftrightarrow> (\<forall>k < length es. ent_name (es ! k) \<noteq> nm)"
  by (simp add: name_index_def find_upt_None ent_name_def)

lemma tidy_uniq: "tidy es \<Longrightarrow> i < length es \<Longrightarrow> j < length es \<Longrightarrow> ent_name (es ! i) = ent_name (es ! j) \<Longrightarrow>
    ent_name (es ! i) \<noteq> [] \<Longrightarrow> i = j"
  unfolding tidy_def by blast

lemma tidy_index: "tidy es \<Longrightarrow> m < length es \<Longrightarrow> ent_name (es ! m) = nm \<Longrightarrow> nm \<noteq> [] \<Longrightarrow> name_index es nm = Some m"
proof -
  assume t: "tidy es" and m: "m < length es" "ent_name (es ! m) = nm" "nm \<noteq> []"
  have "ent_name (es ! k) \<noteq> nm" if "k < m" for k
    using tidy_uniq [OF t, of k m] that m by auto
  then show ?thesis using m by (simp add: name_index_Some)
qed

lemma dir_map_Some: "tidy es \<Longrightarrow> dir_map es nm = Some i \<longleftrightarrow>
    nm \<noteq> [] \<and> (\<exists>k < length es. ent_name (es ! k) = nm \<and> de_inum (es ! k) = i)"
proof
  assume "dir_map es nm = Some i"
  then show "nm \<noteq> [] \<and> (\<exists>k < length es. ent_name (es ! k) = nm \<and> de_inum (es ! k) = i)"
    by (auto simp: dir_map_def name_index_Some split: if_splits)
next
  assume "tidy es" "nm \<noteq> [] \<and> (\<exists>k < length es. ent_name (es ! k) = nm \<and> de_inum (es ! k) = i)"
  then show "dir_map es nm = Some i" using tidy_index by (auto simp: dir_map_def)
qed

lemma dir_map_None: "dir_map es nm = None \<longleftrightarrow> nm = [] \<or> (\<forall>k < length es. ent_name (es ! k) \<noteq> nm)"
  by (auto simp: dir_map_def name_index_None)

lemma index_upd_other:
  assumes "m < length es" "ent_name (es ! m) \<noteq> nm" "ent_name x \<noteq> nm"
  shows "name_index (es[m := x]) nm = name_index es nm"
proof -
  have "(ent_name (es[m := x] ! k) = nm) = (ent_name (es ! k) = nm)" for k
    using assms by (cases "k = m") auto
  then show ?thesis by (simp add: name_index_def ent_name_def [symmetric])
qed

lemma dir_map_upd_other:
  assumes "m < length es" "ent_name (es ! m) \<noteq> nm" "ent_name x \<noteq> nm"
  shows "dir_map (es[m := x]) nm = dir_map es nm"
proof -
  have "k \<noteq> m" if "name_index es nm = Some k" for k
    using that assms(2) by (auto simp: name_index_Some)
  then show ?thesis
    unfolding dir_map_def index_upd_other [OF assms] by (cases "name_index es nm") auto
qed

lemma ent_name_erased [simp]: "ent_name erased_dirent = []" "de_inum erased_dirent = 0"
  by (simp_all add: ent_name_def erased_dirent_def cstr_def DIRSIZ_def takeWhile_eq_Nil_iff hd_conv_nth)

lemma dir_map_erase:
  assumes t: "tidy es" and m: "m < length es" and nm: "ent_name (es ! m) = nm" "nm \<noteq> []"
  shows "dir_map (es[m := erased_dirent]) = (dir_map es)(nm := None)" "tidy (es[m := erased_dirent])"
proof -
  let ?es = "es[m := erased_dirent]"
  have n: "ent_name (?es ! k) = (if k = m then [] else ent_name (es ! k))" if "k < length es" for k
    using that m by (cases "k = m") auto
  have uniq: "i = j" if "i < length es" "j < length es" "ent_name (es ! i) = ent_name (es ! j)" "ent_name (es ! i) \<noteq> []" for i j
    using t that unfolding tidy_def by blast
  show "tidy ?es"
    unfolding tidy_def
  proof (intro conjI allI impI)
    fix k assume "k < length ?es"
    then show "(de_inum (?es ! k) = 0) = (ent_name (?es ! k) = [])"
      using t m by (cases "k = m") (auto simp: tidy_def)
  next
    fix i j assume "i < length ?es" "j < length ?es" "ent_name (?es ! i) = ent_name (?es ! j)" "ent_name (?es ! i) \<noteq> []"
    then show "i = j" using uniq [of i j] by (simp add: n split: if_splits)
  qed
  show "dir_map ?es = (dir_map es)(nm := None)"
  proof
    fix x
    have "ent_name (?es ! k) \<noteq> nm" if "k < length es" for k
      using uniq [of k m] that m nm by (auto simp: n)
    then show "dir_map ?es x = ((dir_map es)(nm := None)) x"
    proof (cases "x = nm")
      case False
      show ?thesis
      proof (cases "x = []")
        case True
        then show ?thesis using nm by (simp add: dir_map_def)
      next
        case x: False
        then show ?thesis using False nm m by (simp add: dir_map_upd_other)
      qed
    qed (simp add: dir_map_None)
  qed
qed

text \<open>Entering a name that is not there, in an unused entry or at the end.\<close>

lemma index_fresh:
  assumes "\<forall>k < length es. ent_name (es ! k) \<noteq> nm" "m \<le> length es" "ent_name x = nm"
  shows "name_index (if m = length es then es @ [x] else es[m := x]) nm = Some m"
  unfolding name_index_Some using assms by (auto simp: nth_append)

lemma dir_map_insert:
  assumes t: "tidy es" and m: "m \<le> length es" "m < length es \<longrightarrow> de_inum (es ! m) = 0"
    and x: "ent_name x = nm" "nm \<noteq> []" "de_inum x \<noteq> 0" and fresh: "dir_map es nm = None"
  defines "es' \<equiv> if m = length es then es @ [x] else es[m := x]"
  shows "dir_map es' = (dir_map es)(nm \<mapsto> de_inum x)" "tidy es'"
proof -
  have f: "ent_name (es ! k) \<noteq> nm" if "k < length es" for k
    using fresh that x by (auto simp: dir_map_None)
  have em: "m < length es \<longrightarrow> ent_name (es ! m) = []" using t m(2) by (auto simp: tidy_def)
  have len: "length es' = (if m = length es then Suc (length es) else length es)" by (simp add: es'_def)
  have nth: "es' ! k = (if k = m then x else es ! k)" if "k < length es'" for k
    using that m(1) by (auto simp: es'_def nth_append)
  have bound: "k < length es" if "k < length es'" "k \<noteq> m" for k
    using that m(1) by (auto simp: len split: if_splits)
  have ml: "m < length es'" using m(1) by (auto simp: len)
  show "tidy es'"
    unfolding tidy_def
  proof (intro conjI allI impI)
    fix k assume "k < length es'"
    then show "(de_inum (es' ! k) = 0) = (ent_name (es' ! k) = [])"
      using bound [of k] t x by (auto simp: nth tidy_def)
  next
    fix i j assume h: "i < length es'" "j < length es'" "ent_name (es' ! i) = ent_name (es' ! j)" "ent_name (es' ! i) \<noteq> []"
    show "i = j"
    proof (cases "i = m \<or> j = m")
      case True
      then show ?thesis using h nth f bound x(1) by metis
    next
      case False
      then show ?thesis using h bound t by (simp add: nth tidy_def)
    qed
  qed
  show "dir_map es' = (dir_map es)(nm \<mapsto> de_inum x)"
  proof
    fix y
    have idx: "name_index es' nm = Some m"
      unfolding es'_def by (rule index_fresh) (use f m x in auto)
    show "dir_map es' y = ((dir_map es)(nm \<mapsto> de_inum x)) y"
    proof (cases "y = nm")
      case True
      then show ?thesis using idx x ml by (simp add: dir_map_def nth)
    next
      case False
      have "dir_map es' y = dir_map es y"
      proof (cases "y = []")
        case y: False
        show ?thesis
        proof (cases "m = length es")
          case True
          have "name_index (es @ [x]) y = Some k \<longleftrightarrow> name_index es y = Some k" for k
          proof (cases "k < length es")
            case True
            then have "(es @ [x]) ! k = es ! k" "\<And>j. j < k \<Longrightarrow> (es @ [x]) ! j = es ! j"
              by (simp_all add: nth_append)
            then show ?thesis using True by (auto simp: name_index_Some)
          next
            case k: False
            then have "(es @ [x]) ! k = x" if "k < Suc (length es)"
              using that by (simp add: nth_append less_Suc_eq)
            then show ?thesis using k False x(1) unfolding name_index_Some by auto
          qed
          then have I: "name_index (es @ [x]) y = name_index es y" by (metis option.exhaust)
          show ?thesis
            unfolding es'_def if_P [OF True] dir_map_def I
          proof (cases "name_index es y")
            case (Some k)
            then have "k < length es" by (simp add: name_index_Some)
            then show "(if y = [] then None else map_option (\<lambda>k. de_inum ((es @ [x]) ! k)) (name_index es y))
                = (if y = [] then None else map_option (\<lambda>k. de_inum (es ! k)) (name_index es y))"
              by (simp add: Some nth_append)
          qed simp
        next
          case mm: False
          then show ?thesis
            using em m(1) y False x(1) by (simp add: es'_def dir_map_upd_other)
        qed
      qed (simp add: dir_map_def)
      then show ?thesis using False by simp
    qed
  qed
qed

section \<open>Erasing an entry\<close>

lemma dir_list_upd: "dir_entry s' dir = (dir_entry s dir)(m := x) \<Longrightarrow> dir_len s' dir = dir_len s dir \<Longrightarrow>
    dir_list s' dir = (dir_list s dir)[m := x]"
  by (rule nth_equalityI) (auto simp: dir_list_def nth_list_update)

lemma name_is_ent: "name_is name e \<longleftrightarrow> ent_name e = cstr DIRSIZ name"
  by (simp add: name_is_def ent_name_def)

lemma erase_cases:
  assumes ok: "dir_ok s dir" and nm: "cstr DIRSIZ name \<noteq> []"
  obtains (none) s' where "xv6_dir_erase dir name s = Some (- ENOENT, s')" "dir_step s dir s'" "cache s' = cache s"
  | (hit) e m s' where "xv6_dir_erase dir name s = Some (e, s')" "dir_step s dir s'" "2 \<le> m" "m < dir_len s dir"
      "ent_name (dir_list s dir ! m) = cstr DIRSIZ name" "dir_list s' dir = (dir_list s dir)[m := erased_dirent]"
      "dir_entry s' dir = (dir_entry s dir)(m := erased_dirent)"
proof -
  have d: "is_dir dir s" using dir_okD(2) [OF ok] .
  have z: "\<forall>k :: nat. \<not> name_is name zero_dirent" using name_is_zero [OF nm] by simp
  have two: "unat (2 :: u32) \<le> dir_len s dir" using dir_ok_size(5) [OF ok] by simp
  show thesis
  proof (cases rule: dir_search [OF ok good_callbacks(2) two noext_callbacks(2) search_erase z, of False])
    case (1 k)
    then show ?thesis by (simp add: callback_defs split: if_splits)
  next
    case (2 e d' s')
    then show ?thesis
      using none [of s'] d init_dctx [OF ok] by (simp add: xv6_dir_erase_def)
  next
    case (3 m e d' a x c' s')
    then have c: "c' = (name, True)" "x = erased_dirent"
      by (auto simp: callback_defs name_is_def strncmp0_cstr split: if_splits)
    have "xv6_dir_erase dir name s = Some (e, s')"
      using 3(1-3) c d init_dctx [OF ok] by (simp add: xv6_dir_erase_def)
    then show ?thesis
      using hit [of e s' m] 3 c dir_list_upd [OF 3(10)] dir_stepD(4) [OF 3(4)] by (simp add: name_is_ent)
  qed
qed

text \<open>The whole invariant of a directory: also, the space behind its last entry is zero.\<close>

definition dir_inv :: "fs \<Rightarrow> iref \<Rightarrow> bool" where
  "dir_inv s dir \<longleftrightarrow> dir_ok s dir \<and> tidy (dir_list s dir)
     \<and> (\<forall>k. dir_len s dir \<le> k \<longrightarrow> dir_entry s dir k = zero_dirent)"

lemma erase_map:
  assumes "dir_inv s dir" and "cstr DIRSIZ name \<noteq> []"
  shows "\<exists>e s'. xv6_dir_erase dir name s = Some (e, s') \<and> dir_inv s' dir \<and> dir_step s dir s'
    \<and> dir_map (dir_list s' dir) \<in> {dir_map (dir_list s dir), (dir_map (dir_list s dir))(cstr DIRSIZ name := None)}
    \<and> (e = 0 \<longrightarrow> dir_map (dir_list s dir) (cstr DIRSIZ name) \<noteq> None
         \<and> dir_map (dir_list s' dir) = (dir_map (dir_list s dir))(cstr DIRSIZ name := None)
         \<and> (\<exists>m < dir_len s dir. 2 \<le> m \<and> ent_name (dir_list s dir ! m) = cstr DIRSIZ name
              \<and> dir_list s' dir = (dir_list s dir)[m := erased_dirent]))"
proof -
  from assms(1) have ok: "dir_ok s dir" and t: "tidy (dir_list s dir)"
    and tl: "\<forall>k. dir_len s dir \<le> k \<longrightarrow> dir_entry s dir k = zero_dirent" by (auto simp: dir_inv_def)
  show ?thesis
  proof (cases rule: erase_cases [OF ok assms(2)])
    case (1 s')
    have e: "dir_entry s' dir = dir_entry s dir" "dir_len s' dir = dir_len s dir"
      using 1(3) dir_stepD(4,5) [OF 1(2)] by (simp_all add: dir_entry_def)
    then have l: "dir_list s' dir = dir_list s dir" by (simp add: dir_list_def)
    have "dir_inv s' dir" using dir_stepD(1) [OF 1(2)] t tl by (simp add: dir_inv_def l e)
    then show ?thesis using 1(1,2) l by simp
  next
    case (2 e m s')
    note D = dir_map_erase [OF t _ 2(5) assms(2), simplified, OF 2(4), folded 2(6)]
    have "dir_map (dir_list s dir) (cstr DIRSIZ name) \<noteq> None"
      using 2(4,5) assms(2) by (auto simp: dir_map_None)
    moreover have "dir_inv s' dir"
      using dir_stepD(1,4) [OF 2(2)] D(2) tl 2(4,7) by (auto simp: dir_inv_def)
    ultimately show ?thesis using 2(1-6) D(1) by auto
  qed
qed

section \<open>Testing for emptiness\<close>

lemma ent_name_nil: "wf_dirent e \<Longrightarrow> ent_name e = [] \<longleftrightarrow> de_name e ! 0 = 0"
  by (cases "de_name e") (auto simp: ent_name_def cstr_def wf_dirent_def DIRSIZ_def takeWhile_eq_Nil_iff)

lemma dir_entry_wf [simp]: "wf_dirent (dir_entry s dir k)"
  by (simp add: dir_entry_def)

lemma of_nat_gt1: "k < 2 ^ 32 \<Longrightarrow> (1 :: u32) < of_nat k \<longleftrightarrow> 2 \<le> k"
  by (auto simp: word_less_unat unat_of_nat32)

lemma rmtest_cases:
  assumes inv: "dir_inv s dir"
  obtains (full) e k s' where "xv6_dir_rmtest dir s = Some (e, s')" "e \<noteq> 0" "dir_step s dir s'" "cache s' = cache s"
      "2 \<le> k" "k < dir_len s dir" "de_inum (dir_list s dir ! k) \<noteq> 0"
  | (none) e s' where "xv6_dir_rmtest dir s = Some (e, s')" "dir_step s dir s'" "cache s' = cache s"
      "e = 0 \<longrightarrow> (\<forall>k. 2 \<le> k \<longrightarrow> k < dir_len s dir \<longrightarrow> de_inum (dir_list s dir ! k) = 0)"
proof -
  from inv have ok: "dir_ok s dir" and t: "tidy (dir_list s dir)" by (auto simp: dir_inv_def)
  have two: "unat (2 :: u32) \<le> dir_len s dir" using dir_ok_size(5) [OF ok] by simp
  have z: "\<forall>k :: nat. \<not> ((1 :: u32) < of_nat k \<and> de_inum zero_dirent \<noteq> 0)" by (simp add: zero_dirent_def)
  have big: "k < 2 ^ 32" if "k < dir_len s dir" for k
    using dir_ok_size(7) [OF ok] that by (simp add: layout_vals)
  have nz: "de_name (dir_entry s dir k) ! 0 \<noteq> 0" if "k < dir_len s dir" "de_inum (dir_entry s dir k) \<noteq> 0" for k
    using t that ent_name_nil [OF dir_entry_wf] by (auto simp: tidy_def)
  show thesis
  proof (cases rule: dir_search [OF ok good_callbacks(4) two noext_callbacks(3) search_rmtest z, of True])
    case (1 k)
    then show ?thesis using nz [of k] by (simp add: callback_defs xv6_assert_def split: if_splits)
  next
    case (2 e d' s')
    have "\<forall>k. 2 \<le> k \<longrightarrow> k < dir_len s dir \<longrightarrow> de_inum (dir_list s dir ! k) = 0" if "e = 0"
      using 2(6) that of_nat_gt1 [OF big] by auto
    then show ?thesis
      using none [of e s'] 2(1-5) init_dctx [OF ok] by (simp add: xv6_dir_rmtest_def)
  next
    case (3 m e d' a x c' s')
    have c: "c' = False" "x = dir_entry s dir m" using 3(5-7,9) nz [of m] of_nat_gt1 [OF big, of m]
      by (auto simp: callback_defs xv6_assert_def not_le split: if_splits)
    have "xv6_dir_rmtest dir s = Some (if e \<noteq> 0 then e else - ENOTEMPTY, s')"
      using 3(1-3) c init_dctx [OF ok] by (simp add: xv6_dir_rmtest_def)
    then show ?thesis
      using full [of "if e \<noteq> 0 then e else - ENOTEMPTY" s' m] 3 c by simp
  qed
qed

text \<open>
  \<^verbatim>\<open>xv6_dir_rmtest\<close> always returns on a directory that satisfies the invariant (its
  assertion cannot fail), changes nothing, and answers 0 only when every entry behind the first
  two is unused.
\<close>

lemma rmtest_safe:
  assumes "dir_inv s dir"
  shows "\<exists>e s'. xv6_dir_rmtest dir s = Some (e, s') \<and> cache s' = cache s \<and> inodes s' = inodes s \<and> refs s' = refs s
    \<and> (e = 0 \<longrightarrow> (\<forall>k. 2 \<le> k \<longrightarrow> k < dir_len s dir \<longrightarrow> de_inum (dir_list s dir ! k) = 0))"
proof (cases rule: rmtest_cases [OF assms])
  case (1 e k s')
  then show ?thesis using dir_stepD(2) [OF 1(3)] by (simp add: dir_step_def)
next
  case (2 e s')
  then show ?thesis using dir_stepD(2) [OF 2(2)] by (simp add: dir_step_def)
qed

section \<open>Inserting an entry\<close>

lemma upd_inode_simps [simp]:
  "cache (upd_inode i f s) = cache s" "refs (upd_inode i f s) = refs s" "info (upd_inode i f s) = info s"
  "rdonly (upd_inode i f s) = rdonly s" "balloc_lock (upd_inode i f s) = balloc_lock s"
  "itable_lock (upd_inode i f s) = itable_lock s" "env (upd_inode i f s) = env s"
  "inodes (upd_inode i f s) = (inodes s)(i := f (inodes s i))" "hint_ok (upd_inode i f s) = hint_ok s"
  "free_blocks (upd_inode i f s) = free_blocks s" "meta_blocks (upd_inode i f s) = meta_blocks s"
  "itree_lock (upd_inode i f s) = itree_lock s" "inode_tree (upd_inode i f s) = inode_tree s"
  "refcount (upd_inode i f s) = refcount s" "next_iref (upd_inode i f s) = next_iref s"
  by (simp_all add: upd_inode_def hint_ok_def hint_of_def free_blocks_def bm_used_def meta_blocks_def)

lemma upd_inode_upd: "upd_inode i f (upd_inode i g s) = upd_inode i (f \<circ> g) s"
  by (simp add: upd_inode_def)

text \<open>A directory that grew: only this inode's size and addresses changed, blocks were taken from
  the free ones only, and the blocks of other files are untouched.\<close>

definition dir_grew :: "fs \<Rightarrow> iref \<Rightarrow> fs \<Rightarrow> bool" where
  "dir_grew s dir s' \<longleftrightarrow> dir_ok s' dir \<and> info s' = info s \<and> rdonly s' = rdonly s \<and> env s' = env s
     \<and> itable_lock s' = itable_lock s \<and> itree_lock s' = itree_lock s \<and> inode_tree s' = inode_tree s
     \<and> refcount s' = refcount s \<and> next_iref s' = next_iref s
     \<and> refs s' = refs s \<and> free_blocks s' \<subseteq> free_blocks s
     \<and> owned (cache s') (dir_addrs s' dir) \<subseteq> owned (cache s) (dir_addrs s dir) \<union> (free_blocks s - free_blocks s')
     \<and> (\<exists>a z d. inodes s' = (inodes s)(dir := (inodes s dir)\<lparr>i_private := Some a, i_size := z, i_dirty := d\<rparr>))
     \<and> (\<forall>b. b \<notin> free_blocks s \<longrightarrow> b \<notin> bitmap_blocks (info s) \<longrightarrow> b \<notin> owned (cache s) (dir_addrs s dir) \<longrightarrow>
          cache s' b = cache s b)"

lemma grown_ok:
  assumes ok: "dir_ok s dir" and ev: "kdev.evolves (frame_of s) s (dir_addrs s dir) s1 a"
    and s': "s' = upd_inode dir (\<lambda>i. i\<lparr>i_private := Some a, i_size := z, i_dirty := d\<rparr>) s1"
    and z: "unat z mod 16 = 0" "32 \<le> unat z" "unat z \<le> MAXFILE * BSIZE"
  shows "dir_grew s dir s'" "dir_entry s' dir = entry (cache s1) a" "dir_len s' dir = unat z div 16"
proof -
  have k: "frame_of s1 = frame_of s" "hint_ok s1" "\<not> balloc_lock s1" "refs s1 = refs s" "meta_blocks s1 = meta_blocks s"
      "free_blocks s1 \<subseteq> free_blocks s"
    using evolves_frame [OF ev] by simp_all
  have f: "inodes s1 = inodes s" "info s1 = info s" "rdonly s1 = rdonly s" "env s1 = env s"
    "itable_lock s1 = itable_lock s" "itree_lock s1 = itree_lock s" "inode_tree s1 = inode_tree s"
    "refcount s1 = refcount s" "next_iref s1 = next_iref s"
    using k(1) by (auto simp: frame_of_def)
  have wf: "file_wf (cache s1) (free_blocks s1 \<union> meta_blocks s1) a"
    using kdev.evolvesD(5) [OF ev] k(5) by simp
  have a: "dir_addrs s' dir = a" by (simp add: dir_addrs_def s')
  have "dir_ok s' dir"
    using ok wf k(2,3) z by (simp add: dir_ok_def a) (simp add: s' f is_dir_def)
  then show "dir_grew s dir s'"
    unfolding dir_grew_def a using evolves_frame(12) [OF ev] kdev.evolvesD(7) [OF ev] k(4,6) f by (simp add: s') blast
  show "dir_entry s' dir = entry (cache s1) a" by (simp add: dir_entry_def a) (simp add: s')
  show "dir_len s' dir = unat z div 16" by (simp add: dir_len_def s')
qed

definition new_dirent :: "bytes \<Rightarrow> u32 \<Rightarrow> dirent" where
  "new_dirent name inum = zero_dirent\<lparr>de_name := strncpy_bytes name DIRSIZ, de_inum := ucast inum\<rparr>"

lemma new_dirent_simps [simp]: "wf_dirent (new_dirent name inum)" "de_inum (new_dirent name inum) = ucast inum"
    "ent_name (new_dirent name inum) = cstr DIRSIZ name"
  by (simp_all add: new_dirent_def wf_dirent_def ent_name_def)

lemma ucast_size [simp]: "(ucast (ucast x :: u64) :: u32) = x"
  by (rule bit_word_eqI) (auto simp: bit_simps)

lemma insert_callback_ext: "de_insert_callback k e c = Some (a, e', c') \<Longrightarrow> act_dir_ext a \<and> act_dir_dirty a"
  by (auto simp: callback_defs xv6_assert_def split: if_splits)

lemma insert_callback_zero: "\<forall>k c a e' c'. de_insert_callback k zero_dirent c = Some (a, e', c') \<longrightarrow> \<not> act_cont a"
  by (auto simp: callback_defs xv6_assert_def zero_dirent_def split: if_splits)

text \<open>The last step of an insertion: the addresses and the size of the inode.\<close>

definition insert_fini :: "iref \<Rightarrow> int \<Rightarrow> xv6_inode_ctx \<Rightarrow> fs \<Rightarrow> fs" where
  "insert_fini dir e d s = (let s = ictx_alias dir d s in
     if e = 0 \<and> ic_dirty d then upd_inode dir (\<lambda>i. i\<lparr>i_size := ucast (ic_size d), i_dirty := True\<rparr>) s else s)"

lemma insert_unfold:
  assumes ok: "dir_ok s dir" and nm: "cstrlen name \<le> DIRSIZ" "\<not> strcmp0 name [46]" "\<not> strcmp0 [46, 46] name"
  shows "xv6_dentry_insert dir name inum s = do {
     (error, d, _, s1) \<leftarrow> xv6_dir_iterate modcheck (dctx s dir) de_insert_callback (new_dirent name inum) 0 True s;
     if i_private (inodes s1 dir) = None then do {
       let s1 = ictx_alias dir d s1;
       if error = 0 then xv6_ictx_dirty dir d s1 else Some (error, s1) }
     else Some (error, insert_fini dir error d s1) }"
proof -
  have f: "xv6_ictx_dirty dir d (ictx_alias dir d s1) = Some (0, insert_fini dir 0 d s1)"
    if "i_private (inodes s1 dir) = Some p" for d s1 p
    using that
    by (cases "inodes s1 dir")
      (auto simp: insert_fini_def xv6_ictx_dirty_def mark_inode_dirty_def ictx_alias_def upd_inode_def Let_def)
  have g: "error \<noteq> 0 \<Longrightarrow> insert_fini dir error d s1 = ictx_alias dir d s1" for error d s1
    by (simp add: insert_fini_def)
  show ?thesis
    using dir_okD(2) [OF ok] nm init_dctx [OF ok] f g
    by (auto simp: xv6_dentry_insert_def new_dirent_def [symmetric] Let_def not_less
        intro!: arg_cong [where f = "Option.bind _"] ext split: option.split)
qed

lemma fini_ok:
  assumes inv: "dir_ok s dir" and ev: "kdev.evolves (frame_of s) s (dir_addrs s dir) s1 (ic_addrs d)"
    and sz: "unat (ic_size d) = 16 * n" "2 \<le> n" "n \<le> 64 * MAXFILE"
    and keep: "e = 0 \<and> ic_dirty d \<or> n = dir_len s dir"
  defines "s' \<equiv> insert_fini dir e d s1"
  shows "dir_grew s dir s'" "dir_entry s' dir = entry (cache s1) (ic_addrs d)" "dir_len s' dir = n"
proof -
  have f: "inodes s1 = inodes s" by (rule evolves_frame(8) [OF ev])
  define z where "z = (if e = 0 \<and> ic_dirty d then ucast (ic_size d) else i_size (inodes s dir))"
  have s': "s' = upd_inode dir (\<lambda>i. i\<lparr>i_private := Some (ic_addrs d), i_size := z,
      i_dirty := (e = 0 \<and> ic_dirty d \<or> i_dirty (inodes s dir))\<rparr>) s1"
    using dir_okD(3) [OF inv]
    by (auto simp: s'_def insert_fini_def ictx_alias_def f z_def Let_def upd_inode_def)
  have z: "unat z = 16 * n"
    using keep sz(1) dir_ok_size(1,6) [OF inv] by (auto simp: z_def)
  note G = grown_ok [OF inv ev s']
  show "dir_grew s dir s'" "dir_entry s' dir = entry (cache s1) (ic_addrs d)" "dir_len s' dir = n"
    using G z sz by (auto simp: layout_vals)
qed

lemma fini_views:
  assumes ok: "dir_ok s dir" and ev: "kdev.evolves (frame_of s) s (dir_addrs s dir) s1 (ic_addrs d)"
  shows "free_blocks (insert_fini dir e d s1) = free_blocks s1" "cache (insert_fini dir e d s1) = cache s1"
    "dir_addrs (insert_fini dir e d s1) dir = ic_addrs d"
proof -
  obtain p where "i_private (inodes s1 dir) = Some p" using evolves_frame(8) [OF ev] dir_okD(3) [OF ok] by simp
  then have e: "insert_fini dir e d s1 = upd_inode dir (\<lambda>i. i\<lparr>i_private := Some (ic_addrs d),
      i_size := (if e = 0 \<and> ic_dirty d then ucast (ic_size d) else i_size i), i_dirty := (e = 0 \<and> ic_dirty d \<or> i_dirty i)\<rparr>) s1"
    by (auto simp: insert_fini_def ictx_alias_def Let_def upd_inode_def)
  show "free_blocks (insert_fini dir e d s1) = free_blocks s1" "cache (insert_fini dir e d s1) = cache s1"
    by (simp_all add: e)
  show "dir_addrs (insert_fini dir e d s1) dir = ic_addrs d" by (simp add: dir_addrs_def e upd_inode_def)
qed

text \<open>
  Where an insertion ends, for any list of entries. Behind the end there may be an entry in use: then it
  becomes the last one.
\<close>

lemma insert_place:
  assumes ok: "dir_ok s dir" and small: "fi_size (info s) \<le> 8192"
    and nm: "cstrlen name \<le> DIRSIZ" "\<not> strcmp0 name [46]" "\<not> strcmp0 [46, 46] name"
  obtains (panic) k where "xv6_dentry_insert dir name inum s = None" "k \<le> dir_len s dir" "de_inum (dir_entry s dir k) = 0"
      "de_name (dir_entry s dir k) ! 0 \<noteq> 0"
  | (fail) e s' where "xv6_dentry_insert dir name inum s = Some (e, s')" "e \<noteq> 0" "dir_grew s dir s'"
      "dir_entry s' dir = dir_entry s dir" "dir_len s' dir = dir_len s dir"
  | (put) e m s' where "xv6_dentry_insert dir name inum s = Some (e, s')" "dir_grew s dir s'" "m < dir_len s dir"
      "de_inum (dir_entry s dir m) = 0" "\<forall>k < m. de_inum (dir_entry s dir k) \<noteq> 0"
      "dir_entry s' dir = (dir_entry s dir)(m := new_dirent name inum)" "dir_len s' dir = dir_len s dir"
      "e = 0 \<longrightarrow> free_blocks s \<subseteq> free_blocks s' \<union> owned (cache s') (dir_addrs s' dir)"
  | (app) e x s' where "xv6_dentry_insert dir name inum s = Some (e, s')" "dir_grew s dir s'"
      "\<forall>k < dir_len s dir. de_inum (dir_entry s dir k) \<noteq> 0" "dir_len s dir < 64 * MAXFILE"
      "de_inum (dir_entry s dir (dir_len s dir)) = 0 \<longrightarrow> x = new_dirent name inum"
      "dir_entry s' dir = (dir_entry s dir)(dir_len s dir := x)"
      "dir_len s' dir = (if e = 0 then dir_len s dir + 1 else dir_len s dir)"
      "e = 0 \<longrightarrow> free_blocks s \<subseteq> free_blocks s' \<union> owned (cache s') (dir_addrs s' dir)"
proof -
  let ?nde = "new_dirent name inum" and ?d = "dctx s dir"
  note SZ = dir_ok_size [OF ok]
  have U: "xv6_dentry_insert dir name inum s = Some (e, insert_fini dir e d s1)"
    if "xv6_dir_iterate modcheck ?d de_insert_callback ?nde 0 True s = Some (e, d, c, s1)" "inodes s1 = inodes s" for e d c s1
    using insert_unfold [OF ok nm, of inum] that dir_okD(3) [OF ok] by simp
  have fi: "inodes s1 = inodes s" if "kdev.evolves (frame_of s) s (dir_addrs s dir) s1 a" for s1 a
    by (rule evolves_frame(8) [OF that])
  show thesis
  proof (rule kdev.iterate_place [where cb = de_insert_callback and fr = "frame_of s" and s = s and d = ?d
        and P = "\<lambda>k e. de_inum e = 0" and c = ?nde and n = "dir_len s dir" and E = "dir_entry s dir"])
    show "good_cb de_insert_callback" "kinv (frame_of s) s" "search_cb de_insert_callback (\<lambda>k e. de_inum e = 0) ?nde"
      using dir_okD(1) [OF ok] search_insert by simp_all
    show "file_wf (cache s) (free_blocks s \<union> meta_blocks s) (ic_addrs ?d)" using dir_okD(4) [OF ok] by simp
    show "ic_size ?d mod 16 = 0" "32 \<le> ic_size ?d" using SZ(2,3) by simp_all
    show "dir_len s dir = unat (ic_size ?d) div 16" using SZ(4) by simp
    show "dir_entry s dir = entry (cache s) (ic_addrs ?d)" by (simp add: dir_entry_def)
    show "\<And>k e c a e' c'. de_insert_callback k e c = Some (a, e', c') \<Longrightarrow> act_dir_ext a \<and> act_dir_dirty a"
      by (rule insert_callback_ext)
    show "\<forall>k c a e' c'. de_insert_callback k zero_dirent c = Some (a, e', c') \<longrightarrow> \<not> act_cont a"
      by (rule insert_callback_zero)
  next
    assume "xv6_dir_iterate modcheck ?d de_insert_callback ?nde 0 True s = None"
    then have P0: "xv6_dentry_insert dir name inum s = None" using insert_unfold [OF ok nm, of inum] by simp
    assume "(\<exists>k\<le>dir_len s dir. de_inum (dir_entry s dir k) = 0 \<and>
          de_insert_callback (word_of_nat k) (dir_entry s dir k) ?nde = None)
        \<or> (\<exists>t. kinv (frame_of s) t \<and> ck_balloc modcheck 0 t = None)"
    then show thesis
    proof (elim disjE exE conjE)
      fix k assume "k \<le> dir_len s dir" "de_inum (dir_entry s dir k) = 0"
        "de_insert_callback (word_of_nat k) (dir_entry s dir k) ?nde = None"
      then show thesis using panic [of k] P0 by (simp add: callback_defs xv6_assert_def split: if_splits)
    next
      fix t assume h: "kinv (frame_of s) t" "ck_balloc modcheck 0 t = None"
      then have "info t = info s" by (auto simp: kinv_def frame_of_def)
      then show thesis using balloc_total [OF h(1)] h(2) small by (simp add: modcheck_def)
    qed
  next
    fix e d' s1
    assume r: "xv6_dir_iterate modcheck ?d de_insert_callback ?nde 0 True s = Some (e, d', ?nde, s1)" "e \<noteq> 0"
      and ev: "kdev.evolves (frame_of s) s (ic_addrs ?d) s1 (ic_addrs d')"
      and E: "entry (cache s1) (ic_addrs d') = dir_entry s dir" "ic_size d' = ic_size ?d"
    note ev' = ev [unfolded dctx_simps]
    note F = fini_ok [OF ok ev', of "dir_len s dir" e]
    show thesis
      using fail [OF U [OF r(1) fi [OF ev']] r(2)] F E SZ(5-7) by simp
  next
    fix m e d' a x c' s1
    assume r: "xv6_dir_iterate modcheck ?d de_insert_callback ?nde 0 True s = Some (e, d', c', s1)"
      and ev: "kdev.evolves (frame_of s) s (ic_addrs ?d) s1 (ic_addrs d')"
      and sz: "ic_size d' = ic_size ?d"
      and H: "m < dir_len s dir" "de_inum (dir_entry s dir m) = 0" "\<forall>k<m. de_inum (dir_entry s dir k) \<noteq> 0"
        "de_insert_callback (word_of_nat m) (dir_entry s dir m) ?nde = Some (a, x, c')"
      and E: "entry (cache s1) (ic_addrs d') = (dir_entry s dir)(m := x)"
      and px: "e = 0 \<longrightarrow> free_blocks s \<subseteq> free_blocks s1 \<union> owned (cache s1) (ic_addrs d')"
    have x: "x = ?nde" using H(2,4) by (auto simp: callback_defs xv6_assert_def split: if_splits)
    note ev' = ev [unfolded dctx_simps]
    note F = fini_ok [OF ok ev', of "dir_len s dir" e]
    show thesis
      using put [OF U [OF r fi [OF ev']] _ H(1-3) _ _ px [folded fini_views [OF ok ev', of e]]] F E x sz SZ(5-7) by simp
  next
    fix e d' a x c' s1
    assume r: "xv6_dir_iterate modcheck ?d de_insert_callback ?nde 0 True s = Some (e, d', c', s1)"
      and ev: "kdev.evolves (frame_of s) s (ic_addrs ?d) s1 (ic_addrs d')"
      and sz: "ic_size d' = ic_size ?d + 16" and dt: "ic_dirty d'" and lt: "dir_len s dir < 64 * MAXFILE"
      and all: "\<forall>k<dir_len s dir. de_inum (dir_entry s dir k) \<noteq> 0"
      and cb: "de_insert_callback (word_of_nat (dir_len s dir)) (dir_entry s dir (dir_len s dir)) ?nde = Some (a, x, c')"
      and E: "entry (cache s1) (ic_addrs d') = (dir_entry s dir)(dir_len s dir := x)"
      and px: "e = 0 \<longrightarrow> free_blocks s \<subseteq> free_blocks s1 \<union> owned (cache s1) (ic_addrs d')"
    have x: "de_inum (dir_entry s dir (dir_len s dir)) = 0 \<longrightarrow> x = ?nde"
      using cb by (auto simp: callback_defs xv6_assert_def split: if_splits)
    note ev' = ev [unfolded dctx_simps]
    show thesis
    proof (cases "e = 0")
      case True
      have "unat (ic_size d') = 16 * (dir_len s dir + 1)"
      proof -
        have "unat (ic_size ?d) + unat (16 :: u32) < 2 ^ 32" using SZ(6) lt by (simp add: layout_vals)
        then have "unat (ic_size ?d + 16) = unat (ic_size ?d) + 16" using unat_add_no_wrap by fastforce
        then show ?thesis using sz SZ(6) by simp
      qed
      note F = fini_ok [OF ok ev' this, of e]
      then show ?thesis
        using app [OF U [OF r fi [OF ev']] _ all lt x _ _ px [folded fini_views [OF ok ev', of e]]] F True dt E SZ(5) lt by simp
    next
      case False
      have al: "insert_fini dir e d' s1 = insert_fini dir e (d'\<lparr>ic_size := ic_size ?d\<rparr>) s1"
        using False by (simp add: insert_fini_def ictx_alias_def split: option.split)
      have ev2: "kdev.evolves (frame_of s) s (dir_addrs s dir) s1 (ic_addrs (d'\<lparr>ic_size := ic_size ?d\<rparr>))"
        using ev' by simp
      note F = fini_ok [OF ok ev2, of "dir_len s dir" e, folded al]
      then show ?thesis
        using app [OF U [OF r fi [OF ev']] _ all lt x] False E SZ(5-7) by simp
    qed
  qed
qed

lemma insert_cases:
  assumes inv: "dir_inv s dir" and small: "fi_size (info s) \<le> 8192"
    and nm: "cstrlen name \<le> DIRSIZ" "\<not> strcmp0 name [46]" "\<not> strcmp0 [46, 46] name"
  obtains (fail) e s' where "xv6_dentry_insert dir name inum s = Some (e, s')" "e \<noteq> 0" "dir_grew s dir s'"
      "dir_entry s' dir = dir_entry s dir" "dir_len s' dir = dir_len s dir"
  | (put) e m s' where "xv6_dentry_insert dir name inum s = Some (e, s')" "dir_grew s dir s'" "m < dir_len s dir"
      "de_inum (dir_entry s dir m) = 0" "\<forall>k < m. de_inum (dir_entry s dir k) \<noteq> 0"
      "dir_entry s' dir = (dir_entry s dir)(m := new_dirent name inum)" "dir_len s' dir = dir_len s dir"
      "e = 0 \<longrightarrow> free_blocks s \<subseteq> free_blocks s' \<union> owned (cache s') (dir_addrs s' dir)"
  | (app) e s' where "xv6_dentry_insert dir name inum s = Some (e, s')" "dir_grew s dir s'"
      "\<forall>k < dir_len s dir. de_inum (dir_entry s dir k) \<noteq> 0" "dir_len s dir < 64 * MAXFILE"
      "dir_entry s' dir = (dir_entry s dir)(dir_len s dir := new_dirent name inum)"
      "dir_len s' dir = (if e = 0 then dir_len s dir + 1 else dir_len s dir)"
      "e = 0 \<longrightarrow> free_blocks s \<subseteq> free_blocks s' \<union> owned (cache s') (dir_addrs s' dir)"
proof -
  from inv have ok: "dir_ok s dir" and t: "tidy (dir_list s dir)"
    and tl: "\<forall>k. dir_len s dir \<le> k \<longrightarrow> dir_entry s dir k = zero_dirent" by (auto simp: dir_inv_def)
  have n: "de_name (dir_entry s dir k) ! 0 = 0" if "k \<le> dir_len s dir" "de_inum (dir_entry s dir k) = 0" for k
  proof (cases "k = dir_len s dir")
    case True
    then show ?thesis using tl by (simp add: zero_dirent_def DIRSIZ_def)
  next
    case False
    then show ?thesis using t that ent_name_nil [OF dir_entry_wf, of s dir k] by (auto simp: tidy_def)
  qed
  show thesis
  proof (cases rule: insert_place [OF ok small nm, of inum])
    case (1 k)
    then show ?thesis using n [of k] by simp
  next
    case (4 e x s')
    have "de_inum (dir_entry s dir (dir_len s dir)) = 0" using tl by (simp add: zero_dirent_def)
    then show ?thesis using app 4 by simp
  qed (use fail put in blast)+
qed

text \<open>Whatever the directory holds, an insertion only grows it.\<close>

lemma insert_grew:
  assumes ok: "dir_ok s dir" and small: "fi_size (info s) \<le> 8192" and run: "xv6_dentry_insert dir name inum s = Some (e, t)"
  shows "t = s \<or> dir_grew s dir t"
proof (cases "cstrlen name \<le> DIRSIZ \<and> \<not> strcmp0 name [46] \<and> \<not> strcmp0 [46, 46] name")
  case True
  then show ?thesis by (cases rule: insert_place [OF ok small, of name inum]) (use run in auto)
next
  case False
  then show ?thesis using run dir_okD(2) [OF ok] by (auto simp: xv6_dentry_insert_def split: if_splits)
qed

lemma dir_list_app: "dir_entry s' dir = (dir_entry s dir)(dir_len s dir := x) \<Longrightarrow> dir_len s' dir = dir_len s dir + 1 \<Longrightarrow>
    dir_list s' dir = dir_list s dir @ [x]"
  by (rule nth_equalityI) (auto simp: dir_list_def nth_append less_Suc_eq)

text \<open>A name that may be erased: an entry behind the first two has it.\<close>

definition erasable :: "dirent list \<Rightarrow> bytes \<Rightarrow> bool" where
  "erasable es nm \<longleftrightarrow> (\<exists>k < length es. 2 \<le> k \<and> ent_name (es ! k) = nm)"

lemma insert_map:
  assumes inv: "dir_inv s dir" and small: "fi_size (info s) \<le> 8192" and nm: "cstr DIRSIZ name \<noteq> []"
    and inum: "(ucast inum :: u16) \<noteq> 0" and fresh: "dir_map (dir_list s dir) (cstr DIRSIZ name) = None"
  obtains e s' where "xv6_dentry_insert dir name inum s = Some (e, s')"
    "e = 0 \<longrightarrow> dir_inv s' dir \<and> dir_grew s dir s'"
    "dir_map (dir_list s' dir) = dir_map (dir_list s dir)
     \<or> dir_map (dir_list s' dir) = (dir_map (dir_list s dir))(cstr DIRSIZ name \<mapsto> ucast inum)"
    "e = 0 \<longrightarrow> dir_map (dir_list s' dir) = (dir_map (dir_list s dir))(cstr DIRSIZ name \<mapsto> ucast inum)"
    "e = 0 \<longrightarrow> cstrlen name \<le> DIRSIZ"
    "e = 0 \<longrightarrow> (\<forall>k < 2. de_inum (dir_list s dir ! k) \<noteq> 0) \<longrightarrow> erasable (dir_list s' dir) (cstr DIRSIZ name)"
    "e = 0 \<longrightarrow> free_blocks s \<subseteq> free_blocks s' \<union> owned (cache s') (dir_addrs s' dir)"
proof (cases "cstrlen name \<le> DIRSIZ \<and> \<not> strcmp0 name [46] \<and> \<not> strcmp0 [46, 46] name")
  case False
  have "is_dir dir s" using inv by (simp add: dir_inv_def dir_ok_def)
  then have "\<exists>e. e \<noteq> 0 \<and> xv6_dentry_insert dir name inum s = Some (e, s)"
    using False by (auto simp add: xv6_dentry_insert_def not_le)
  then show ?thesis using that by blast
next
  case True
  from inv have ok: "dir_ok s dir" and t: "tidy (dir_list s dir)"
    and tl: "\<forall>k. dir_len s dir \<le> k \<longrightarrow> dir_entry s dir k = zero_dirent" by (auto simp: dir_inv_def)
  let ?x = "new_dirent name inum" and ?es = "dir_list s dir"
  show ?thesis
  proof (cases rule: insert_cases [OF inv small, of name inum])
    case 1
    then show ?case using True by simp
  next
    case 2
    then show ?case using True by simp
  next
    case 3
    then show ?case using True by simp
  next
    case (4 e s')
    then have "dir_list s' dir = ?es" by (simp add: dir_list_def)
    then show ?thesis using that 4 by simp
  next
    case (5 e m s')
    have l: "dir_list s' dir = ?es[m := ?x]" by (rule dir_list_upd [OF 5(6,7)])
    have m: "m \<le> dir_len s dir" "m < dir_len s dir \<longrightarrow> de_inum (?es ! m) = 0" using 5(3,4) by simp_all
    have "dir_map (dir_list s' dir) = (dir_map ?es)(cstr DIRSIZ name \<mapsto> ucast inum)" "tidy (dir_list s' dir)"
      using dir_map_insert [OF t, of m ?x, OF _ _ _ nm] m nm inum fresh 5(3) l by simp_all
    moreover have "dir_ok s' dir" using 5(2) by (simp add: dir_grew_def)
    moreover have "\<forall>k. dir_len s' dir \<le> k \<longrightarrow> dir_entry s' dir k = zero_dirent" using tl 5(3,6,7) by simp
    moreover have "(\<forall>k < 2. de_inum (?es ! k) \<noteq> 0) \<longrightarrow> erasable (dir_list s' dir) (cstr DIRSIZ name)"
      using m(2) 5(3) unfolding l erasable_def by (auto intro!: exI [of _ m] simp: not_less [symmetric])
    ultimately show ?thesis using that [OF 5(1)] 5(2,8) True by (simp add: dir_inv_def)
  next
    case (6 e s')
    show ?thesis
    proof (cases "e = 0")
      case e: True
      have l: "dir_list s' dir = ?es @ [?x]" by (rule dir_list_app [OF 6(5)]) (simp add: 6(6) e)
      have "dir_map (dir_list s' dir) = (dir_map ?es)(cstr DIRSIZ name \<mapsto> ucast inum)" "tidy (dir_list s' dir)"
        using dir_map_insert [OF t, of "dir_len s dir" ?x, OF _ _ _ nm] nm inum fresh l by simp_all
      moreover have "dir_ok s' dir" using 6(2) by (simp add: dir_grew_def)
      moreover have "\<forall>k. dir_len s' dir \<le> k \<longrightarrow> dir_entry s' dir k = zero_dirent" using tl 6(5,6) e by simp
      moreover have "erasable (dir_list s' dir) (cstr DIRSIZ name)"
        using dir_ok_size(5) [OF ok] unfolding l erasable_def by (intro exI [of _ "dir_len s dir"]) (simp add: nth_append)
      ultimately show ?thesis using that [OF 6(1)] 6(2,7) True e by (simp add: dir_inv_def)
    next
      case False
      then have "dir_list s' dir = ?es" using 6(5,6) by (simp add: dir_list_def)
      then show ?thesis using that [OF 6(1)] False by simp
    qed
  qed
qed

text \<open>
  C2. \<^verbatim>\<open>xv6_dentry_insert\<close> of a new name implements the update of the map of names, on a
  disk with one bitmap block: it returns; on success the name now stands for the inode number,
  all other names are as before, the invariant holds, and the directory only took free blocks;
  on an error the map is the old or the new one, never anything else.
\<close>

theorem dentry_insert_refines_update:
  assumes "dir_inv s dir" and "fi_size (info s) \<le> 8192" and "cstr DIRSIZ name \<noteq> []"
    and "(ucast inum :: u16) \<noteq> 0" and "dir_map (dir_list s dir) (cstr DIRSIZ name) = None"
  shows "\<exists>e s'. xv6_dentry_insert dir name inum s = Some (e, s')
    \<and> (e = 0 \<longrightarrow> dir_inv s' dir \<and> dir_grew s dir s')
    \<and> (let old = dir_map (dir_list s dir); new = old(cstr DIRSIZ name \<mapsto> ucast inum)
       in dir_map (dir_list s' dir) \<in> {old, new} \<and> (e = 0 \<longrightarrow> dir_map (dir_list s' dir) = new))"
proof (rule insert_map [OF assms])
  fix e s'
  assume "xv6_dentry_insert dir name inum s = Some (e, s')" "e = 0 \<longrightarrow> dir_inv s' dir \<and> dir_grew s dir s'"
    "dir_map (dir_list s' dir) = dir_map (dir_list s dir)
     \<or> dir_map (dir_list s' dir) = (dir_map (dir_list s dir))(cstr DIRSIZ name \<mapsto> ucast inum)"
    "e = 0 \<longrightarrow> dir_map (dir_list s' dir) = (dir_map (dir_list s dir))(cstr DIRSIZ name \<mapsto> ucast inum)"
  then show ?thesis unfolding Let_def by blast
qed

text \<open>
  A name just inserted is found: when insertion and lookup both succeed, lookup returns
  the entry with the inode number inserted.
\<close>

lemma insert_find_roundtrip:
  assumes "dir_inv s dir" and "fi_size (info s) \<le> 8192" and "cstr DIRSIZ name \<noteq> []"
    and "(ucast inum :: u16) \<noteq> 0" and "dir_map (dir_list s dir) (cstr DIRSIZ name) = None"
    and "xv6_dentry_insert dir name inum s = Some (0, s1)"
    and "xv6_find_inum dir name d0 o0 s1 = Some (0, dnum, dout, s2)"
  shows "de_inum dout = ucast inum \<and> cstr DIRSIZ (de_name dout) = cstr DIRSIZ name
    \<and> dir_list s1 dir ! unat dnum = dout"
proof (rule insert_map [OF assms(1-5)])
  fix e s'
  assume "xv6_dentry_insert dir name inum s = Some (e, s')" "e = 0 \<longrightarrow> dir_inv s' dir \<and> dir_grew s dir s'"
    "e = 0 \<longrightarrow> dir_map (dir_list s' dir) = (dir_map (dir_list s dir))(cstr DIRSIZ name \<mapsto> ucast inum)"
  then have inv: "dir_inv s1 dir" and m: "dir_map (dir_list s1 dir) (cstr DIRSIZ name) = Some (ucast inum)"
    using assms(6) by auto
  then obtain k where k: "name_index (dir_list s1 dir) (cstr DIRSIZ name) = Some k"
      "de_inum (dir_list s1 dir ! k) = ucast inum"
    by (auto simp: dir_map_def assms(3))
  have ok: "dir_ok s1 dir" using inv by (simp add: dir_inv_def)
  have kl: "k < dir_len s1 dir" "ent_name (dir_entry s1 dir k) = cstr DIRSIZ name"
    using k(1) by (auto simp: name_index_Some)
  then have "k < 2 ^ 32" using dir_ok_size(7) [OF ok] by (simp add: layout_vals)
  moreover have "(dnum, dout) = (of_nat k, dir_list s1 dir ! k)"
    using assms(7) k(1) by (cases rule: find_inum_cases [OF ok assms(3), of d0 o0]) auto
  ultimately show ?thesis using k(2) kl by (simp add: unat_of_nat32 ent_name_def)
qed

section \<open>A sample directory\<close>

definition dot_dirent :: dirent where
  "dot_dirent = \<lparr>de_inum = 1, de_name = strncpy_bytes [46] DIRSIZ\<rparr>"

definition dotdot_dirent :: dirent where
  "dotdot_dirent = \<lparr>de_inum = 1, de_name = strncpy_bytes [46, 46] DIRSIZ\<rparr>"

definition dir_fs :: fs where
  "dir_fs = sample_fs\<lparr>cache := (\<lambda>_. zero_block)(45 := wr32 zero_block 4 (push_bit 14 1),
       46 := wr_dirent (wr_dirent zero_block 0 dot_dirent) 1 dotdot_dirent),
     inodes := (\<lambda>_. sample_inode)(0 := sample_inode\<lparr>i_ino := 1, i_mode := S_IFDIR, i_nlink := 1,
       i_size := 32, i_private := Some (46 # replicate 12 0), i_fop := XV6_DIRECTORY_OPS\<rparr>)\<rparr>"

lemma dot_wf [simp]: "wf_dirent dot_dirent" "wf_dirent dotdot_dirent"
  by (simp_all add: dot_dirent_def dotdot_dirent_def wf_dirent_def)

lemma cstr_short [simp]: "cstr DIRSIZ [46] = [46]" "cstr DIRSIZ [46, 46] = [46, 46]" "cstr DIRSIZ [97] = [97]"
  by (simp_all add: cstr_def DIRSIZ_def)

lemma ent_name_dots [simp]: "ent_name dot_dirent = [46]" "ent_name dotdot_dirent = [46, 46]"
    "ent_name zero_dirent = []" "de_inum dot_dirent = 1" "de_inum dotdot_dirent = 1" "de_inum zero_dirent = 0"
  by (simp_all add: ent_name_def dot_dirent_def dotdot_dirent_def)
    (simp_all add: zero_dirent_def cstr_def takeWhile_zeros)

lemma dir_fs_addrs [simp]: "dir_addrs dir_fs 0 = 46 # replicate 12 0" "dir_len dir_fs 0 = 2"
  by (simp_all add: dir_addrs_def dir_len_def dir_fs_def)

lemma dir_fs_bmap: "bmap v (46 # replicate 12 0) i = (if i = 0 then 46 else 0)"
  by (auto simp: bmap_def NDIRECT_def nth_Cons split: nat.split)

lemma dir_fs_entry: "dir_entry dir_fs 0 k = (if k = 0 then dot_dirent else if k = 1 then dotdot_dirent else zero_dirent)"
proof (cases "k div 64 = 0")
  case True
  then have "k mod 64 = k" by simp
  then show ?thesis
    using True unfolding dir_entry_def dir_fs_addrs entry_def dir_fs_bmap
    by (simp add: dir_fs_def rd_dirent_wr)
next
  case False
  then have "k \<noteq> 0" "k \<noteq> 1" by auto
  with False show ?thesis
    unfolding dir_entry_def dir_fs_addrs entry_def dir_fs_bmap by simp
qed

lemma dir_fs_free: "46 \<notin> free_blocks dir_fs"
proof -
  have "rd32 (wr32 zero_block 4 (push_bit 14 1)) (4 * bit_index 46) = push_bit 14 1"
    by (simp add: bit_index_def BPB_val rd32_wr32)
  then have "bm_used dir_fs 46"
    by (simp add: bm_used_def blk_bit_def bmblk_def dir_fs_def sample_defs BPB_val bit_simps)
  then show ?thesis by (simp add: free_blocks_def)
qed

lemma dir_fs_inv [simp]: "dir_inv dir_fs 0"
proof -
  have g: "wf_geom (info dir_fs)" "hint_ok dir_fs" "\<not> balloc_lock dir_fs"
    using sample_alloc_inv by (simp_all add: alloc_inv_def dir_fs_def hint_ok_def hint_of_def sample_defs)
  have o: "owned (cache dir_fs) (46 # replicate 12 0) = {46}"
    by (auto simp: owned_def dir_fs_bmap NDIRECT_def split: if_splits)
  have m: "46 \<notin> meta_blocks dir_fs"
    by (simp add: meta_blocks_def data_block_def data_start_def dir_fs_def sample_defs BITMAP_BLOCKS_def BPB_val)
  have "file_wf (cache dir_fs) (free_blocks dir_fs \<union> meta_blocks dir_fs) (46 # replicate 12 0)"
    using dir_fs_free m by (auto simp: file_wf_def dir_fs_bmap o NDIRECT_def split: if_splits)
  then have "dir_ok dir_fs 0"
    unfolding dir_ok_def dir_fs_addrs using g
    by (simp add: is_dir_def) (simp add: dir_fs_def S_IFMT_def S_IFDIR_def layout_vals)
  moreover have "dir_list dir_fs 0 = [dot_dirent, dotdot_dirent]"
    by (simp add: dir_list_def dir_fs_entry upt_conv_Cons)
  ultimately show ?thesis
    by (auto simp: dir_inv_def tidy_def dir_fs_entry less_Suc_eq)
qed

lemma dir_fs_list: "dir_list dir_fs 0 = [dot_dirent, dotdot_dirent]"
  by (simp add: dir_list_def dir_fs_entry upt_conv_Cons)

lemma dir_fs_small [simp]: "fi_size (info dir_fs) \<le> 8192"
  by (simp add: dir_fs_def sample_defs)

lemma dir_fs_env [simp]: "env_bread (env dir_fs) n b" "env_sync (env dir_fs) n b = 0"
  by (simp_all add: dir_fs_def)

lemma dir_fs_block: "rd_dirent (cache dir_fs 46) 0 = dot_dirent" "rd_dirent (cache dir_fs 46) (Suc 0) = dotdot_dirent"
    "rd_dirent (cache dir_fs 46) 2 = zero_dirent"
  by (simp_all add: dir_fs_def rd_dirent_wr)

lemmas eval_defs = modcheck_def checker_bread_def sb_bread_def checker_data_def b_data_def b_store_def
  checker_brelse_def brelse_def checker_bflush_def mark_buffer_dirty_def sync_dirty_buffer_def Let_def

lemma dir_fs_ctx: "dctx dir_fs 0 = \<lparr>ic_addrs = 46 # replicate 12 0, ic_size = 32, ic_dirty = False\<rparr>"
  by (simp add: dctx_def) (simp add: dir_fs_def)

lemma dir_fs_insert_state:
  "\<exists>s1. xv6_dentry_insert 0 [97] 2 dir_fs = Some (0, s1) \<and> env s1 = env dir_fs
     \<and> cache s1 46 = wr_dirent (cache dir_fs 46) 2 (new_dirent [97] 2)
     \<and> i_private (inodes s1 0) = Some (46 # replicate 12 0) \<and> i_size (inodes s1 0) = 48 \<and> is_dir 0 s1"
proof -
  have ok: "dir_ok dir_fs 0" using dir_fs_inv unfolding dir_inv_def by blast
  have p: "i_private (inodes dir_fs 0) \<noteq> None" "is_dir 0 dir_fs"
    using ok by (auto simp: dir_ok_def)
  have "\<exists>c s1. xv6_dir_iterate modcheck (dctx dir_fs 0) de_insert_callback (new_dirent [97] 2) 0 True dir_fs
      = Some (0, \<lparr>ic_addrs = 46 # replicate 12 0, ic_size = 48, ic_dirty = True\<rparr>, c, s1) \<and> inodes s1 = inodes dir_fs
        \<and> env s1 = env dir_fs \<and> cache s1 46 = wr_dirent (cache dir_fs 46) 2 (new_dirent [97] 2)"
    unfolding dir_fs_ctx
    by (simp add: xv6_dir_iterate_def panic_unless_def nents_val dir_loop.simps [of _ _ _ 0] xv6_inode_addr_def
        NDIRECT_def MAXFILE_val dir_block_def dir_scan.simps [of _ _ _ _ 0] dir_scan.simps [of _ _ _ _ 1]
        dir_scan.simps [of _ _ _ _ 2] eval_defs dir_fs_block callback_defs dir_extend_def xv6_assert_def rd_dirent_wr)
      (simp add: zero_dirent_def DIRSIZ_def dir_fs_block(1) [symmetric] dir_fs_block(2) [symmetric])
  then obtain c s1 where r: "xv6_dir_iterate modcheck (dctx dir_fs 0) de_insert_callback (new_dirent [97] 2) 0 True dir_fs
      = Some (0, \<lparr>ic_addrs = 46 # replicate 12 0, ic_size = 48, ic_dirty = True\<rparr>, c, s1)" "inodes s1 = inodes dir_fs"
      "env s1 = env dir_fs" "cache s1 46 = wr_dirent (cache dir_fs 46) 2 (new_dirent [97] 2)" by blast
  have "xv6_dentry_insert 0 [97] 2 dir_fs
      = Some (0, insert_fini 0 0 \<lparr>ic_addrs = 46 # replicate 12 0, ic_size = 48, ic_dirty = True\<rparr> s1)"
    using insert_unfold [OF ok, of "[97]" 2] p r(1,2) by (auto simp: cstrlen_def strcmp0_def DIRSIZ_def)
  then show ?thesis
    using r p by (auto simp: insert_fini_def ictx_alias_def Let_def is_dir_def split: option.split)
qed

lemma dir_fs_insert: "\<exists>s1. xv6_dentry_insert 0 [97] 2 dir_fs = Some (0, s1)"
  using dir_fs_insert_state by blast

lemma dir_fs_map: "dir_map (dir_list dir_fs 0) [97] = None"
  by (simp add: dir_map_None dir_fs_list less_Suc_eq)

lemma find_inum_first_match_witness:
  "\<exists>e dnum dout s'. xv6_find_inum 0 [46, 46] 0 zero_dirent dir_fs = Some (e, dnum, dout, s')
     \<and> (e = 0 \<longrightarrow> dnum = 1 \<and> dout = dotdot_dirent)"
proof -
  have ok: "dir_ok dir_fs 0" using dir_fs_inv unfolding dir_inv_def by blast
  have i: "name_index [dot_dirent, dotdot_dirent] [46, 46] = Some 1"
    by (simp add: name_index_Some)
  from find_inum_first_match [OF ok, of "[46, 46]" 0 zero_dirent] show ?thesis
    by (auto simp: dir_fs_list i)
qed

lemma rmtest_safe_witness: "\<exists>e s'. xv6_dir_rmtest 0 dir_fs = Some (e, s') \<and> cache s' = cache dir_fs"
  using rmtest_safe [OF dir_fs_inv] by blast

theorem dentry_insert_refines_update_witness:
  "\<exists>s'. xv6_dentry_insert 0 [97] 2 dir_fs = Some (0, s') \<and> dir_map (dir_list s' 0) [97] = Some 2"
proof -
  from dir_fs_insert obtain s1 where r: "xv6_dentry_insert 0 [97] 2 dir_fs = Some (0, s1)" by blast
  with dentry_insert_refines_update [OF dir_fs_inv dir_fs_small, of "[97]" 2] show ?thesis
    by (simp add: dir_fs_map Let_def)
qed

lemma find_runs:
  assumes ok: "dir_ok s dir" and nm: "cstr DIRSIZ name \<noteq> []"
    and "xv6_find_inum dir name d0 o0 s = Some (e, dnum, dout, s')"
  shows "dir_step s dir s'"
  by (cases rule: find_inum_cases [OF ok nm, of d0 o0]) (use assms(3) in auto)

lemma insert_find_roundtrip_witness:
  "\<exists>s1 dnum dout s2. xv6_dentry_insert 0 [97] 2 dir_fs = Some (0, s1)
     \<and> xv6_find_inum 0 [97] 0 zero_dirent s1 = Some (0, dnum, dout, s2) \<and> de_inum dout = 2"
proof -
  from dir_fs_insert_state obtain s1 where r: "xv6_dentry_insert 0 [97] 2 dir_fs = Some (0, s1)" "env s1 = env dir_fs"
      "cache s1 46 = wr_dirent (cache dir_fs 46) 2 (new_dirent [97] 2)"
      "i_private (inodes s1 0) = Some (46 # replicate 12 0)" "i_size (inodes s1 0) = 48" "is_dir 0 s1" by blast
  have nd: "de_name (new_dirent [97] 2) = strncpy_bytes [97] DIRSIZ" by (simp add: new_dirent_def)
  have c: "cstr DIRSIZ (de_name dot_dirent) = [46]" "cstr DIRSIZ (de_name dotdot_dirent) = [46, 46]"
    using ent_name_dots(1,2) by (simp_all add: ent_name_def)
  have "\<exists>dnum dout s2. xv6_find_inum 0 [97] 0 zero_dirent s1 = Some (0, dnum, dout, s2)"
    by (simp add: xv6_find_inum_def xv6_init_ictx_def xv6_inode_ctx_init_def r
        xv6_dir_iterate_def panic_unless_def nents_val dir_loop.simps [of _ _ _ 0] xv6_inode_addr_def
        NDIRECT_def MAXFILE_val dir_block_def dir_scan.simps [of _ _ _ _ 0] dir_scan.simps [of _ _ _ _ 1]
        dir_scan.simps [of _ _ _ _ 2] eval_defs dir_fs_block callback_defs rd_dirent_wr strncmp0_cstr c nd)
  with insert_find_roundtrip [OF dir_fs_inv dir_fs_small, of "[97]" 2] r(1) show ?thesis
    by (fastforce simp: dir_fs_map)
qed

end
