(* ===== verification/Namei.thy ===== *)
theory Namei
  imports Dir_Spec
begin

text \<open>
  The operations on names: \<^verbatim>\<open>xv6_lookup\<close>, \<^verbatim>\<open>xv6_create\<close> and \<^verbatim>\<open>xv6_mkdir\<close> of
  \<^verbatim>\<open>inode.c\<close>, \<^verbatim>\<open>xv6_unlink\<close>, \<^verbatim>\<open>xv6_link\<close> and \<^verbatim>\<open>xv6_rename\<close> of \<^verbatim>\<open>file.c\<close>,
  \<^verbatim>\<open>xv6_rmdir\<close> of \<^verbatim>\<open>dir.c\<close>. A dentry is given by its name and its inode; what the kernel
  does with a dentry afterwards (\<^verbatim>\<open>d_splice_alias\<close>, \<^verbatim>\<open>d_instantiate\<close>) is not part of the
  model, so \<open>xv6_lookup\<close> returns the inode it would pass on: nothing for \<^verbatim>\<open>NULL\<close>, an error,
  or an inode. The kernel's \<^verbatim>\<open>inode_inc_link_count\<close> and \<^verbatim>\<open>inode_dec_link_count\<close> change
  the link count and mark the inode dirty.
\<close>

section \<open>Operations\<close>

definition inode_inc_link_count :: "iref \<Rightarrow> fs \<Rightarrow> fs" where
  "inode_inc_link_count ino s = upd_inode ino (\<lambda>i. i\<lparr>i_nlink := i_nlink i + 1, i_dirty := True\<rparr>) s"

definition inode_dec_link_count :: "iref \<Rightarrow> fs \<Rightarrow> fs" where
  "inode_dec_link_count ino s = upd_inode ino (\<lambda>i. i\<lparr>i_nlink := i_nlink i - 1, i_dirty := True\<rparr>) s"

definition xv6_lookup :: "iref \<Rightarrow> bytes \<Rightarrow> fs \<Rightarrow> ((int + iref) option \<times> fs) option" where
  "xv6_lookup dir name s = do {
     (reason, dnum, de, s) \<leftarrow> xv6_find_inum dir name 0 zero_dirent s;
     if dnum = 0 then Some (None, s)
     else if reason \<noteq> 0 then Some (Some (Inl reason), s)
     else do {
       let inum = ucast (de_inum de);
       _ \<leftarrow> xv6_assert (inum \<noteq> 0);
       (inode, s) \<leftarrow> xv6_iget inum s;
       Some (Some inode, s)
     }
   }"

text \<open>
  \<^verbatim>\<open>xv6_create\<close>: \<open>create_body\<close> is the part before the label \<^verbatim>\<open>create_fini\<close>, which every
  error jumps to. The result carries the new inode besides the error.
\<close>

definition create_dinode :: "u16 \<Rightarrow> dinode" where
  "create_dinode mode =
     (let dino = zero_dinode\<lparr>di_nlink := 1\<rparr>
      in if mode AND S_IFMT = S_IFDIR then dino\<lparr>di_type := T_DIR, di_size := 2 * 16\<rparr>
         else dino\<lparr>di_type := T_FILE\<rparr>)"

definition create_body :: "iref \<Rightarrow> iref \<Rightarrow> bytes \<Rightarrow> u16 \<Rightarrow> fs \<Rightarrow> (int \<times> fs) option" where
  "create_body newinode dir name mode s = do {
     let dino = create_dinode mode;
     (error, addr0, s) \<leftarrow> xv6_balloc (di_addrs dino ! 0) s;
     let error = (if addr0 = 0 then - ENOSPC else error);
     let dino = dino\<lparr>di_addrs := (di_addrs dino)[0 := addr0]\<rparr>;
     if error \<noteq> 0 then Some (error, s)
     else do {
       (error, inum, s) \<leftarrow> xv6_ialloc (Some dino) s;
       if error \<noteq> 0 then Some (error, s)
       else do {
         (error, s) \<leftarrow>
           (if mode AND S_IFMT = S_IFDIR
            then xv6_dir_init (di_addrs dino ! 0) (i_ino (inodes s dir)) inum s
            else Some (0, s));
         if error \<noteq> 0 then Some (error, s)
         else
           (let (error, s) = xv6_init_inode newinode dino inum s
            in if error \<noteq> 0 then Some (error, s)
               else xv6_dentry_insert dir name inum s)
       }
     }
   }"

definition xv6_create :: "iref \<Rightarrow> bytes \<Rightarrow> u16 \<Rightarrow> fs \<Rightarrow> (int \<times> iref option \<times> fs) option" where
  "xv6_create dir name mode s =
     (if cstrlen name > DIRSIZ then Some (- ENAMETOOLONG, None, s)
      else case new_inode s of
        (None, s) \<Rightarrow> Some (- ENOMEM, None, s)
      | (Some newinode, s) \<Rightarrow> do {
          (error, s) \<leftarrow> create_body newinode dir name mode s;
          if error \<noteq> 0 then do { s \<leftarrow> iput_last newinode s; Some (error, None, s) }
          else do {
            s \<leftarrow> mutex_lock_itree s;
            let s = rb_add newinode s;
            Some (error, Some newinode, mutex_unlock_itree s)
          }
        })"

definition xv6_mkdir :: "iref \<Rightarrow> bytes \<Rightarrow> fs \<Rightarrow> (int \<times> iref option \<times> fs) option" where
  "xv6_mkdir dir name s = xv6_create dir name (S_IFDIR OR 0x1ff) s"

definition xv6_unlink :: "iref \<Rightarrow> iref \<Rightarrow> bytes \<Rightarrow> fs \<Rightarrow> (int \<times> fs) option" where
  "xv6_unlink dir file_ino name s = do {
     let file_inum = i_ino (inodes s file_ino);
     let s = inode_dec_link_count file_ino s;
     let nlink = i_nlink (inodes s file_ino);
     if nlink \<noteq> 0 then xv6_dir_erase dir name s
     else do {
       _ \<leftarrow> xv6_assert (file_inum \<noteq> 0);
       if file_inum = ROOTINO then Some (- EBUSY, s)
       else if file_inum = i_ino (inodes s dir) then Some (- EINVAL, s)
       else do {
         (error, s) \<leftarrow> xv6_inode_clear file_ino s;
         if error \<noteq> 0 then Some (error, s)
         else do {
           (error, s) \<leftarrow> xv6_dir_erase dir name s;
           (error, s) \<leftarrow> xv6_ifree file_inum s;
           Some (error, s)
         }
       }
     }
   }"

definition xv6_rmdir :: "iref \<Rightarrow> iref \<Rightarrow> bytes \<Rightarrow> fs \<Rightarrow> (int \<times> fs) option" where
  "xv6_rmdir dir entry_ino name s =
     (if \<not> is_dir dir s then Some (- ENOTDIR, s)
      else if \<not> is_dir entry_ino s then Some (- ENOTDIR, s)
      else do {
        (error, s) \<leftarrow> xv6_dir_rmtest entry_ino s;
        if error \<noteq> 0 then Some (error, s) else xv6_unlink dir entry_ino name s
      })"

definition xv6_link :: "iref \<Rightarrow> iref \<Rightarrow> bytes \<Rightarrow> fs \<Rightarrow> (int \<times> fs) option" where
  "xv6_link oldino dir name s = do {
     let oldinum = i_ino (inodes s oldino);
     if i_nlink (inodes s oldino) \<ge> 0x7fff then Some (- ETOOMANYREFS, s)
     else do {
       (error, s) \<leftarrow> xv6_dentry_insert dir name oldinum s;
       if error \<noteq> 0 then Some (error, s)
       else do {
         let s = inode_inc_link_count oldino s;
         (error, s) \<leftarrow> xv6_sync_inode oldino s;
         Some (error, s)
       }
     }
   }"

definition RENAME_NOREPLACE :: u32 where "RENAME_NOREPLACE = 1"

definition xv6_rename :: "iref \<Rightarrow> bytes \<Rightarrow> iref \<Rightarrow> iref \<Rightarrow> bytes \<Rightarrow> u32 \<Rightarrow> fs \<Rightarrow> (int \<times> fs) option" where
  "xv6_rename olddir oldname oldino newdir newname flags s =
     (if flags AND NOT RENAME_NOREPLACE \<noteq> 0 then Some (- EINVAL, s)
      else if cstrlen newname > DIRSIZ then Some (- ENAMETOOLONG, s)
      else do {
        (error, s) \<leftarrow> xv6_dir_erase olddir oldname s;
        if error \<noteq> 0 then Some (error, s)
        else do {
          (error, dnum, _, s) \<leftarrow> xv6_find_inum newdir newname 0 zero_dirent s;
          if error \<noteq> 0 then Some (error, s)
          else if dnum \<noteq> 0 then Some (- EEXIST, s)
          else xv6_dentry_insert newdir newname (i_ino (inodes s oldino)) s
        }
      })"

section \<open>Keeping the invariant of a directory\<close>

text \<open>A directory does not notice changes to other inodes, to other blocks, or to the pool of
  free blocks while its blocks stay out of it.\<close>

lemma dir_inv_cong:
  assumes inv: "dir_inv s dir" and i: "info s' = info s" "hint_ok s'" "\<not> balloc_lock s'"
    and d: "inodes s' dir = inodes s dir" and f: "owned (cache s) (dir_addrs s dir) \<inter> free_blocks s' = {}"
    and c: "\<And>b. b \<in> owned (cache s) (dir_addrs s dir) \<Longrightarrow> cache s' b = cache s b"
  shows "dir_inv s' dir" "dir_list s' dir = dir_list s dir" "dir_addrs s' dir = dir_addrs s dir"
    "owned (cache s') (dir_addrs s dir) = owned (cache s) (dir_addrs s dir)"
proof -
  let ?a = "dir_addrs s dir"
  have bm: "bmap (cache s') ?a = bmap (cache s) ?a"
    by (rule bmap_view_cong) (use c in \<open>auto simp: owned_def\<close>)
  show o: "owned (cache s') ?a = owned (cache s) ?a" by (simp add: owned_def bm)
  have e: "entry (cache s') ?a = entry (cache s) ?a"
  proof
    fix k
    show "entry (cache s') ?a k = entry (cache s) ?a k"
      using c [OF ownedI(1) [of "cache s" ?a "k div 64"]] by (auto simp: entry_def bm Let_def)
  qed
  show a: "dir_addrs s' dir = ?a" using d by (simp add: dir_addrs_def)
  have l: "dir_len s' dir = dir_len s dir" "dir_entry s' dir = dir_entry s dir"
    using d e a by (simp_all add: dir_len_def dir_entry_def)
  then show li: "dir_list s' dir = dir_list s dir" by (simp add: dir_list_def)
  have m: "meta_blocks s' = meta_blocks s" by (simp add: meta_blocks_def i)
  have "file_wf (cache s') (free_blocks s' \<union> meta_blocks s') ?a"
    using inv f by (auto simp: dir_inv_def dir_ok_def file_wf_def bm o m)
  then show "dir_inv s' dir"
    using inv i d by (simp add: dir_inv_def dir_ok_def a l li is_dir_def)
qed

lemma dir_owned_free: "dir_inv s dir \<Longrightarrow> owned (cache s) (dir_addrs s dir) \<inter> free_blocks s = {}"
  by (auto simp: dir_inv_def dir_ok_def file_wf_def)

lemma dir_inv_transfer:
  assumes inv: "dir_inv s dir" and i: "info s' = info s" "hint_ok s'" "\<not> balloc_lock s'"
    and d: "inodes s' dir = inodes s dir" and f: "free_blocks s' \<subseteq> free_blocks s"
    and c: "\<And>b. b \<in> owned (cache s) (dir_addrs s dir) \<Longrightarrow> cache s' b = cache s b"
  shows "dir_inv s' dir" "dir_list s' dir = dir_list s dir" "dir_addrs s' dir = dir_addrs s dir"
    "owned (cache s') (dir_addrs s dir) = owned (cache s) (dir_addrs s dir)"
  using dir_inv_cong [OF inv i d _ c] dir_owned_free [OF inv] f by blast+

section \<open>Rename\<close>

lemma erase_run:
  assumes inv: "dir_inv s dir" and nm: "cstr DIRSIZ name \<noteq> []" and run: "xv6_dir_erase dir name s = Some (0, s1)"
  obtains m where "2 \<le> m" "m < dir_len s dir" "ent_name (dir_list s dir ! m) = cstr DIRSIZ name"
    "dir_list s1 dir = (dir_list s dir)[m := erased_dirent]" "dir_step s dir s1" "dir_inv s1 dir"
    "dir_map (dir_list s1 dir) = (dir_map (dir_list s dir))(cstr DIRSIZ name := None)"
    "dir_map (dir_list s dir) (cstr DIRSIZ name) \<noteq> None"
proof -
  from inv have ok: "dir_ok s dir" and t: "tidy (dir_list s dir)"
    and tl: "\<forall>k. dir_len s dir \<le> k \<longrightarrow> dir_entry s dir k = zero_dirent" by (auto simp: dir_inv_def)
  show thesis
  proof (cases rule: erase_cases [OF ok nm])
    case (2 e m s')
    then have s': "s' = s1" using run by simp
    note D = dir_map_erase [OF t _ 2(5) nm, simplified, OF 2(4), folded 2(6)]
    have "dir_map (dir_list s dir) (cstr DIRSIZ name) \<noteq> None"
      using 2(4,5) nm by (auto simp: dir_map_None)
    moreover have "dir_inv s' dir"
      using dir_stepD(1,4) [OF 2(2)] D(2) tl 2(4,7) by (auto simp: dir_inv_def)
    ultimately show ?thesis using that [OF 2(3,4)] 2(2,5,6) D(1) s' by simp
  qed (use run in simp)
qed

lemma find_run:
  assumes inv: "dir_inv s dir" and nm: "cstr DIRSIZ name \<noteq> []"
    and run: "xv6_find_inum dir name d0 o0 s = Some (0, dnum, dout, s1)"
  shows "dir_step s dir s1" "cache s1 = cache s" "dir_inv s1 dir" "dir_list s1 dir = dir_list s dir"
    "(dnum, dout) = (case name_index (dir_list s dir) (cstr DIRSIZ name) of
         None \<Rightarrow> (0, o0) | Some k \<Rightarrow> (of_nat k, dir_list s dir ! k))"
proof -
  from inv have ok: "dir_ok s dir" by (simp add: dir_inv_def)
  show st: "dir_step s dir s1" by (rule find_runs [OF ok nm run])
  show c: "cache s1 = cache s"
    by (cases rule: find_inum_cases [OF ok nm, of d0 o0]) (use run in auto)
  have f: "free_blocks s1 \<subseteq> free_blocks s" "hint_ok s1" "\<not> balloc_lock s1"
    using st by (auto simp: dir_step_def dir_ok_def)
  show "dir_inv s1 dir" "dir_list s1 dir = dir_list s dir"
    using dir_inv_transfer [OF inv dir_stepD(3) [OF st] f(2,3) _ f(1)] dir_stepD(2) [OF st] c by simp_all
  show "(dnum, dout) = (case name_index (dir_list s dir) (cstr DIRSIZ name) of
         None \<Rightarrow> (0, o0) | Some k \<Rightarrow> (of_nat k, dir_list s dir ! k))"
    by (cases rule: find_inum_cases [OF ok nm, of d0 o0]) (use run in auto)
qed

lemma index_nonzero:
  assumes "dir_ok s dir" "name_index (dir_list s dir) nm = Some k"
  shows "(of_nat k :: u32) = 0 \<longleftrightarrow> k = 0"
proof -
  have "k < 2 ^ 32"
    using assms(2) dir_ok_size(7) [OF assms(1)] by (simp add: name_index_Some layout_vals)
  then show ?thesis by (simp add: word_eq_unat unat_of_nat32)
qed

lemma rename_unfold:
  assumes "flags AND NOT RENAME_NOREPLACE = 0" "cstrlen newname \<le> DIRSIZ"
  shows "xv6_rename olddir oldname oldino newdir newname flags s = do {
        (error, s) \<leftarrow> xv6_dir_erase olddir oldname s;
        if error \<noteq> 0 then Some (error, s)
        else do {
          (error, dnum, _, s) \<leftarrow> xv6_find_inum newdir newname 0 zero_dirent s;
          if error \<noteq> 0 then Some (error, s)
          else if dnum \<noteq> 0 then Some (- EEXIST, s)
          else xv6_dentry_insert newdir newname (i_ino (inodes s oldino)) s
        } }"
  using assms by (simp add: xv6_rename_def not_less)

text \<open>
  C25. Renaming inside a directory, when it succeeds, is a move of the map of names: the new
  name, which no entry had (unless the very first one), stands for the inode, the old name is gone, and the
  directory satisfies its invariant again.
\<close>

theorem rename_moves:
  assumes "dir_inv s d" and "fi_size (info s) \<le> 8192" and "cstr DIRSIZ oldname \<noteq> []"
    and "cstr DIRSIZ newname \<noteq> []" and "(ucast (i_ino (inodes s ino)) :: u16) \<noteq> 0"
    and "name_index (dir_list s d) (cstr DIRSIZ newname) \<noteq> Some 0"
    and "xv6_rename d oldname ino d newname flags s = Some (0, s')"
  shows "dir_inv s' d \<and> dir_map (dir_list s d) (cstr DIRSIZ oldname) \<noteq> None
    \<and> dir_map (dir_list s' d) = (dir_map (dir_list s d))(cstr DIRSIZ oldname := None,
         cstr DIRSIZ newname \<mapsto> ucast (i_ino (inodes s ino)))"
proof -
  have fl: "flags AND NOT RENAME_NOREPLACE = 0" "cstrlen newname \<le> DIRSIZ"
    using assms(7) by (auto simp: xv6_rename_def split: if_splits)
  from assms(7) [unfolded rename_unfold [OF fl]] obtain dnum dout s1 s2
    where e: "xv6_dir_erase d oldname s = Some (0, s1)"
      and f: "xv6_find_inum d newname 0 zero_dirent s1 = Some (0, dnum, dout, s2)" "dnum = 0"
      and i: "xv6_dentry_insert d newname (i_ino (inodes s2 ino)) s2 = Some (0, s')"
    by (auto elim!: bind_SomeE split: if_splits)
  from erase_run [OF assms(1,3) e] obtain m
    where m: "2 \<le> m" "m < dir_len s d" "dir_list s1 d = (dir_list s d)[m := erased_dirent]"
      and st1: "dir_step s d s1" "dir_inv s1 d"
      and M: "dir_map (dir_list s1 d) = (dir_map (dir_list s d))(cstr DIRSIZ oldname := None)"
        "dir_map (dir_list s d) (cstr DIRSIZ oldname) \<noteq> None"
    by metis
  note F = find_run [OF st1(2) assms(4) f(1)]
  have ok1: "dir_ok s1 d" using st1(2) by (simp add: dir_inv_def)
  have ino: "inodes s2 = inodes s" "info s2 = info s"
    using dir_stepD(2,3) [OF st1(1)] dir_stepD(2,3) [OF F(1)] by simp_all
  have "name_index (dir_list s1 d) (cstr DIRSIZ newname) = None"
  proof (cases "name_index (dir_list s1 d) (cstr DIRSIZ newname)")
    case (Some k)
    then have "k = 0" using F(5) f(2) index_nonzero [OF ok1 Some] by simp
    then have "name_index (dir_list s d) (cstr DIRSIZ newname) = Some 0"
      using Some m by (auto simp: name_index_Some)
    then show ?thesis using assms(6) by simp
  qed
  then have "dir_map (dir_list s2 d) (cstr DIRSIZ newname) = None"
    by (simp add: F(4) dir_map_def)
  then obtain "dir_inv s' d"
      "dir_map (dir_list s' d) = (dir_map (dir_list s2 d))(cstr DIRSIZ newname \<mapsto> ucast (i_ino (inodes s2 ino)))"
    using insert_map [OF F(3) _ assms(4), of "i_ino (inodes s2 ino)"] i assms(2,5) ino by auto
  then show ?thesis using M F(4) ino by simp
qed

text \<open>
  C26. Renaming onto an existing name loses the file's entry: the old entry is erased before
  the new name is looked up, so the call answers \<^verbatim>\<open>-EEXIST\<close> with the old name gone and
  nothing inserted.
\<close>

theorem rename_onto_existing_loses:
  assumes "dir_inv s d" and "cstr DIRSIZ oldname \<noteq> []" and "cstr DIRSIZ newname \<noteq> []"
    and "flags AND NOT RENAME_NOREPLACE = 0" and "cstrlen newname \<le> DIRSIZ"
    and "name_index (dir_list s d) (cstr DIRSIZ newname) = Some k" and "k \<noteq> 0"
    and "cstr DIRSIZ oldname \<noteq> cstr DIRSIZ newname"
    and "xv6_dir_erase d oldname s = Some (0, s1)"
    and "xv6_find_inum d newname 0 zero_dirent s1 = Some (0, dnum, dout, s2)"
  shows "xv6_rename d oldname ino d newname flags s = Some (- EEXIST, s2)
    \<and> dir_map (dir_list s d) (cstr DIRSIZ oldname) \<noteq> None
    \<and> dir_map (dir_list s2 d) = (dir_map (dir_list s d))(cstr DIRSIZ oldname := None)"
proof -
  from erase_run [OF assms(1,2,9)] obtain m
    where m: "m < dir_len s d" "ent_name (dir_list s d ! m) = cstr DIRSIZ oldname"
        "dir_list s1 d = (dir_list s d)[m := erased_dirent]" and st1: "dir_inv s1 d"
      and M: "dir_map (dir_list s1 d) = (dir_map (dir_list s d))(cstr DIRSIZ oldname := None)"
        "dir_map (dir_list s d) (cstr DIRSIZ oldname) \<noteq> None"
    by metis
  note F = find_run [OF st1 assms(3,10)]
  have "name_index (dir_list s1 d) (cstr DIRSIZ newname) = Some k"
    unfolding m(3) using m(1,2) assms(3,6,8) by (subst index_upd_other) auto
  then have "dnum = of_nat k" "(of_nat k :: u32) \<noteq> 0"
    using F(5) index_nonzero [of s1 d] st1 assms(7) by (auto simp: dir_inv_def)
  then have "xv6_rename d oldname ino d newname flags s = Some (- EEXIST, s2)"
    by (simp add: rename_unfold [OF assms(4,5)] assms(9,10))
  then show ?thesis using M F(4) by simp
qed

text \<open>A directory with the entries \<^verbatim>\<open>.\<close>, \<^verbatim>\<open>..\<close> and \<^verbatim>\<open>a\<close>.\<close>

definition dir3_fs :: fs where
  "dir3_fs = dir_fs\<lparr>cache := (cache dir_fs)(46 := wr_dirent (cache dir_fs 46) 2 (new_dirent [97] 2)),
     inodes := (inodes dir_fs)(0 := (inodes dir_fs 0)\<lparr>i_size := 48\<rparr>)\<rparr>"

lemma dir3_addrs [simp]: "dir_addrs dir3_fs 0 = 46 # replicate 12 0" "dir_len dir3_fs 0 = 3"
    "i_private (inodes dir3_fs 0) = Some (46 # replicate 12 0)" "i_size (inodes dir3_fs 0) = 48"
    "i_ino (inodes dir3_fs 0) = 1" "i_nlink (inodes dir3_fs 0) = 1"
    "env_bread (env dir3_fs) n b" "env_sync (env dir3_fs) n b = 0"
    "fi_size (info dir3_fs) \<le> 8192" "is_dir 0 dir3_fs" "is_dir 0 dir_fs"
  by (simp_all add: dir_addrs_def dir_len_def dir3_fs_def dir_fs_def sample_defs is_dir_def S_IFMT_def S_IFDIR_def)

lemma dir3_block: "rd_dirent (cache dir3_fs 46) 0 = dot_dirent" "rd_dirent (cache dir3_fs 46) (Suc 0) = dotdot_dirent"
    "rd_dirent (cache dir3_fs 46) 2 = new_dirent [97] 2"
  by (simp_all add: dir3_fs_def dir_fs_def rd_dirent_wr)

lemma dir3_entry: "dir_entry dir3_fs 0 = (dir_entry dir_fs 0)(2 := new_dirent [97] 2)"
proof -
  have wf: "file_wf (cache dir_fs) (free_blocks dir_fs \<union> meta_blocks dir_fs) (46 # replicate 12 0)"
    using dir_fs_inv by (simp add: dir_inv_def dir_ok_def)
  have b: "bmap (cache dir_fs) (46 # replicate 12 0) 0 = 46" by (simp add: dir_fs_bmap)
  show ?thesis
    using entry_store(1) [OF wf b, of 2 "new_dirent [97] 2"]
    by (simp add: dir_entry_def) (simp add: dir3_fs_def numeral_2_eq_2)
qed

lemma dir3_list: "dir_list dir3_fs 0 = [dot_dirent, dotdot_dirent, new_dirent [97] 2]"
  by (simp add: dir_list_def dir3_entry dir_fs_entry upt_conv_Cons)

lemma dir3_free: "free_blocks dir3_fs = free_blocks dir_fs" "meta_blocks dir3_fs = meta_blocks dir_fs"
proof -
  have "wf_geom (info dir_fs)" "46 \<notin> meta_blocks dir_fs"
    using dir_fs_inv by (auto simp: dir_inv_def dir_ok_def)
      (simp add: meta_blocks_def data_block_def data_start_def dir_fs_def sample_defs BITMAP_BLOCKS_def BPB_val)
  from pool_store [OF this] show "free_blocks dir3_fs = free_blocks dir_fs"
    by (simp add: dir3_fs_def free_blocks_def bm_used_def)
  show "meta_blocks dir3_fs = meta_blocks dir_fs" by (simp add: dir3_fs_def meta_blocks_def)
qed

lemma dir3_inv [simp]: "dir_inv dir3_fs 0"
proof -
  have b: "bmap (cache dir3_fs) (46 # replicate 12 0) = bmap (cache dir_fs) (46 # replicate 12 0)"
    by (rule ext) (simp only: dir_fs_bmap)
  have i: "dir_ok dir_fs 0" using dir_fs_inv unfolding dir_inv_def by blast
  then have "file_wf (cache dir3_fs) (free_blocks dir3_fs \<union> meta_blocks dir3_fs) (46 # replicate 12 0)"
    unfolding dir_ok_def file_wf_def owned_def dir_fs_addrs b dir3_free by blast
  moreover have "wf_geom (info dir3_fs)" "hint_ok dir3_fs" "\<not> balloc_lock dir3_fs"
    using i by (simp_all add: dir_ok_def dir3_fs_def hint_ok_def hint_of_def)
  ultimately have "dir_ok dir3_fs 0"
    by (simp add: dir_ok_def layout_vals)
  moreover have "tidy (dir_list dir3_fs 0)"
    by (auto simp: dir3_list tidy_def less_Suc_eq)
  ultimately show ?thesis
    by (simp add: dir_inv_def dir3_entry dir_fs_entry)
qed

lemma dir3_names: "cstr DIRSIZ (de_name dot_dirent) = [46]" "cstr DIRSIZ (de_name dotdot_dirent) = [46, 46]"
    "cstr DIRSIZ (de_name (new_dirent nm i)) = cstr DIRSIZ nm" "cstr DIRSIZ [98] = [98]"
    "cstr DIRSIZ (de_name erased_dirent) = []"
  using ent_name_dots(1,2) ent_name_erased(1) new_dirent_simps(3) [of nm i]
  by (simp_all add: ent_name_def) (simp add: cstr_def DIRSIZ_def)

lemmas dir3_eval = xv6_init_ictx_def xv6_inode_ctx_init_def xv6_dir_iterate_def panic_unless_def nents_val
  dir_loop.simps [of _ _ _ 0] xv6_inode_addr_def NDIRECT_def MAXFILE_val dir_block_def
  dir_scan.simps [of _ _ _ _ 0] dir_scan.simps [of _ _ _ _ 1] dir_scan.simps [of _ _ _ _ 2]
  dir_scan.simps [of _ _ _ _ 3] eval_defs dir3_block callback_defs rd_dirent_wr strncmp0_cstr dir3_names
  alias_same

lemma dir3_erase: "\<exists>s1. xv6_dir_erase 0 [97] dir3_fs = Some (0, s1) \<and> env s1 = env dir3_fs \<and> info s1 = info dir3_fs
    \<and> cache s1 46 = wr_dirent (cache dir3_fs 46) 2 erased_dirent \<and> inodes s1 = inodes dir3_fs"
  by (simp add: xv6_dir_erase_def dir3_eval)

lemma wr_dirent_back: "rd_dirent b k = d \<Longrightarrow> wr_dirent b k d = b"
  by auto

lemma dir3_rename_existing:
  "\<exists>s1 dnum dout s2. xv6_dir_erase 0 [97] dir3_fs = Some (0, s1)
     \<and> xv6_find_inum 0 [46, 46] 0 zero_dirent s1 = Some (0, dnum, dout, s2)"
proof -
  from dir3_erase obtain s1 where s1: "xv6_dir_erase 0 [97] dir3_fs = Some (0, s1)" "env s1 = env dir3_fs"
      "cache s1 46 = wr_dirent (cache dir3_fs 46) 2 erased_dirent" "inodes s1 = inodes dir3_fs" by blast
  have d: "is_dir 0 s1" using s1(4) dir3_addrs(10) by (simp add: is_dir_def)
  have "\<exists>dnum dout s2. xv6_find_inum 0 [46, 46] 0 zero_dirent s1 = Some (0, dnum, dout, s2)"
    by (simp add: xv6_find_inum_def dir3_eval s1 d)
  with s1(1) show ?thesis by blast
qed

theorem rename_onto_existing_loses_witness:
  "\<exists>s'. xv6_rename 0 [97] 0 0 [46, 46] 0 dir3_fs = Some (- EEXIST, s')
     \<and> dir_map (dir_list dir3_fs 0) [97] = Some 2 \<and> dir_map (dir_list s' 0) [97] = None"
proof -
  from dir3_rename_existing obtain s1 dnum dout s2 where r: "xv6_dir_erase 0 [97] dir3_fs = Some (0, s1)"
      "xv6_find_inum 0 [46, 46] 0 zero_dirent s1 = Some (0, dnum, dout, s2)" by blast
  have k: "name_index (dir_list dir3_fs 0) (cstr DIRSIZ [46, 46]) = Some 1"
    by (simp add: name_index_Some dir3_list)
  have m: "name_index (dir_list dir3_fs 0) [97] = Some 2"
    by (auto simp add: name_index_Some dir3_list less_2_cases_iff)
  have l: "cstrlen [46, 46] \<le> DIRSIZ" by (simp add: cstrlen_def DIRSIZ_def)
  have m': "dir_map (dir_list dir3_fs 0) [97] = Some 2"
    by (simp add: dir_map_def m) (simp add: dir3_entry)
  from rename_onto_existing_loses [OF dir3_inv _ _ _ l k _ _ r, of 0 0] m' show ?thesis
    by simp
qed

theorem rename_moves_witness:
  "\<exists>s'. xv6_rename 0 [97] 0 0 [98] 0 dir3_fs = Some (0, s') \<and> dir_map (dir_list s' 0) [98] = Some 1
     \<and> dir_map (dir_list s' 0) [97] = None"
proof -
  from dir3_erase obtain s1 where s1: "xv6_dir_erase 0 [97] dir3_fs = Some (0, s1)" "env s1 = env dir3_fs"
      "cache s1 46 = wr_dirent (cache dir3_fs 46) 2 erased_dirent" "inodes s1 = inodes dir3_fs" by blast
  have d: "is_dir 0 s1" using s1(4) dir3_addrs(10) by (simp add: is_dir_def)
  have f: "\<exists>s2. xv6_find_inum 0 [98] 0 zero_dirent s1 = Some (0, 0, zero_dirent, s2) \<and> env s2 = env dir3_fs
      \<and> cache s2 46 = wr_dirent (cache dir3_fs 46) 2 erased_dirent \<and> inodes s2 = inodes dir3_fs"
    by (simp add: xv6_find_inum_def dir3_eval s1 d wr_dirent_back)
  then obtain s2 where s2: "xv6_find_inum 0 [98] 0 zero_dirent s1 = Some (0, 0, zero_dirent, s2)" "env s2 = env dir3_fs"
      "cache s2 46 = wr_dirent (cache dir3_fs 46) 2 erased_dirent" "inodes s2 = inodes dir3_fs" by blast
  have d2: "is_dir 0 s2" using s2(4) dir3_addrs(10) by (simp add: is_dir_def)
  have "\<exists>s3. xv6_dentry_insert 0 [98] 1 s2 = Some (0, s3)"
  proof -
    have n: "\<not> DIRSIZ < cstrlen [98]" "\<not> strcmp0 [98] [46]" "\<not> strcmp0 [46, 46] [98]"
      by (simp_all add: cstrlen_def strcmp0_def DIRSIZ_def)
    have z: "de_name erased_dirent ! 0 = 0" by (simp add: erased_dirent_def DIRSIZ_def)
    have nd: "zero_dirent\<lparr>de_name := strncpy_bytes [98] DIRSIZ, de_inum := 1\<rparr> = new_dirent [98] 1"
      by (simp add: new_dirent_def)
    show ?thesis
      by (simp add: xv6_dentry_insert_def n nd dir3_eval s2 d2 wr_dirent_back z xv6_assert_def xv6_ictx_dirty_def)
  qed
  then obtain s3 where s3: "xv6_dentry_insert 0 [98] 1 s2 = Some (0, s3)" by blast
  have i: "xv6_rename 0 [97] 0 0 [98] 0 dir3_fs = Some (0, s3)"
    by (subst rename_unfold) (simp_all add: cstrlen_def DIRSIZ_def s1 s2 s3)
  have n: "name_index (dir_list dir3_fs 0) (cstr DIRSIZ [98]) \<noteq> Some 0"
    by (simp add: name_index_Some dir3_list dir3_names)
  from rename_moves [OF dir3_inv _ _ _ _ n i] i show ?thesis by (simp add: dir3_names)
qed

end
