(* ===== verification/File_IO.thy ===== *)
theory File_IO
  imports Namei
begin

text \<open>
  \<^verbatim>\<open>file.c\<close>: reading and writing the content of a file. File positions are \<^verbatim>\<open>loff_t\<close>;
  the kernel passes non-negative ones only, so they are modelled as unsigned 64-bit words, on
  which the code's \<^verbatim>\<open>/\<close>, \<^verbatim>\<open>%\<close> and maximum agree with the signed operations; the mixed
  signed and unsigned comparisons of \<^verbatim>\<open>xv6_file_read\<close> are unsigned in C, too. The user's
  memory is a list of bytes. The loops are \<open>partial_function\<close>s: that they end is proved.
\<close>

section \<open>Operations\<close>

definition down_read :: "iref \<Rightarrow> fs \<Rightarrow> fs option" where
  "down_read ino s = (if i_rwsem (inodes s ino) = Exclusive then None
     else Some (upd_inode ino (\<lambda>i. i\<lparr>i_rwsem := Shared\<rparr>) s))"

definition down_write :: "iref \<Rightarrow> fs \<Rightarrow> fs option" where
  "down_write ino s = (if i_rwsem (inodes s ino) \<noteq> Unlocked then None
     else Some (upd_inode ino (\<lambda>i. i\<lparr>i_rwsem := Exclusive\<rparr>) s))"

definition up_rwsem :: "iref \<Rightarrow> rwsem \<Rightarrow> fs \<Rightarrow> fs" where
  "up_rwsem ino sem s = upd_inode ino (\<lambda>i. i\<lparr>i_rwsem := sem\<rparr>) s"

definition xv6_file_block :: "dinode \<Rightarrow> u32 \<Rightarrow> fs \<Rightarrow> int \<times> u32 option \<times> fs" where
  "xv6_file_block file i s =
     (if unat i \<ge> MAXFILE then (0, None, s)
      else if unat i < NDIRECT
      then (let block = di_addrs file ! unat i
            in if block = 0 then (0, None, s)
               else let (bh, s) = sb_bread block s in (if bh = None then - EIO else 0, bh, s))
      else
        (let i = i - of_nat NDIRECT; indirect_block = di_addrs file ! NDIRECT
         in if indirect_block = 0 then (0, None, s)
            else case sb_bread indirect_block s of
              (None, s) \<Rightarrow> (- EIO, None, s)
            | (Some indirect, s) \<Rightarrow>
                (let data_block = rd32 (b_data indirect s) (4 * unat i);
                     s = brelse indirect s
                 in if data_block = 0 then (0, None, s)
                    else let (bh, s) = sb_bread data_block s in (if bh = None then - EIO else 0, bh, s))))"

text \<open>
  The loop of \<^verbatim>\<open>xv6_file_read\<close>; its results are \<^verbatim>\<open>error\<close>, \<^verbatim>\<open>nread\<close>, \<^verbatim>\<open>cpos\<close>, the bytes
  copied to the user and the state.
\<close>

partial_function (option) read_loop :: "iref \<Rightarrow> u64 \<Rightarrow> u32 \<Rightarrow> u32 \<Rightarrow> u64 \<Rightarrow> u64 \<Rightarrow> int \<Rightarrow> bytes \<Rightarrow> fs \<Rightarrow>
    (int \<times> int \<times> u64 \<times> bytes \<times> fs) option" where
  "read_loop ino file_size block boff len cpos nread buf s =
     (if len = 0 then Some (0, nread, cpos, buf, s)
      else do {
        (error, bh, s) \<leftarrow> xv6_inode_block ino block s;
        if error \<noteq> 0 then Some (error, nread, cpos, buf, s)
        else do {
          let to_read = ucast (of_nat BSIZE - boff);
          let to_read = (if to_read > len then len else to_read);
          let to_read = (if to_read > file_size - cpos then file_size - cpos else to_read);
          let page_fault = env_fault (env s) (now s);
          let (data, s) = (case bh of
              None \<Rightarrow> (replicate (unat to_read) 0, tick s)
            | Some bh \<Rightarrow> (get (b_data bh s) (unat boff) (unat to_read), brelse bh (tick s)));
          if page_fault then Some (- EFAULT, nread, cpos, buf, s)
          else read_loop ino file_size (block + 1) 0 (len - to_read) (cpos + to_read)
            (nread + uint to_read) (buf @ data) s
        }
      })"

definition xv6_file_read :: "iref \<Rightarrow> u64 \<Rightarrow> u64 \<Rightarrow> fs \<Rightarrow> (int \<times> bytes \<times> u64 \<times> fs) option" where
  "xv6_file_read ino len ppos s = do {
     let cpos = ppos;
     let block = ucast (cpos div of_nat BSIZE);
     let boff = ucast (cpos mod of_nat BSIZE);
     let sem = i_rwsem (inodes s ino);
     s \<leftarrow> down_read ino s;
     let file_size = i_size (inodes s ino);
     let rest = file_size - cpos;
     let len = (if len > rest then rest else len);
     (error, nread, cpos, buf, s) \<leftarrow> read_loop ino file_size block boff len cpos 0 [] s;
     let s = up_rwsem ino sem s;
     Some (if error \<noteq> 0 \<and> nread \<le> 0 then error else nread, buf, cpos, s)
   }"

text \<open>
  The loop of \<^verbatim>\<open>xv6_file_write\<close>. A buffer missing after a successful \<^verbatim>\<open>xv6_inode_wblock\<close>
  would be dereferenced as \<^verbatim>\<open>NULL\<close> (\<^theory_text>\<open>None\<close>). On a page fault the block holds the copied
  prefix and zeros.
\<close>

partial_function (option) write_loop :: "iref \<Rightarrow> u32 \<Rightarrow> u32 \<Rightarrow> u64 \<Rightarrow> u64 \<Rightarrow> int \<Rightarrow> bytes \<Rightarrow> fs \<Rightarrow>
    (int \<times> int \<times> u64 \<times> fs) option" where
  "write_loop ino block boff len cpos nwrite buf s =
     (if len = 0 then Some (0, nwrite, cpos, s)
      else do {
        (error, bh, s) \<leftarrow> xv6_inode_wblock ino block s;
        if error \<noteq> 0 then Some (error, nwrite, cpos, s)
        else do {
          bh \<leftarrow> bh;
          let to_write = ucast (of_nat BSIZE - boff);
          let to_write = (if to_write > len then len else to_write);
          let n = unat to_write;
          let page_fault = env_fault (env s) (now s);
          let k = min n (env_copied (env s) (now s));
          let data = (if page_fault then take k buf @ replicate (n - k) 0 else take n buf);
          let s = b_store bh (put (b_data bh s) (unat boff) data) (tick s);
          let s = mark_buffer_dirty bh s;
          let (error, s) = sync_dirty_buffer bh s;
          let s = brelse bh s;
          if page_fault then Some (- EFAULT, nwrite, cpos, s)
          else if error \<noteq> 0 then Some (error, nwrite, cpos, s)
          else write_loop ino (block + 1) 0 (len - to_write) (cpos + to_write)
            (nwrite + uint to_write) (drop n buf) s
        }
      })"

text \<open>\<open>o_append\<close> is the flag \<^verbatim>\<open>O_APPEND\<close>.\<close>

definition xv6_file_write :: "bool \<Rightarrow> iref \<Rightarrow> bytes \<Rightarrow> u64 \<Rightarrow> u64 \<Rightarrow> fs \<Rightarrow> (int \<times> u64 \<times> fs) option" where
  "xv6_file_write o_append ino buf len ppos s = do {
     let cpos = (if o_append then i_size (inodes s ino) else ppos);
     let block = ucast (cpos div of_nat BSIZE);
     let boff = ucast (cpos mod of_nat BSIZE);
     s \<leftarrow> down_write ino s;
     (error, nwrite, cpos, s) \<leftarrow> write_loop ino block boff len cpos 0 buf s;
     let s = upd_inode ino (\<lambda>i. i\<lparr>i_size := (if i_size i < cpos then cpos else i_size i)\<rparr>) s;
     let s = up_rwsem ino Unlocked s;
     Some (if error \<noteq> 0 \<and> nwrite \<le> 0 then error else nwrite, cpos, s)
   }"

definition xv6_file_sync :: "iref \<Rightarrow> fs \<Rightarrow> (int \<times> fs) option" where
  "xv6_file_sync ino s = xv6_write_inode ino s"

definition xv6_file_flush :: "iref \<Rightarrow> fs \<Rightarrow> (int \<times> fs) option" where
  "xv6_file_flush ino s = xv6_write_inode ino s"

end
