(* ===== verification/Check.thy ===== *)
theory Check
  imports Modcheck
begin

text \<open>
  \<^verbatim>\<open>check.cpp\<close>: the checker that both the kernel module (at mount time) and the verifier
  \<^verbatim>\<open>xv6check.cpp\<close> run, and the verifier's device, an image file mapped read-only into memory.
  Structures are read through \<open>rd_superblock\<close> and \<open>rd_dinode\<close>, which decode the little-endian
  fields (as \<^verbatim>\<open>xuint\<close> and \<^verbatim>\<open>__le16_to_cpu\<close> do, theory \<open>Disk_Layout\<close>). The function pointers
  of a table are always there, so the test for missing ones is left out; messages have no effect.
\<close>

section \<open>The layout check\<close>

record xv6_checker_info =
  ci_logstart :: u32
  ci_inodestart :: u32
  ci_bmapstart :: u32
  ci_datastart :: u32
  ci_logsize :: u32
  ci_inodesize :: u32
  ci_bmapsize :: u32
  ci_datasize :: u32
  ci_fssize :: u32

definition xv6_check_sb :: "superblock \<Rightarrow> bool \<times> xv6_checker_info" where
  "xv6_check_sb sb =
     (let check_size = True;
          fssize = sb_size sb;
          size = (1 :: u64);
          check_size = (if ucast (sb_logstart sb) \<noteq> size then False else check_size);
          size = size + ucast (sb_nlog sb);
          inodestart = sb_inodestart sb;
          ninode_blocks = INODE_BLOCKS (sb_ninodes sb);
          check_size = (if ucast inodestart \<noteq> size then False else check_size);
          size = size + ucast ninode_blocks;
          bmapstart = sb_bmapstart sb;
          check_size = (if size \<noteq> ucast bmapstart then False else check_size);
          size = size + ucast (BITMAP_BLOCKS fssize);
          datastart = ucast size;
          size = size + ucast (sb_nblocks sb);
          check_size = (if ucast fssize < size then False else check_size)
      in (check_size, \<lparr>ci_logstart = 1, ci_inodestart = inodestart, ci_bmapstart = bmapstart,
            ci_datastart = datastart, ci_logsize = sb_nlog sb, ci_inodesize = ninode_blocks,
            ci_bmapsize = BITMAP_BLOCKS fssize, ci_datasize = sb_nblocks sb, ci_fssize = ucast size\<rparr>))"

section \<open>The checker\<close>

text \<open>The callback of the root directory's walk only prints.\<close>

definition dir_check :: "unit xv6_diter_callback" where
  "dir_check dnum de ctx = Some (xv6_diter_action_init\<lparr>act_cont := True\<rparr>, de, ctx)"

definition xv6_docheck :: "'s checker \<Rightarrow> 's \<Rightarrow> (int \<times> 's) option" where
  "xv6_docheck check s =
     (case ck_bread check 0 s of
        (None, s) \<Rightarrow> Some (2, s)
      | (Some sb_buf, s) \<Rightarrow>
          (let sb = rd_superblock (ck_bdata check sb_buf s);
               s = ck_brelse check sb_buf s
           in if sb_magic sb \<noteq> FSMAGIC then Some (1, s)
              else
                (let (ok, info) = xv6_check_sb sb
                 in if \<not> ok then Some (1, s)
                    else case ck_bread check (ci_inodestart info) s of
                      (None, s) \<Rightarrow> Some (2, s)
                    | (Some buf, s) \<Rightarrow>
                        (let dino = rd_dinode (ck_bdata check buf s) 0;
                             root = rd_dinode (ck_bdata check buf s) 1;
                             s = ck_brelse check buf s
                         in if di_type dino \<noteq> 0 then Some (1, s)
                            else if di_type root \<noteq> T_DIR then Some (1, s)
                            else do {
                              let rc = \<lparr>ic_addrs = di_addrs root, ic_size = di_size root, ic_dirty = False\<rparr>;
                              (error, _, _, s) \<leftarrow> xv6_dir_iterate check rc dir_check () 2 False s;
                              Some (if error \<noteq> 0 then 1 else 0, s)
                            }))))"

section \<open>The image verifier\<close>

text \<open>
  \<^verbatim>\<open>xv6check.cpp\<close>: the image has \<open>im_size\<close> bytes (\<^verbatim>\<open>fsize\<close>); a buffer is the offset of a
  block in the mapping, computed in 32 bits. The members \<^verbatim>\<open>balloc\<close> and \<^verbatim>\<open>bflush\<close> of the table
  are never initialised; they are arguments here.
\<close>

record image =
  im_size :: u64
  im_mem :: "nat \<Rightarrow> u8"

definition uc_bread :: "u32 \<Rightarrow> image \<Rightarrow> u32 option \<times> image" where
  "uc_bread block im =
     (if ucast block \<ge> im_size im div of_nat BSIZE then (None, im) else (Some (block * of_nat BSIZE), im))"

definition uc_bdata :: "u32 \<Rightarrow> image \<Rightarrow> block" where
  "uc_bdata buf im = (\<lambda>i. im_mem im (unat buf + i))"

definition uc_brelse :: "u32 \<Rightarrow> image \<Rightarrow> image" where
  "uc_brelse buf im = im"

definition uc_bstore :: "u32 \<Rightarrow> block \<Rightarrow> image \<Rightarrow> image" where
  "uc_bstore buf d im = im\<lparr>im_mem := (\<lambda>i. if unat buf \<le> i then d (i - unat buf) else im_mem im i)\<rparr>"

definition xv6check_table ::
    "(u32 \<Rightarrow> image \<Rightarrow> (int \<times> u32 \<times> image) option) \<Rightarrow> (u32 \<Rightarrow> image \<Rightarrow> int \<times> image) \<Rightarrow> image checker" where
  "xv6check_table balloc bflush = \<lparr>ck_bread = uc_bread, ck_bdata = uc_bdata, ck_bstore = uc_bstore,
     ck_brelse = uc_brelse, ck_balloc = balloc, ck_bflush = bflush\<rparr>"

text \<open>\<open>file\<close> is what opening, \<^verbatim>\<open>fstat\<close> and \<^verbatim>\<open>mmap\<close> of the argument give, if they succeed.\<close>

definition xv6check_main ::
    "(u32 \<Rightarrow> image \<Rightarrow> (int \<times> u32 \<times> image) option) \<Rightarrow> (u32 \<Rightarrow> image \<Rightarrow> int \<times> image) \<Rightarrow>
     nat \<Rightarrow> image option \<Rightarrow> int option" where
  "xv6check_main balloc bflush argc file =
     (if argc \<noteq> 2 then Some 1
      else case file of
        None \<Rightarrow> Some 1
      | Some im \<Rightarrow> map_option fst (xv6_docheck (xv6check_table balloc bflush) im))"

end
