(* ===== verification/Check_Spec.thy ===== *)
theory Check_Spec
  imports Check
begin

text \<open>
  What the checker of \<^verbatim>\<open>check.cpp\<close> guarantees. The locale \<open>ro_dev\<close> states what a
  read-only walk relies on in a table of device operations; inside it, the checker is shown to
  change nothing, to accept only images with the documented layout, and to fail (panic) only on a
  root directory whose size is not a list of entries. It is interpreted on the kernel's table
  \<open>modcheck\<close> and on the verifier's image. The super block check is characterised exactly, over
  unbounded numbers.
\<close>

section \<open>The layout\<close>

text \<open>Super block, log, inodes, bitmap and data follow each other and fit on the disk.\<close>

definition sb_layout :: "superblock \<Rightarrow> bool" where
  "sb_layout sb \<longleftrightarrow> sb_logstart sb = 1
     \<and> unat (sb_inodestart sb) = 1 + unat (sb_nlog sb)
     \<and> unat (sb_bmapstart sb) = unat (sb_inodestart sb) + (unat (sb_ninodes sb) div 16 + 1)
     \<and> unat (sb_bmapstart sb) + (unat (sb_size sb) div 8192 + 1) + unat (sb_nblocks sb) \<le> unat (sb_size sb)"

lemma unat_INODE_BLOCKS: "unat (INODE_BLOCKS n) = unat n div 16 + 1"
proof -
  have "unat n div 16 + 1 < 2 ^ 32" using unat_lt2p [of n] by simp
  then show ?thesis by (simp add: INODE_BLOCKS_def IPB_val unat_word_ariths unat_div)
qed

lemma check_sb_cond: "fst (xv6_check_sb sb) \<longleftrightarrow> sb_layout sb"
proof -
  let ?nl = "unat (sb_nlog sb)" and ?ib = "unat (sb_ninodes sb) div 16 + 1"
    and ?bb = "unat (sb_size sb) div 8192 + 1" and ?nb = "unat (sb_nblocks sb)"
  have lt: "unat x < 2 ^ 32" for x :: u32 by (rule unat_lt2p)
  have b: "?ib < 2 ^ 32" "?bb < 2 ^ 32" using lt [of "sb_ninodes sb"] lt [of "sb_size sb"] by simp_all
  have s1: "unat (1 + ucast (sb_nlog sb) :: u64) = 1 + ?nl"
    using lt [of "sb_nlog sb"] by (simp add: unat_word_ariths unat_ucast_u64)
  have s2: "unat (1 + ucast (sb_nlog sb) + ucast (INODE_BLOCKS (sb_ninodes sb)) :: u64) = 1 + ?nl + ?ib"
    using lt [of "sb_nlog sb"] b by (simp add: unat_word_ariths(1) [of _ "ucast (INODE_BLOCKS _)"] s1 unat_ucast_u64 unat_INODE_BLOCKS)
  have s3: "unat (1 + ucast (sb_nlog sb) + ucast (INODE_BLOCKS (sb_ninodes sb)) + ucast (BITMAP_BLOCKS (sb_size sb)) :: u64)
      = 1 + ?nl + ?ib + ?bb"
    using lt [of "sb_nlog sb"] b
    by (simp add: unat_word_ariths(1) [of _ "ucast (BITMAP_BLOCKS _)"] s2 unat_ucast_u64 unat_BITMAP_BLOCKS)
  have s4: "unat (1 + ucast (sb_nlog sb) + ucast (INODE_BLOCKS (sb_ninodes sb)) + ucast (BITMAP_BLOCKS (sb_size sb))
        + ucast (sb_nblocks sb) :: u64) = 1 + ?nl + ?ib + ?bb + ?nb"
    using lt [of "sb_nlog sb"] lt [of "sb_nblocks sb"] b
    by (simp add: unat_word_ariths(1) [of _ "ucast (sb_nblocks _)"] s3 unat_ucast_u64)
  have l: "(ucast (sb_logstart sb) = (1 :: u64)) = (sb_logstart sb = 1)"
    by (metis unat_ucast_u64 unat_1 word_eq_unat)
  show ?thesis
    unfolding xv6_check_sb_def Let_def fst_conv sb_layout_def
    by (simp add: word_eq_unat [of "ucast (sb_inodestart sb)"] word_eq_unat [of _ "ucast (sb_bmapstart sb)"]
        word_less_unat s1 s2 s3 s4 l)
qed

section \<open>Read-only walks\<close>

text \<open>
  \<open>same\<close> relates states that a caller cannot tell apart; \<open>view\<close> is the content of a
  block. Reading a block gives a buffer with its content; storing back what the buffer holds and
  releasing it leaves nothing behind.
\<close>

locale ro_dev =
  fixes ck :: "'s checker"
    and view :: "'s \<Rightarrow> u32 \<Rightarrow> block"
    and same :: "'s \<Rightarrow> 's \<Rightarrow> bool"
  assumes same_refl: "same s s"
    and same_trans: "same s t \<Longrightarrow> same t u \<Longrightarrow> same s u"
    and same_view: "same s t \<Longrightarrow> view t = view s"
    and read_fail: "ck_bread ck b s = (None, t) \<Longrightarrow> same s t"
    and read_ok: "ck_bread ck b s = (Some h, t) \<Longrightarrow> ck_bdata ck h t = view s b
      \<and> ck_bstore ck h (ck_bdata ck h t) t = t \<and> same s (ck_brelse ck h t)"

text \<open>\<open>no_faults\<close>: every block can be read. \<open>ro_cb\<close>: a callback that only looks, returns,
  and keeps the entry.\<close>

definition no_faults :: "'s checker \<Rightarrow> ('s \<Rightarrow> 's \<Rightarrow> bool) \<Rightarrow> 's \<Rightarrow> bool" where
  "no_faults ck same s \<longleftrightarrow> (\<forall>b t. same s t \<longrightarrow> fst (ck_bread ck b t) \<noteq> None)"

lemma no_faultsD: "no_faults ck same s \<Longrightarrow> same s t \<Longrightarrow> ck_bread ck b t = (r, u) \<Longrightarrow> r \<noteq> None"
  unfolding no_faults_def by (metis fst_conv)

definition ro_cb :: "'c xv6_diter_callback \<Rightarrow> bool" where
  "ro_cb cb \<longleftrightarrow> (\<forall>k e c. \<exists>a c'. cb k e c = Some (a, e, c') \<and> \<not> act_de_dirty a \<and> \<not> act_dir_ext a)"

lemma ro_cbE:
  assumes "ro_cb cb"
  obtains a c' where "cb k e c = Some (a, e, c')" "\<not> act_de_dirty a" "\<not> act_dir_ext a"
  using assms unfolding ro_cb_def by blast

lemma ro_dir_check: "ro_cb dir_check"
  by (simp add: ro_cb_def dir_check_def xv6_diter_action_init_def)

context ro_dev
begin

lemma addr_ro:
  obtains e b d' t where "xv6_inode_addr ck d i False s = Some (e, b, d', t)" "same s t"
    "ic_size d' = ic_size d" "no_faults ck same s \<Longrightarrow> unat i < MAXFILE \<Longrightarrow> e = 0"
proof -
  have ind: "\<exists>e b t. inode_addr_indirect ck d0 k False s = Some (e, b, d0, t) \<and> same s t
      \<and> (no_faults ck same s \<longrightarrow> e = 0)" for d0 k
  proof (cases "ck_bread ck (ic_addrs d0 ! NDIRECT) s")
    case (Pair r t)
    then show ?thesis
      using read_fail [of "ic_addrs d0 ! NDIRECT" s] read_ok [of "ic_addrs d0 ! NDIRECT" s]
        no_faultsD [of ck same s s _ r t] Pair same_refl [of s]
      by (cases r) (auto simp: inode_addr_indirect_def Let_def)
  qed
  have "\<exists>e b d' t. xv6_inode_addr ck d i False s = Some (e, b, d', t) \<and> same s t \<and> ic_size d' = ic_size d
      \<and> (no_faults ck same s \<longrightarrow> unat i < MAXFILE \<longrightarrow> e = 0)"
    using same_refl [of s] ind [of "d\<lparr>ic_dirty := False\<rparr>" "unat (i - of_nat NDIRECT)"]
    by (auto simp: xv6_inode_addr_def Let_def)
  then show thesis using that by blast
qed

lemma scan_ro:
  assumes "ro_cb cb" "ck_bstore ck h (ck_bdata ck h s) s = s"
  shows "\<exists>act' c'. dir_scan ck cb h i k lim act fl c s = Some (act', fl, c', s) \<and> (act' = act \<or> \<not> act_dir_ext act')"
proof (induction "unat lim - unat k" arbitrary: k act fl c rule: less_induct)
  case less
  show ?case
  proof (cases "k < lim")
    case True
    obtain a c1 where c: "cb (i * nents + k) (rd_dirent (ck_bdata ck h s) (unat k)) c =
        Some (a, rd_dirent (ck_bdata ck h s) (unat k), c1)" "\<not> act_de_dirty a" "\<not> act_dir_ext a"
      using ro_cbE [OF assms(1)] .
    have r: "dir_scan ck cb h i k lim act fl c s =
        (if \<not> act_cont a then Some (a, fl, c1, s) else dir_scan ck cb h i (k + 1) lim a fl c1 s)"
      using True c assms(2) by (subst dir_scan.simps) (simp add: Let_def)
    have m: "unat lim - unat (k + 1) < unat lim - unat k" by (rule measure_Suc) (use True in simp)
    show ?thesis using less [OF m, of a fl c1] c(3) unfolding r by auto
  next
    case False
    then show ?thesis by (subst dir_scan.simps) simp
  qed
qed

lemma block_ro:
  assumes "ro_cb cb"
  obtains e act' c' t where "dir_block ck cb b i off lim act c s = Some (e, act', c', t)" "same s t"
    "act' = act \<or> \<not> act_dir_ext act'" "no_faults ck same s \<Longrightarrow> e = 0"
proof (cases "b = 0")
  case True
  obtain a c1 where "cb (i * nents) zero_dirent c = Some (a, zero_dirent, c1)" "\<not> act_dir_ext a"
    using ro_cbE [OF assms] .
  then show thesis using that [of 0 a c1 s] True same_refl by (simp add: dir_block_def)
next
  case False
  obtain r s1 where r: "ck_bread ck b s = (r, s1)" by (cases "ck_bread ck b s")
  show thesis
  proof (cases r)
    case None
    then have "\<not> no_faults ck same s" using no_faultsD [of ck same s s b r s1] same_refl [of s] r by blast
    then show thesis using None that [of "- EIO" act c s1] False r read_fail [OF r [unfolded None]]
      by (simp add: dir_block_def)
  next
    case (Some h)
    note ok = read_ok [OF r [unfolded Some]]
    from scan_ro [OF assms, of h s1 i off lim act False c] ok
    show thesis using that False r Some by (auto simp: dir_block_def Let_def)
  qed
qed

lemma unat_plus_one_le: "unat (i + 1 :: u32) \<le> unat i + 1"
  by (simp add: unat_word_ariths)

text \<open>The walk over the blocks ends, since each step takes an entry off the count.\<close>

lemma loop_ro:
  assumes "ro_cb cb" "unat off < 64" "unat sz + unat off < 2 ^ 32"
  shows "\<exists>e act' d' c' t. dir_loop ck cb False i off sz act d c s = Some (e, act', d', c', t)
    \<and> same s t \<and> (act' = act \<or> \<not> act_dir_ext act')
    \<and> (no_faults ck same s \<longrightarrow> 64 * unat i + unat off + unat sz \<le> 64 * MAXFILE \<longrightarrow> 0 < unat off + unat sz \<longrightarrow> e = 0)"
  using assms(2,3)
proof (induction "unat sz" arbitrary: i off sz act d c s rule: less_induct)
  case less
  obtain e b d1 s1 where a: "xv6_inode_addr ck d i False s = Some (e, b, d1, s1)" "same s s1"
      "no_faults ck same s \<Longrightarrow> unat i < MAXFILE \<Longrightarrow> e = 0"
    using addr_ro [of d i s] by metis
  let ?lim = "if nents > sz + off then sz + off else nents"
  obtain e2 act1 c1 s2 where b: "dir_block ck cb b i off ?lim act c s1 = Some (e2, act1, c1, s2)"
      "same s1 s2" "act1 = act \<or> \<not> act_dir_ext act1" "no_faults ck same s1 \<Longrightarrow> e2 = 0"
    using block_ro [OF assms(1), of b i off ?lim act c s1] by metis
  define sz' where "sz' = sz - (?lim - off)"
  have r: "dir_loop ck cb False i off sz act d c s =
      (if e \<noteq> 0 then Some (e, act, d1, c, s1)
       else if \<not> act_cont act1 \<or> e2 \<noteq> 0 then Some (e2, act1, d1, c1, s2)
       else if sz' = 0 then Some (e2, act1, d1, c1, s2)
       else dir_loop ck cb False (i + 1) 0 (sz') act1 d1 c1 s2)"
    using a(1) b(1) by (subst dir_loop.simps) (simp add: Let_def sz'_def)
  have t: "same s s2" using a(2) b(2) by (rule same_trans)
  have nf: "no_faults ck same s \<Longrightarrow> no_faults ck same s1" "no_faults ck same s \<Longrightarrow> no_faults ck same s2"
    using same_trans [OF a(2)] same_trans [OF t] unfolding no_faults_def by blast+
  have so: "unat (sz + off) = unat sz + unat off" using less(3) by (rule unat_add_no_wrap)
  have l: "unat ?lim = min (unat sz + unat off) 64" by (simp add: so nents_val word_less_unat)
  have lo: "unat (?lim - off) = unat ?lim - unat off"
    by (rule unat_sub) (use less(2) l in \<open>simp add: word_le_unat\<close>)
  have d: "unat (?lim - off) = min (unat sz) (64 - unat off)" unfolding lo l by simp
  have z: "unat sz' = unat sz - min (unat sz) (64 - unat off)"
    unfolding sz'_def using d by (subst unat_sub) (simp_all add: word_le_unat)
  show ?case
  proof (cases "e = 0 \<and> act_cont act1 \<and> e2 = 0 \<and> sz' \<noteq> 0")
    case True
    have "unat sz' < unat sz"
      using True z less(2) by (auto simp: word_eq_unat)
    moreover have "unat sz' + unat (0 :: u32) < 2 ^ 32"
      using unat_lt2p [of sz'] by simp
    ultimately obtain e3 act' d' c' u where L: "dir_loop ck cb False (i + 1) 0 (sz') act1 d1 c1 s2
        = Some (e3, act', d', c', u)" "same s2 u" "act' = act1 \<or> \<not> act_dir_ext act'"
        "no_faults ck same s2 \<longrightarrow> 64 * unat (i + 1) + unat sz' \<le> 64 * MAXFILE \<longrightarrow>
          0 < unat sz' \<longrightarrow> e3 = 0"
      using less(1) [of sz' 0 "i + 1" act1 d1 c1 s2] by auto
    have "64 * unat (i + 1) + unat sz' \<le> 64 * unat i + unat off + unat sz
        \<and> 0 < unat sz'"
    proof -
      have p: "0 < unat sz'" using True by (simp add: word_eq_unat)
      then have "unat sz' = unat sz - (64 - unat off)" unfolding z by simp
      then show ?thesis using p unat_plus_one_le [of i] less(2) by simp
    qed
    then have "no_faults ck same s \<longrightarrow> 64 * unat i + unat off + unat sz \<le> 64 * MAXFILE \<longrightarrow> e3 = 0"
      using L(4) nf(2) by linarith
    moreover have "dir_loop ck cb False i off sz act d c s = Some (e3, act', d', c', u)"
      unfolding r using True L(1) by simp
    ultimately show ?thesis using L(2,3) b(3) same_trans [OF t] by blast
  next
    case False
    then show ?thesis using r a(2,3) t b(3,4) nf by auto
  qed
qed

lemma iterate_loop:
  assumes "ro_cb cb" "\<not> off > ic_size d div 16"
  obtains e act' d' c' t where "dir_loop ck cb False (off div nents) (off mod nents) (ic_size d div 16 - off)
      xv6_diter_action_init d c s = Some (e, act', d', c', t)" "same s t" "\<not> act_dir_ext act'"
    "no_faults ck same s \<longrightarrow> 64 * unat (off div nents) + unat (off mod nents) + unat (ic_size d div 16 - off) \<le> 64 * MAXFILE
      \<longrightarrow> 0 < unat (off mod nents) + unat (ic_size d div 16 - off) \<longrightarrow> e = 0"
proof -
  let ?sz = "ic_size d div 16" and ?o = "off mod nents"
  have o: "unat ?o < 64" by (simp add: nents_val unat_mod)
  have "unat (?sz - off) + unat ?o < 2 ^ 32"
  proof -
    have "unat ?sz < 2 ^ 28" using unat_lt2p [of "ic_size d"] by (simp add: unat_div)
    moreover have "unat (?sz - off) \<le> unat ?sz" using assms(2) by (simp add: unat_sub not_less word_le_unat)
    ultimately show ?thesis using o by simp
  qed
  from loop_ro [OF assms(1) o this, of "off div nents" xv6_diter_action_init d c s] that
  show thesis by (auto simp: xv6_diter_action_init_def)
qed

lemma iterate_ro:
  assumes "ro_cb cb" "ic_size d mod 16 = 0" "ic_size d \<ge> 2 * 16"
  obtains e d' c' t where "xv6_dir_iterate ck d cb c off False s = Some (e, d', c', t)" "same s t"
    "no_faults ck same s \<Longrightarrow> unat (ic_size d) \<le> 1024 * MAXFILE \<Longrightarrow> off = 2 \<Longrightarrow> e = 0"
proof (cases "off > ic_size d div 16")
  case True
  then show thesis using that [of 0 d c s] assms same_refl
    by (simp add: xv6_dir_iterate_def panic_unless_def)
next
  case False
  let ?sz = "ic_size d div 16" and ?o = "off mod nents"
  obtain e act' d' c' t where "dir_loop ck cb False (off div nents) ?o (?sz - off) xv6_diter_action_init d c s
      = Some (e, act', d', c', t)" "same s t" "\<not> act_dir_ext act'" "no_faults ck same s \<longrightarrow>
        64 * unat (off div nents) + unat ?o + unat (?sz - off) \<le> 64 * MAXFILE \<longrightarrow> 0 < unat ?o + unat (?sz - off) \<longrightarrow> e = 0"
    using iterate_loop [OF assms(1) False, of c s] by metis
  moreover have "64 * unat (off div nents) + unat ?o + unat (?sz - off) \<le> 64 * MAXFILE"
    if "unat (ic_size d) \<le> 1024 * MAXFILE" "off = 2"
  proof -
    have "unat (?sz - off) = unat ?sz - 2" using False that(2) by (simp add: unat_sub not_less)
    then show ?thesis using that by (simp add: nents_val unat_div not_less word_le_unat MAXFILE_val)
  qed
  ultimately show thesis using that [of e d' c' t] assms False
    by (simp add: xv6_dir_iterate_def panic_unless_def Let_def nents_val)
qed

end

section \<open>The checker\<close>

definition img_ok :: "(u32 \<Rightarrow> block) \<Rightarrow> bool" where
  "img_ok v \<longleftrightarrow> (let sb = rd_superblock (v 0); itab = v (sb_inodestart sb)
     in sb_magic sb = FSMAGIC \<and> sb_layout sb \<and> di_type (rd_dinode itab 0) = 0
        \<and> di_type (rd_dinode itab 1) = T_DIR)"

definition root_entries :: "(u32 \<Rightarrow> block) \<Rightarrow> bool" where
  "root_entries v \<longleftrightarrow> (let sz = di_size (rd_dinode (v (sb_inodestart (rd_superblock (v 0)))) 1)
     in sz mod 16 = 0 \<and> sz \<ge> 2 * 16)"

definition root_small :: "(u32 \<Rightarrow> block) \<Rightarrow> bool" where
  "root_small v \<longleftrightarrow> unat (di_size (rd_dinode (v (sb_inodestart (rd_superblock (v 0)))) 1)) \<le> MAXFILE * BSIZE"

lemma check_sb_start: "ci_inodestart (snd (xv6_check_sb sb)) = sb_inodestart sb"
  by (simp add: xv6_check_sb_def Let_def)

context ro_dev
begin

lemma docheck_cases:
  obtains (panic) "xv6_docheck ck s = None" "img_ok (view s)" "\<not> root_entries (view s)"
  | (early) r t where "xv6_docheck ck s = Some (r, t)" "same s t" "r \<noteq> 0"
      "\<not> img_ok (view s) \<or> \<not> no_faults ck same s"
  | (walked) r t where "xv6_docheck ck s = Some (r, t)" "same s t" "img_ok (view s)" "root_entries (view s)"
      "no_faults ck same s \<Longrightarrow> root_small (view s) \<Longrightarrow> r = 0"
proof -
  let ?sb = "rd_superblock (view s 0)" and ?thesis = thesis
  obtain r0 s1 where r0: "ck_bread ck 0 s = (r0, s1)" by (cases "ck_bread ck 0 s")
  show thesis
  proof (cases r0)
    case None
    then have "xv6_docheck ck s = Some (2, s1)" "same s s1"
      using r0 read_fail by (simp_all add: xv6_docheck_def)
    moreover have "\<not> no_faults ck same s"
      using no_faultsD [of ck same s s 0 r0 s1] same_refl r0 None by blast
    ultimately show thesis using early by simp
  next
    case (Some h)
    note ok0 = read_ok [OF r0 [unfolded Some]]
    let ?s1 = "ck_brelse ck h s1"
    have v1: "view ?s1 = view s" using ok0 same_view by blast
    show thesis
    proof (cases "sb_magic ?sb = FSMAGIC \<and> sb_layout ?sb")
      case False
      then have "xv6_docheck ck s = Some (1, ?s1)" "\<not> img_ok (view s)"
        using r0 Some ok0 check_sb_cond [of ?sb]
        by (auto simp: xv6_docheck_def img_ok_def Let_def case_prod_beta)
      then show thesis using early ok0 by auto
    next
      case True
      obtain inf where csb: "xv6_check_sb ?sb = (True, inf)" and start: "ci_inodestart inf = sb_inodestart ?sb"
        using True check_sb_cond [of ?sb] check_sb_start [of ?sb] by (cases "xv6_check_sb ?sb") auto
      obtain r1 s2 where r1: "ck_bread ck (sb_inodestart ?sb) ?s1 = (r1, s2)"
        by (cases "ck_bread ck (sb_inodestart ?sb) ?s1")
      have step: "xv6_docheck ck s = (case r1 of None \<Rightarrow> Some (2, s2)
          | Some buf \<Rightarrow>
              (let dino = rd_dinode (ck_bdata ck buf s2) 0; root = rd_dinode (ck_bdata ck buf s2) 1;
                   s = ck_brelse ck buf s2
               in if di_type dino \<noteq> 0 then Some (1, s)
                  else if di_type root \<noteq> T_DIR then Some (1, s)
                  else do {
                    let rc = \<lparr>ic_addrs = di_addrs root, ic_size = di_size root, ic_dirty = False\<rparr>;
                    (error, _, _, s) \<leftarrow> xv6_dir_iterate ck rc dir_check () 2 False s;
                    Some (if error \<noteq> 0 then 1 else 0, s) }))"
        by (simp add: xv6_docheck_def r0 Some ok0 True csb start r1 del: Let_def)
      show thesis
      proof (cases r1)
        case None
        then have "xv6_docheck ck s = Some (2, s2)" "same s s2"
          using step r1 read_fail ok0 same_trans by auto
        moreover have "\<not> no_faults ck same s"
          using no_faultsD [of ck same s ?s1 _ r1 s2] ok0 r1 None by blast
        ultimately show thesis using early by simp
      next
        case (Some buf)
        note ok1 = read_ok [OF r1 [unfolded Some]]
        let ?i = "view s (sb_inodestart ?sb)" and ?s2 = "ck_brelse ck buf s2"
        have s2: "same s ?s2" using ok0 ok1 same_trans by blast
        have d: "ck_bdata ck buf s2 = ?i" using ok1 v1 by simp
        show thesis
        proof (cases "di_type (rd_dinode ?i 0) = 0 \<and> di_type (rd_dinode ?i 1) = T_DIR")
          case False
          then have "xv6_docheck ck s = Some (1, ?s2)" "\<not> img_ok (view s)"
            unfolding step Some by (auto simp: d Let_def img_ok_def)
          then show thesis using early s2 by auto
        next
          case types: True
          have img: "img_ok (view s)" using types True by (simp add: img_ok_def Let_def)
          let ?rc = "\<lparr>ic_addrs = di_addrs (rd_dinode ?i 1), ic_size = di_size (rd_dinode ?i 1), ic_dirty = False\<rparr>"
          have run: "xv6_docheck ck s = do {
              (error, _, _, s) \<leftarrow> xv6_dir_iterate ck ?rc dir_check () 2 False ?s2;
              Some (if error \<noteq> 0 then 1 else 0, s) }"
            unfolding step Some using types by (simp add: d Let_def)
          show thesis
          proof (cases "root_entries (view s)")
            case False
            then have "xv6_docheck ck s = None"
              unfolding run by (auto simp: root_entries_def Let_def xv6_dir_iterate_def panic_unless_def)
            with img False show thesis using panic by blast
          next
            case re: True
            then have "ic_size ?rc mod 16 = 0" "ic_size ?rc \<ge> 2 * 16"
              by (simp_all add: root_entries_def Let_def)
            from iterate_ro [OF ro_dir_check this, of "()" 2 ?s2] obtain e d' c' t
              where it: "xv6_dir_iterate ck ?rc dir_check () 2 False ?s2 = Some (e, d', c', t)" "same ?s2 t"
              "no_faults ck same ?s2 \<Longrightarrow> unat (ic_size ?rc) \<le> 1024 * MAXFILE \<Longrightarrow> e = 0" by auto
            have nf: "no_faults ck same s \<Longrightarrow> no_faults ck same ?s2"
              using same_trans [OF s2] unfolding no_faults_def by blast
            have "xv6_docheck ck s = Some (if e \<noteq> 0 then 1 else 0, t)"
              unfolding run it(1) by simp
            moreover have "no_faults ck same s \<Longrightarrow> root_small (view s) \<Longrightarrow> e = 0"
              using it(3) nf by (simp add: root_small_def BSIZE_def mult.commute)
            ultimately show thesis using walked same_trans [OF s2 it(2)] img re by auto
          qed
        qed
      qed
    qed
  qed
qed

end

text \<open>The verdict does not depend on the operations that write.\<close>

definition with_writers :: "'s checker \<Rightarrow> (u32 \<Rightarrow> 's \<Rightarrow> (int \<times> u32 \<times> 's) option) \<Rightarrow>
    (u32 \<Rightarrow> 's \<Rightarrow> int \<times> 's) \<Rightarrow> 's checker" where
  "with_writers ck al fl = ck\<lparr>ck_balloc := al, ck_bflush := fl\<rparr>"

lemma with_writers_simps [simp]: "ck_bread (with_writers ck al fl) = ck_bread ck"
    "ck_bdata (with_writers ck al fl) = ck_bdata ck" "ck_bstore (with_writers ck al fl) = ck_bstore ck"
    "ck_brelse (with_writers ck al fl) = ck_brelse ck"
  by (simp_all add: with_writers_def)

lemma addr_writers: "xv6_inode_addr (with_writers ck al fl) d i False s = xv6_inode_addr ck d i False s"
  by (simp add: xv6_inode_addr_def inode_addr_indirect_def cong: if_cong option.case_cong)

lemma scan_writers: "dir_scan (with_writers ck al fl) cb h i k lim act f c s = dir_scan ck cb h i k lim act f c s"
proof (induction "unat lim - unat k" arbitrary: k act f c s rule: less_induct)
  case less
  show ?case
  proof (cases "k < lim")
    case True
    have "unat lim - unat (k + 1) < unat lim - unat k" by (rule measure_Suc) (use True in simp)
    note IH = less [OF this]
    show ?thesis
      by (subst (1 2) dir_scan.simps) (simp add: IH Let_def cong: if_cong)
  qed (subst (1 2) dir_scan.simps, simp)
qed

context ro_dev
begin

lemma block_writers:
  assumes "ro_cb cb"
  shows "dir_block (with_writers ck al fl) cb b i off lim act c s = dir_block ck cb b i off lim act c s"
proof (cases "ck_bread ck b s")
  case (Pair r s1)
  show ?thesis
  proof (cases r)
    case (Some h)
    have "ck_bstore ck h (ck_bdata ck h s1) s1 = s1" using read_ok Pair Some by blast
    from scan_ro [OF assms this, of i off lim act False c] Pair Some show ?thesis
      by (auto simp: dir_block_def scan_writers Let_def)
  qed (use Pair in \<open>simp add: dir_block_def\<close>)
qed

lemma loop_writers:
  assumes "ro_cb cb" "dir_loop ck cb False i off sz act d c s = Some r"
  shows "dir_loop (with_writers ck al fl) cb False i off sz act d c s = Some r"
proof -
  define P where "P = (\<lambda>ck' cb' rw i off sz act d c s r. ck' = ck \<longrightarrow> cb' = cb \<longrightarrow> \<not> rw \<longrightarrow>
    dir_loop (with_writers ck al fl) cb False i off sz act d c s = Some r)"
  have "P ck cb False i off sz act d c s r"
  proof (rule dir_loop.raw_induct [of P, OF _ assms(2)], unfold P_def, intro impI)
    fix F :: "'s checker \<Rightarrow> 'a xv6_diter_callback \<Rightarrow> bool \<Rightarrow> u32 \<Rightarrow> u32 \<Rightarrow>
      u32 \<Rightarrow> xv6_diter_action \<Rightarrow> xv6_inode_ctx \<Rightarrow> 'a \<Rightarrow> 's \<Rightarrow>
      (int \<times> xv6_diter_action \<times> xv6_inode_ctx \<times> 'a \<times> 's) option" and ck' cb' rw i off sz act d c s r
    assume IH: "\<And>ck' cb' rw i off sz act d c s r. F ck' cb' rw i off sz act d c s = Some r \<Longrightarrow>
        ck' = ck \<longrightarrow> cb' = cb \<longrightarrow> \<not> rw \<longrightarrow> dir_loop (with_writers ck al fl) cb False i off sz act d c s = Some r"
    have D: "F ck cb False i off sz act d c s = Some r \<Longrightarrow>
        dir_loop (with_writers ck al fl) cb False i off sz act d c s = Some r" for i off sz act d c s r
      using IH [of ck cb False i off sz act d c s r] by blast
    assume "do {
     (error, blockno, dir, s) \<leftarrow> xv6_inode_addr ck' d i rw s;
     if error \<noteq> 0 then Some (error, act, dir, c, s)
     else do {
       let lim = (if nents > sz + off then sz + off else nents);
       (error, act, ctx, s) \<leftarrow> dir_block ck' cb' blockno i off lim act c s;
       if \<not> act_cont act \<or> error \<noteq> 0 then Some (error, act, dir, ctx, s)
       else
         (let sz = sz - (lim - off)
          in if sz = 0 then Some (error, act, dir, ctx, s)
             else F ck' cb' rw (i + 1) 0 sz act dir ctx s)
     }
   } = Some r" and "ck' = ck" "cb' = cb" "\<not> rw"
    then show "dir_loop (with_writers ck al fl) cb False i off sz act d c s = Some r"
      apply (subst dir_loop.simps)
        apply (auto simp: addr_writers block_writers [OF assms(1)] Let_def elim!: bind_SomeE split: if_splits)
        apply (erule D)
      done
  qed
  then show ?thesis by (simp add: P_def)
qed

lemma iterate_writers:
  assumes "ro_cb cb"
  shows "xv6_dir_iterate (with_writers ck al fl) d cb c off False s = xv6_dir_iterate ck d cb c off False s"
proof (cases "ic_size d mod 16 = 0 \<and> 2 * 16 \<le> ic_size d \<and> \<not> off > ic_size d div 16")
  case True
  then have "\<not> off > ic_size d div 16" by simp
  from iterate_loop [OF assms this, of c s] obtain e act' d' c' t
    where r: "dir_loop ck cb False (off div nents) (off mod nents) (ic_size d div 16 - off)
      xv6_diter_action_init d c s = Some (e, act', d', c', t)" "\<not> act_dir_ext act'" by metis
  show ?thesis
    using True r loop_writers [OF assms r(1), of al fl]
    by (simp add: xv6_dir_iterate_def panic_unless_def Let_def)
next
  case False
  then show ?thesis by (auto simp: xv6_dir_iterate_def panic_unless_def)
qed

lemma docheck_writers: "xv6_docheck (with_writers ck al fl) s = xv6_docheck ck s"
  by (simp add: xv6_docheck_def Let_def iterate_writers [OF ro_dir_check]
      cong: if_cong option.case_cong)

end

section \<open>The kernel's table and the verifier's image\<close>

interpretation kro: ro_dev modcheck cache quiet
  by unfold_locales
    (auto simp: modcheck_def checker_bread_def checker_data_def checker_brelse_def b_data_def b_store_def
      quietD(1) sb_bread_def brelse_def intro: quiet_trans split: if_splits)

definition im_view :: "image \<Rightarrow> u32 \<Rightarrow> block" where
  "im_view im b = uc_bdata (b * of_nat BSIZE) im"

lemma uc_bstore_same: "uc_bstore b (uc_bdata b im) im = im"
  by (cases im) (auto simp: uc_bstore_def uc_bdata_def fun_eq_iff)

interpretation imro: ro_dev "xv6check_table al fl" im_view "(=)" for al fl
  by unfold_locales
    (auto simp: xv6check_table_def uc_bread_def im_view_def uc_brelse_def uc_bstore_same split: if_splits)

section \<open>Properties\<close>

text \<open>
  C27. The super block check, with its sums in 64 bits, accepts exactly the super blocks
  whose log, inode table, bitmap and data region follow each other from block 1 on and fit on the
  disk, for all values of the fields: no sum wraps around.
\<close>

theorem check_sb_iff:
  "fst (xv6_check_sb sb) \<longleftrightarrow> sb_logstart sb = 1
     \<and> unat (sb_inodestart sb) = 1 + unat (sb_nlog sb)
     \<and> unat (sb_bmapstart sb) = unat (sb_inodestart sb) + (unat (sb_ninodes sb) div 16 + 1)
     \<and> unat (sb_bmapstart sb) + (unat (sb_size sb) div 8192 + 1) + unat (sb_nblocks sb) \<le> unat (sb_size sb)"
  using check_sb_cond [of sb] by (simp add: sb_layout_def)

text \<open>A file system whose root directory holds two entries.\<close>

definition img_sb :: superblock where
  "img_sb = \<lparr>sb_magic = FSMAGIC, sb_size = 2000, sb_nblocks = 1954, sb_ninodes = 200, sb_nlog = 31,
     sb_logstart = 1, sb_inodestart = 32, sb_bmapstart = 45\<rparr>"

definition img_root :: dinode where
  "img_root = zero_dinode\<lparr>di_type := T_DIR, di_nlink := 1, di_size := 32, di_addrs := 46 # replicate 12 0\<rparr>"

definition img_fs :: "u32 \<Rightarrow> fs" where
  "img_fs sz = sample_fs\<lparr>cache := (cache sample_fs)(0 := wr_superblock zero_block img_sb,
     32 := wr_dinode zero_block 1 (img_root\<lparr>di_size := sz\<rparr>))\<rparr>"

lemma img_root_wf [simp]: "wf_dinode (img_root\<lparr>di_size := sz\<rparr>)"
  by (simp add: wf_dinode_def img_root_def NDIRECT_def)

lemma img_fs_blocks: "rd_superblock (cache (img_fs sz) 0) = img_sb" "rd_dinode (cache (img_fs sz) 32) 0 = zero_dinode"
    "rd_dinode (cache (img_fs sz) 32) 1 = img_root\<lparr>di_size := sz\<rparr>"
  by (simp_all add: img_fs_def rd_superblock_wr rd_dinode_wr)

lemma img_fs_ok: "img_ok (cache (img_fs sz))"
  using img_fs_blocks [of sz]
  by (simp add: img_ok_def Let_def sb_layout_def img_sb_def img_root_def zero_dinode_def)

lemma img_fs_root: "root_entries (cache (img_fs sz)) \<longleftrightarrow> sz mod 16 = 0 \<and> 32 \<le> sz"
    "root_small (cache (img_fs sz)) \<longleftrightarrow> unat sz \<le> 274432"
  using img_fs_blocks [of sz]
  by (simp_all add: root_entries_def root_small_def img_sb_def img_root_def MAXFILE_val BSIZE_def)

text \<open>
  C28. The check at mount time decides: it returns whatever the disk contains, unless the size of the
  root directory is not that of a list of entries; it changes nothing but the count of service
  calls; what it accepts has the magic number, the layout above, an unused inode 0 and a
  directory as inode 1; and without read errors it accepts every such file system whose
  root directory is at most as large as a file can be.
\<close>

theorem docheck_verdict:
  "(xv6_docheck modcheck s = None \<longrightarrow> img_ok (cache s) \<and> \<not> root_entries (cache s))
   \<and> (\<forall>r t. xv6_docheck modcheck s = Some (r, t) \<longrightarrow> quiet s t
        \<and> (r = 0 \<longrightarrow> img_ok (cache s) \<and> root_entries (cache s)))
   \<and> ((\<forall>n b. env_bread (env s) n b) \<longrightarrow> img_ok (cache s) \<longrightarrow> root_entries (cache s) \<longrightarrow>
        root_small (cache s) \<longrightarrow> (\<exists>t. xv6_docheck modcheck s = Some (0, t)))"
proof -
  have nf: "no_faults modcheck quiet s" if "\<forall>n b. env_bread (env s) n b"
    using that by (auto simp: no_faults_def modcheck_def checker_bread_def sb_bread_def quietD)
  show ?thesis
    by (cases rule: kro.docheck_cases [of s]) (use nf in auto)
qed

text \<open>
  C29. A root directory whose size is not a multiple of the entry size, or is below two entries,
  is not rejected: the check panics, and with it the mount of such a disk.
\<close>

theorem docheck_panics:
  assumes "\<forall>n b. env_bread (env s) n b" and "img_ok (cache s)"
    and "di_size (rd_dinode (cache s (sb_inodestart (rd_superblock (cache s 0)))) 1) mod 16 \<noteq> 0
       \<or> di_size (rd_dinode (cache s (sb_inodestart (rd_superblock (cache s 0)))) 1) < 32"
  shows "xv6_docheck modcheck s = None"
proof -
  have "no_faults modcheck quiet s"
    using assms(1) by (auto simp: no_faults_def modcheck_def checker_bread_def sb_bread_def quietD)
  moreover have "\<not> root_entries (cache s)"
    using assms(3) by (auto simp: root_entries_def Let_def)
  ultimately show ?thesis
    by (cases rule: kro.docheck_cases [of s]) (use assms(2) in auto)
qed

theorem docheck_verdict_witness:
  "\<exists>t. xv6_docheck modcheck (img_fs 32) = Some (0, t)"
  using docheck_verdict [of "img_fs 32"] img_fs_ok [of 32] img_fs_root [of 32]
  by (simp add: img_fs_def)

theorem docheck_panics_witness: "xv6_docheck modcheck (img_fs 40) = None"
  by (rule docheck_panics) (use img_fs_ok [of 40] img_fs_blocks [of 40] in
    \<open>simp_all add: img_fs_def img_sb_def img_root_def\<close>)

text \<open>
  C30. The verifier never initialises the members \<^verbatim>\<open>balloc\<close> and \<^verbatim>\<open>bflush\<close> of its table; its
  exit status does not depend on them.
\<close>

theorem verifier_ignores_writers:
  "xv6check_main al fl argc file = xv6check_main al' fl' argc file"
proof -
  have t: "xv6check_table al fl = with_writers (xv6check_table al' fl') al fl"
    by (simp add: xv6check_table_def with_writers_def)
  show ?thesis unfolding xv6check_main_def t imro.docheck_writers ..
qed

end
