(* ===== verification/Mkxv6.thy ===== *)
theory Mkxv6
  imports Block_Alloc
begin

text \<open>
  \<^verbatim>\<open>mkxv6.c\<close>: the program that builds an image. The image file is a sequence of sectors that
  grows when a sector behind its end is written; reading behind the end is a short read, on
  which the program dies. The globals \<^verbatim>\<open>freeinode\<close> and \<^verbatim>\<open>freeblock\<close> are members of the state;
  \<^theory_text>\<open>None\<close> is an exit with an error (\<^verbatim>\<open>die\<close>, a failed assertion, wrong usage). \<open>im_io\<close> says
  which of the program's seek, read and write calls succeed. The host is little-endian, so that
  \<^verbatim>\<open>xint\<close> and \<^verbatim>\<open>xshort\<close> are the identity on values (theory \<open>Disk_Layout\<close>).
\<close>

section \<open>Constants and state\<close>

definition MAXOPBLOCKS :: nat where "MAXOPBLOCKS = 10"
definition LOGBLOCKS :: nat where "LOGBLOCKS = MAXOPBLOCKS * 3"
definition FSSIZE :: u32 where "FSSIZE = 2000"
definition NINODES :: u32 where "NINODES = 200"
definition nbitmap :: u32 where "nbitmap = BITMAP_BLOCKS FSSIZE"
definition ninodeblocks :: u32 where "ninodeblocks = INODE_BLOCKS NINODES"
definition nlog :: u32 where "nlog = of_nat (LOGBLOCKS + 1)"
definition nmeta :: u32 where "nmeta = 1 + nlog + ninodeblocks + nbitmap"
definition nblocks :: u32 where "nblocks = FSSIZE - nmeta"

definition mk_sb :: superblock where
  "mk_sb = \<lparr>sb_magic = FSMAGIC, sb_size = FSSIZE, sb_nblocks = nblocks, sb_ninodes = NINODES,
     sb_nlog = nlog, sb_logstart = 1, sb_inodestart = 1 + nlog, sb_bmapstart = 1 + nlog + ninodeblocks\<rparr>"

record mkfs =
  mk_sect :: "nat \<Rightarrow> block"
  mk_nsect :: nat
  mk_io :: "nat \<Rightarrow> bool"
  mk_now :: nat
  freeinode :: u32
  freeblock :: u32

section \<open>Sectors\<close>

definition sect_no :: "u32 \<Rightarrow> nat" where
  "sect_no sec = unat (sec * of_nat BSIZE) div BSIZE"

definition wsect :: "u32 \<Rightarrow> block \<Rightarrow> mkfs \<Rightarrow> mkfs option" where
  "wsect sec buf m =
     (if \<not> mk_io m (mk_now m) then None
      else Some (m\<lparr>mk_now := Suc (mk_now m), mk_sect := (mk_sect m)(sect_no sec := buf),
        mk_nsect := max (mk_nsect m) (Suc (sect_no sec))\<rparr>))"

definition rsect :: "u32 \<Rightarrow> mkfs \<Rightarrow> (block \<times> mkfs) option" where
  "rsect sec m =
     (if \<not> mk_io m (mk_now m) \<or> \<not> sect_no sec < mk_nsect m then None
      else Some (mk_sect m (sect_no sec), m\<lparr>mk_now := Suc (mk_now m)\<rparr>))"

section \<open>Inodes\<close>

definition IBLOCK :: "u32 \<Rightarrow> superblock \<Rightarrow> u32" where
  "IBLOCK i sb = i div IPB + sb_inodestart sb"

definition winode :: "u32 \<Rightarrow> dinode \<Rightarrow> mkfs \<Rightarrow> mkfs option" where
  "winode inum ip m = do {
     let bn = IBLOCK inum mk_sb;
     (buf, m) \<leftarrow> rsect bn m;
     wsect bn (wr_dinode buf (unat (inum mod IPB)) ip) m
   }"

definition rinode :: "u32 \<Rightarrow> mkfs \<Rightarrow> (dinode \<times> mkfs) option" where
  "rinode inum m = do {
     let bn = IBLOCK inum mk_sb;
     (buf, m) \<leftarrow> rsect bn m;
     Some (rd_dinode buf (unat (inum mod IPB)), m)
   }"

definition ialloc :: "u16 \<Rightarrow> mkfs \<Rightarrow> (u32 \<times> mkfs) option" where
  "ialloc itype m = do {
     let inum = freeinode m;
     let m = m\<lparr>freeinode := freeinode m + 1\<rparr>;
     let din = zero_dinode\<lparr>di_type := itype, di_nlink := 1, di_size := 0\<rparr>;
     m \<leftarrow> winode inum din m;
     Some (inum, m)
   }"

section \<open>The bitmap\<close>

fun balloc_bits :: "nat \<Rightarrow> nat \<Rightarrow> block \<Rightarrow> block" where
  "balloc_bits i 0 buf = buf"
| "balloc_bits i (Suc n) buf = balloc_bits (i + 1) n (buf(i div 8 := buf (i div 8) OR push_bit (i mod 8) 1))"

definition balloc :: "u32 \<Rightarrow> mkfs \<Rightarrow> mkfs option" where
  "balloc used m =
     (if \<not> sint used < sint BPB then None
      else wsect (sb_bmapstart mk_sb) (balloc_bits 0 (nat (sint used)) zero_block) m)"

section \<open>Appending to a file\<close>

text \<open>\<^verbatim>\<open>iappend\<close>: \<open>iappend_block\<close> finds or allocates the block \<^verbatim>\<open>x\<close> for file block \<^verbatim>\<open>fbn\<close>.\<close>

definition iappend_block :: "u32 \<Rightarrow> dinode \<Rightarrow> mkfs \<Rightarrow> (u32 \<times> dinode \<times> mkfs) option" where
  "iappend_block fbn din m =
     (if unat fbn < NDIRECT
      then
        (let (din, m) =
           (if di_addrs din ! unat fbn = 0
            then (din\<lparr>di_addrs := (di_addrs din)[unat fbn := freeblock m]\<rparr>, m\<lparr>freeblock := freeblock m + 1\<rparr>)
            else (din, m))
         in Some (di_addrs din ! unat fbn, din, m))
      else do {
        let (din, m) =
           (if di_addrs din ! NDIRECT = 0
            then (din\<lparr>di_addrs := (di_addrs din)[NDIRECT := freeblock m]\<rparr>, m\<lparr>freeblock := freeblock m + 1\<rparr>)
            else (din, m));
        let k = unat fbn - NDIRECT;
        (indirect, m) \<leftarrow> rsect (di_addrs din ! NDIRECT) m;
        (indirect, m) \<leftarrow>
          (if rd32 indirect (4 * k) = 0
           then do {
             let indirect = wr32 indirect (4 * k) (freeblock m);
             m \<leftarrow> wsect (di_addrs din ! NDIRECT) indirect (m\<lparr>freeblock := freeblock m + 1\<rparr>);
             Some (indirect, m)
           }
           else Some (indirect, m));
        Some (rd32 indirect (4 * k), din, m)
      })"

lemma append_room:
  assumes "unat (off div of_nat BSIZE :: u32) < MAXFILE"
  shows "unat ((off div of_nat BSIZE + 1) * of_nat BSIZE - off :: u32) = 1024 - unat off mod 1024"
    "unat (off - off div of_nat BSIZE * of_nat BSIZE :: u32) = unat off mod 1024"
proof -
  let ?q = "off div 1024 :: u32"
  have q: "unat ?q = unat off div 1024" by (simp add: unat_div)
  have small: "unat off div 1024 < 268" using assms by (simp add: BSIZE_def MAXFILE_val unat_div)
  have m0: "unat (?q * 1024) = unat off div 1024 * 1024"
    using small by (simp add: unat_word_ariths q)
  have m1: "unat ((?q + 1) * 1024) = (unat off div 1024 + 1) * 1024"
    using small by (simp add: unat_word_ariths q)
  have e: "unat off = unat off div 1024 * 1024 + unat off mod 1024" "unat off mod 1024 < 1024" by simp_all
  have le: "off \<le> (?q + 1) * 1024" "?q * 1024 \<le> off"
    unfolding word_le_nat_alt m0 m1 using e by simp_all
  have u: "unat ((?q + 1) * 1024 - off) = unat ((?q + 1) * 1024) - unat off"
    "unat (off - ?q * 1024) = unat off - unat (?q * 1024)"
    using le by (simp_all add: unat_sub)
  have lin: "(a + 1) * 1024 - (a * 1024 + b) = 1024 - b" "a * 1024 + b - a * 1024 = b" for a b :: nat
    by simp_all
  show "unat ((off div of_nat BSIZE + 1) * of_nat BSIZE - off) = 1024 - unat off mod 1024"
    using u(1) lin(1) [of "unat off div 1024" "unat off mod 1024"]
    unfolding m1 BSIZE_def of_nat_numeral div_mult_mod_eq by (rule trans)
  show "unat (off - off div of_nat BSIZE * of_nat BSIZE) = unat off mod 1024"
    using u(2) lin(2) [of "unat off div 1024" "unat off mod 1024"]
    unfolding m0 BSIZE_def of_nat_numeral div_mult_mod_eq by (rule trans)
qed

function iappend_loop :: "bytes \<Rightarrow> u32 \<Rightarrow> dinode \<Rightarrow> mkfs \<Rightarrow> (u32 \<times> dinode \<times> mkfs) option" where
  "iappend_loop p off din m =
     (if p = [] then Some (off, din, m)
      else if \<not> unat (off div of_nat BSIZE) < MAXFILE then None
      else do {
        let fbn = off div of_nat BSIZE;
        (x, din, m) \<leftarrow> iappend_block fbn din m;
        let n1 = min (length p) (unat ((fbn + 1) * of_nat BSIZE - off));
        (buf, m) \<leftarrow> rsect x m;
        m \<leftarrow> wsect x (put buf (unat (off - fbn * of_nat BSIZE)) (take n1 p)) m;
        iappend_loop (drop n1 p) (off + of_nat n1) din m
      })"
  by pat_completeness auto

termination iappend_loop
proof (relation "measure (\<lambda>(p, off, din, m). length p)", goal_cases)
  case (2 p off din m fbn)
  then show ?case using append_room(1) [of off] by (auto simp: min_def)
qed simp

declare iappend_loop.simps [simp del]

definition iappend :: "u32 \<Rightarrow> bytes \<Rightarrow> mkfs \<Rightarrow> mkfs option" where
  "iappend inum xp m = do {
     (din, m) \<leftarrow> rinode inum m;
     (off, din, m) \<leftarrow> iappend_loop xp (di_size din) din m;
     winode inum (din\<lparr>di_size := off\<rparr>) m
   }"

section \<open>The program\<close>

definition dirent_bytes :: "dirent \<Rightarrow> bytes" where
  "dirent_bytes de = [byte16 0 (de_inum de), byte16 1 (de_inum de)] @ de_name de"

text \<open>An argument: its name, whether it can be opened and is a directory, and what the successive
  reads of at most \<^verbatim>\<open>BSIZE\<close> bytes return.\<close>

record hostfile =
  hf_name :: bytes
  hf_opens :: bool
  hf_isdir :: bool
  hf_reads :: "bytes list"

definition mk_entry :: "u32 \<Rightarrow> bytes \<Rightarrow> dirent" where
  "mk_entry inum name = zero_dirent\<lparr>de_inum := ucast inum, de_name := strncpy_bytes name DIRSIZ\<rparr>"

fun iappend_all :: "u32 \<Rightarrow> bytes list \<Rightarrow> mkfs \<Rightarrow> mkfs option" where
  "iappend_all inum [] m = Some m"
| "iappend_all inum (b # bs) m = do { m \<leftarrow> iappend inum b m; iappend_all inum bs m }"

definition user_prefix :: bytes where
  "user_prefix = [117, 115, 101, 114, 47]"

definition mk_file :: "u32 \<Rightarrow> hostfile \<Rightarrow> mkfs \<Rightarrow> mkfs option" where
  "mk_file rootino f m = do {
     let shortname = (if take 5 (hf_name f) = user_prefix then drop 5 (hf_name f) else hf_name f);
     _ \<leftarrow> (if 47 \<in> set shortname then None else Some ());
     _ \<leftarrow> (if hf_opens f then Some () else None);
     let shortname = (if shortname \<noteq> [] \<and> hd shortname = 95 then tl shortname else shortname);
     _ \<leftarrow> (if length shortname \<le> DIRSIZ then Some () else None);
     (inum, m) \<leftarrow> ialloc (if hf_isdir f then T_DIR else T_FILE) m;
     m \<leftarrow> (if hf_isdir f
           then iappend_all inum [dirent_bytes (mk_entry inum [46]), dirent_bytes (mk_entry rootino [46, 46])] m
           else iappend_all inum (hf_reads f) m);
     iappend rootino (dirent_bytes (mk_entry inum shortname)) m
   }"

fun mk_files :: "u32 \<Rightarrow> hostfile list \<Rightarrow> mkfs \<Rightarrow> mkfs option" where
  "mk_files rootino [] m = Some m"
| "mk_files rootino (f # fs) m = do { m \<leftarrow> mk_file rootino f m; mk_files rootino fs m }"

fun clear_sects :: "nat \<Rightarrow> nat \<Rightarrow> mkfs \<Rightarrow> mkfs option" where
  "clear_sects i 0 m = Some m"
| "clear_sects i (Suc n) m = do { m \<leftarrow> wsect (of_nat i) zero_block m; clear_sects (i + 1) n m }"

definition mk_main :: "hostfile list \<Rightarrow> (nat \<Rightarrow> bool) \<Rightarrow> mkfs option" where
  "mk_main files io = do {
     let m = \<lparr>mk_sect = (\<lambda>_. zero_block), mk_nsect = 0, mk_io = io, mk_now = 0, freeinode = 1, freeblock = nmeta\<rparr>;
     m \<leftarrow> clear_sects 0 (unat FSSIZE) m;
     m \<leftarrow> wsect 0 (wr_superblock zero_block mk_sb) m;
     (rootino, m) \<leftarrow> ialloc T_DIR m;
     _ \<leftarrow> xv6_assert (rootino = ROOTINO);
     m \<leftarrow> iappend_all rootino [dirent_bytes (mk_entry rootino [46]), dirent_bytes (mk_entry rootino [46, 46])] m;
     m \<leftarrow> mk_files rootino files m;
     (din, m) \<leftarrow> rinode rootino m;
     let off = (di_size din div of_nat BSIZE + 1) * of_nat BSIZE;
     m \<leftarrow> winode rootino (din\<lparr>di_size := off\<rparr>) m;
     balloc (freeblock m) m
   }"

end
