(* ===== verification/Mkxv6_Spec.thy ===== *)
theory Mkxv6_Spec
  imports Mkxv6 Check_Spec
begin

text \<open>
  What the image builder guarantees about the whole image: its layout is the documented one, the
  image it leaves has 2000 sectors, and its bitmap, read the way the kernel reads it, marks
  exactly the blocks below the first one not handed out. What the sectors hold, and that the kernel
  mounts the image, is shown in \<open>Mkxv6_Mount\<close>.
\<close>

section \<open>Layout\<close>

lemma mk_vals: "nmeta = 46" "nlog = 31" "ninodeblocks = 13" "nbitmap = 1" "nblocks = 1954" "FSSIZE = 2000"
    "sb_inodestart mk_sb = 32" "sb_bmapstart mk_sb = 45"
  by (simp_all add: mk_sb_def nmeta_def nlog_def ninodeblocks_def nbitmap_def nblocks_def LOGBLOCKS_def
      MAXOPBLOCKS_def INODE_BLOCKS_def BITMAP_BLOCKS_def NINODES_def FSSIZE_def IPB_val BPB_val)

lemma mk_sb_layout: "sb_layout mk_sb"
  by (simp add: sb_layout_def mk_sb_def mk_vals NINODES_def nmeta_def)

section \<open>The bitmap\<close>

lemma bit_cat32:
  assumes "n < 32"
  shows "bit (cat32 b0 b1 b2 b3) n = bit ([b0, b1, b2, b3] ! (n div 8)) (n mod 8)"
proof -
  define a r where "a = n div 8" and "r = n mod 8"
  have n: "n = 8 * a + r" "r < 8" "a < 4" using assms by (simp_all add: a_def r_def div_less_iff_less_mult)
  from n(3) consider "a = 0" | "a = 1" | "a = 2" | "a = 3" by linarith
  then have "bit (cat32 b0 b1 b2 b3) (8 * a + r) = bit ([b0, b1, b2, b3] ! a) r"
    using n(2) by cases (auto simp: cat32_def bit_simps dest: bit_imp_le_length)
  then show ?thesis by (simp add: n(1) [symmetric] a_def r_def)
qed

text \<open>The kernel finds a block's bit in a 32-bit word, the builder in a byte: it is the same bit.\<close>

lemma blk_bit_byte: "blk_bit d b = bit (d (unat b mod 8192 div 8)) (unat b mod 8)"
proof -
  define q where "q = unat b mod 8192"
  have q: "bit_index b = q div 32" by (simp add: bit_index_def unat_div unat_mod BPB_val q_def)
  have r: "unat (b mod 32) = q mod 32" by (simp add: unat_mod q_def mod_mod_cancel)
  have m: "unat b mod 8 = q mod 32 mod 8" by (simp add: q_def mod_mod_cancel)
  have "(32 * a + r) div 8 = 4 * a + r div 8" for a r :: nat by simp
  from this [of "q div 32" "q mod 32"] have e: "q div 8 = 4 * (q div 32) + q mod 32 div 8" by simp
  have k: "q mod 32 div 8 < 4" by simp
  then consider "q mod 32 div 8 = 0" | "q mod 32 div 8 = 1" | "q mod 32 div 8 = 2" | "q mod 32 div 8 = 3"
    by linarith
  then have "[d (4 * (q div 32)), d (4 * (q div 32) + 1), d (4 * (q div 32) + 2), d (4 * (q div 32) + 3)]
      ! (q mod 32 div 8) = d (q div 8)"
    unfolding e by cases simp_all
  then show ?thesis
    unfolding blk_bit_def q r m rd32_def by (subst bit_cat32) (simp_all add: q_def)
qed

lemma balloc_bits_bit:
  "k < 8 \<Longrightarrow> bit (balloc_bits i n buf j) k = (bit (buf j) k \<or> (i \<le> 8 * j + k \<and> 8 * j + k < i + n))"
proof (induction n arbitrary: i buf)
  case (Suc n)
  have e: "i = 8 * j + k \<longleftrightarrow> j = i div 8 \<and> k = i mod 8" using Suc.prems by auto
  show ?case
    using Suc.prems e by (auto simp: Suc.IH bit_simps dest: bit_imp_le_length)
qed auto

section \<open>The size of the image\<close>

definition fits :: "mkfs \<Rightarrow> bool" where
  "fits m \<longleftrightarrow> mk_nsect m = 2000 \<and> 46 \<le> unat (freeblock m) \<and> unat (freeblock m) \<le> 2000"

text \<open>Between taking a block and first reading it, the block may lie one past the end.\<close>

definition fits_new :: "u32 \<Rightarrow> mkfs \<Rightarrow> bool" where
  "fits_new x m \<longleftrightarrow> fits m \<or> mk_nsect m = 2000 \<and> freeblock m = 2001 \<and> x = 2000"

lemma sect_small: "unat x < 2 ^ 22 \<Longrightarrow> sect_no x = unat x"
  by (simp add: sect_no_def BSIZE_def unat_word_ariths)

lemma rsect_Some:
  "rsect x m = Some (b, m') \<Longrightarrow> m' = m\<lparr>mk_now := Suc (mk_now m)\<rparr> \<and> b = mk_sect m (sect_no x) \<and> sect_no x < mk_nsect m"
  by (auto simp: rsect_def split: if_splits)

lemma wsect_Some:
  "wsect x b m = Some m' \<Longrightarrow> m' = m\<lparr>mk_now := Suc (mk_now m), mk_sect := (mk_sect m)(sect_no x := b),
        mk_nsect := max (mk_nsect m) (Suc (sect_no x))\<rparr>"
  by (auto simp: wsect_def split: if_splits)

lemma fits_upd [simp]: "fits (m\<lparr>mk_now := n\<rparr>) = fits m" "fits (m\<lparr>mk_sect := c\<rparr>) = fits m"
    "fits (m\<lparr>freeinode := i\<rparr>) = fits m"
  by (simp_all add: fits_def)

lemma fits_rw:
  assumes "fits_new x m" "rsect x m = Some (b, m1)"
  shows "fits m1" "sect_no x < 2000"
proof -
  have "sect_no 2000 = 2000" by (simp add: sect_small)
  then have "fits m" using assms(1) rsect_Some [OF assms(2)] by (auto simp: fits_new_def)
  then show "fits m1" "sect_no x < 2000" using rsect_Some [OF assms(2)] by (auto simp: fits_def)
qed

lemma fits_wsect: "fits m \<Longrightarrow> sect_no x < 2000 \<Longrightarrow> wsect x b m = Some m' \<Longrightarrow> fits m'"
  using wsect_Some [of x b m m'] by (simp add: fits_def)

lemma fits_take: "fits m \<Longrightarrow> fits_new (freeblock m) (m\<lparr>freeblock := freeblock m + 1\<rparr>)"
proof -
  assume a: "fits m"
  then have u: "unat (freeblock m + 1) = unat (freeblock m) + 1"
    by (intro trans [OF unat_add_no_wrap]) (simp_all add: fits_def)
  show ?thesis
    using a by (cases "freeblock m = 2000") (auto simp: fits_def fits_new_def u word_eq_unat)
qed

lemma fits_newI: "fits m \<Longrightarrow> fits_new x m"
  by (simp add: fits_new_def)

lemma iappend_block_indirect:
  assumes "\<not> unat fbn < NDIRECT" "iappend_block fbn din m = Some (x, din', m')"
  obtains m1 ind m2 ind2 k where "k = 4 * (unat fbn - NDIRECT)"
    "(din', m1) = (if di_addrs din ! NDIRECT = 0
       then (din\<lparr>di_addrs := (di_addrs din)[NDIRECT := freeblock m]\<rparr>, m\<lparr>freeblock := freeblock m + 1\<rparr>)
       else (din, m))"
    "rsect (di_addrs din' ! NDIRECT) m1 = Some (ind, m2)"
    "rd32 ind k = 0 \<and> ind2 = wr32 ind k (freeblock m2)
       \<and> wsect (di_addrs din' ! NDIRECT) ind2 (m2\<lparr>freeblock := freeblock m2 + 1\<rparr>) = Some m'
     \<or> rd32 ind k \<noteq> 0 \<and> ind2 = ind \<and> m' = m2"
    "x = rd32 ind2 k"
proof -
  define p where "p = (if di_addrs din ! NDIRECT = 0
            then (din\<lparr>di_addrs := (di_addrs din)[NDIRECT := freeblock m]\<rparr>, m\<lparr>freeblock := freeblock m + 1\<rparr>)
            else (din, m))"
  have u: "iappend_block fbn din m = do {
      (indirect, m) \<leftarrow> rsect (di_addrs (fst p) ! NDIRECT) (snd p);
      (indirect, m) \<leftarrow>
        (if rd32 indirect (4 * (unat fbn - NDIRECT)) = 0
         then do {
           m' \<leftarrow> wsect (di_addrs (fst p) ! NDIRECT) (wr32 indirect (4 * (unat fbn - NDIRECT)) (freeblock m))
             (m\<lparr>freeblock := freeblock m + 1\<rparr>);
           Some (wr32 indirect (4 * (unat fbn - NDIRECT)) (freeblock m), m')
         }
         else Some (indirect, m));
      Some (rd32 indirect (4 * (unat fbn - NDIRECT)), fst p, m) }"
    using assms(1) by (simp add: iappend_block_def p_def Let_def case_prod_beta cong: if_cong)
  from assms(2) [unfolded u] obtain ind m2 where r: "rsect (di_addrs (fst p) ! NDIRECT) (snd p) = Some (ind, m2)"
    by (auto elim!: bind_SomeE)
  show thesis
  proof (cases "rd32 ind (4 * (unat fbn - NDIRECT)) = 0")
    case True
    with assms(2) [unfolded u] r obtain m3 where
        "wsect (di_addrs (fst p) ! NDIRECT) (wr32 ind (4 * (unat fbn - NDIRECT)) (freeblock m2))
           (m2\<lparr>freeblock := freeblock m2 + 1\<rparr>) = Some m3" "m' = m3" "din' = fst p"
        "x = rd32 (wr32 ind (4 * (unat fbn - NDIRECT)) (freeblock m2)) (4 * (unat fbn - NDIRECT))"
      by (auto elim!: bind_SomeE)
    then show thesis using that [OF refl, of "snd p" ind m2] r True p_def by simp
  next
    case False
    with assms(2) [unfolded u] r have "m' = m2" "din' = fst p" "x = rd32 ind (4 * (unat fbn - NDIRECT))" by auto
    then show thesis using that [OF refl, of "snd p" ind m2] r False p_def by simp
  qed
qed

lemma iappend_block_fits:
  assumes "fits m" "wf_dinode din" "iappend_block fbn din m = Some (x, din', m')"
  shows "fits_new x m'" "wf_dinode din'"
proof -
  have len: "length (di_addrs din) = NDIRECT + 1" using assms(2) by (simp add: wf_dinode_def)
  show "fits_new x m'" "wf_dinode din'"
  proof (atomize (full), cases "unat fbn < NDIRECT")
    case True
    then show "fits_new x m' \<and> wf_dinode din'"
      using assms len fits_take [OF assms(1)]
      by (auto simp: iappend_block_def Let_def wf_dinode_def fits_newI split: if_splits)
  next
    case False
    from iappend_block_indirect [OF False assms(3)] obtain m1 ind m2 ind2 k
      where p: "(din', m1) = (if di_addrs din ! NDIRECT = 0
           then (din\<lparr>di_addrs := (di_addrs din)[NDIRECT := freeblock m]\<rparr>, m\<lparr>freeblock := freeblock m + 1\<rparr>)
           else (din, m))"
        and r: "rsect (di_addrs din' ! NDIRECT) m1 = Some (ind, m2)"
        and w: "rd32 ind k = 0 \<and> ind2 = wr32 ind k (freeblock m2)
           \<and> wsect (di_addrs din' ! NDIRECT) ind2 (m2\<lparr>freeblock := freeblock m2 + 1\<rparr>) = Some m'
         \<or> rd32 ind k \<noteq> 0 \<and> ind2 = ind \<and> m' = m2"
        and x: "x = rd32 ind2 k" by metis
    have d: "fits_new (di_addrs din' ! NDIRECT) m1" "wf_dinode din'"
      using p fits_take [OF assms(1)] fits_newI [OF assms(1)] len
      by (auto simp: wf_dinode_def split: if_splits)
    note R = fits_rw [OF d(1) r]
    from w have "fits_new x m'"
    proof (elim disjE conjE)
      assume "ind2 = wr32 ind k (freeblock m2)"
        and ww: "wsect (di_addrs din' ! NDIRECT) ind2 (m2\<lparr>freeblock := freeblock m2 + 1\<rparr>) = Some m'"
      then have "x = freeblock m2" using x by (simp add: rd32_wr32)
      with fits_take [OF R(1)] R(2) wsect_Some [OF ww] show ?thesis
        by (auto simp: fits_new_def fits_def)
    qed (use R x in \<open>simp add: fits_newI\<close>)
    then show "fits_new x m' \<and> wf_dinode din'" using d(2) by simp
  qed
qed

lemma iappend_loop_fits:
  "fits m \<Longrightarrow> wf_dinode din \<Longrightarrow> iappend_loop p off din m = Some (off', din', m') \<Longrightarrow> fits m' \<and> wf_dinode din'"
proof (induction p off din m rule: iappend_loop.induct)
  case (1 p off din m)
  show ?case
  proof (cases "p = []")
    case True
    then show ?thesis using 1 by (subst (asm) (2) iappend_loop.simps) simp
  next
    case False
    let ?fbn = "off div of_nat BSIZE"
    let ?n = "min (length p) (unat ((?fbn + 1) * of_nat BSIZE - off))"
    from 1(4) False obtain x din1 m1 buf m2 m3 where
        b: "\<not> \<not> unat ?fbn < MAXFILE" "iappend_block ?fbn din m = Some (x, din1, m1)" "rsect x m1 = Some (buf, m2)"
        "wsect x (put buf (unat (off - ?fbn * of_nat BSIZE)) (take ?n p)) m2 = Some m3"
      and r: "iappend_loop (drop ?n p) (off + of_nat ?n) din1 m3 = Some (off', din', m')"
      by (subst (asm) (1) iappend_loop.simps) (auto simp: Let_def split: if_splits elim!: bind_SomeE)
    note B = iappend_block_fits [OF 1(2,3) b(2)]
    note F = fits_rw [OF B(1) b(3)]
    show ?thesis
      by (rule 1(1) [OF False b(1) refl b(2) refl refl refl b(3) refl b(4) fits_wsect [OF F b(4)] B(2) r])
  qed
qed

lemma rinode_fits: "fits m \<Longrightarrow> rinode i m = Some (d, m') \<Longrightarrow> fits m' \<and> wf_dinode d"
  by (auto simp: rinode_def Let_def wf_rd dest!: rsect_Some elim!: bind_SomeE)

lemma winode_fits:
  assumes "fits m" "winode i d m = Some m'"
  shows "fits m'"
proof -
  from assms(2) obtain b m1 where r: "rsect (IBLOCK i mk_sb) m = Some (b, m1)"
      "wsect (IBLOCK i mk_sb) (wr_dinode b (unat (i mod IPB)) d) m1 = Some m'"
    by (auto simp: winode_def Let_def elim!: bind_SomeE)
  from fits_rw [OF fits_newI [OF assms(1)] r(1)] r(2) show ?thesis by (blast intro: fits_wsect)
qed

lemma iappend_fits:
  assumes "fits m" "iappend i p m = Some m'"
  shows "fits m'"
proof -
  from assms(2) obtain d m1 off d2 m2 where r: "rinode i m = Some (d, m1)"
      "iappend_loop p (di_size d) d m1 = Some (off, d2, m2)" "winode i (d2\<lparr>di_size := off\<rparr>) m2 = Some m'"
    by (auto simp: iappend_def Let_def elim!: bind_SomeE)
  from rinode_fits [OF assms(1) r(1)] iappend_loop_fits [OF _ _ r(2)] winode_fits [OF _ r(3)] show ?thesis by blast
qed

lemma ialloc_fits: "fits m \<Longrightarrow> ialloc t m = Some (i, m') \<Longrightarrow> fits m'"
  by (auto simp: ialloc_def Let_def elim!: bind_SomeE intro: winode_fits [rotated])

lemma iappend_all_fits: "fits m \<Longrightarrow> iappend_all i bs m = Some m' \<Longrightarrow> fits m'"
  by (induction bs arbitrary: m) (auto elim!: bind_SomeE dest: iappend_fits)

lemma mk_file_fits:
  assumes "fits m" "mk_file r f m = Some m'"
  shows "fits m'"
proof -
  from assms(2) obtain i m1 m2 nm where a: "ialloc (if hf_isdir f then T_DIR else T_FILE) m = Some (i, m1)"
      and b: "(if hf_isdir f then iappend_all i [dirent_bytes (mk_entry i [46]), dirent_bytes (mk_entry r [46, 46])] m1
        else iappend_all i (hf_reads f) m1) = Some m2"
      and c: "iappend r (dirent_bytes (mk_entry i nm)) m2 = Some m'"
    unfolding mk_file_def Let_def
    by (elim bind_SomeE) (clarsimp simp del: iappend_all.simps split del: if_split elim!: bind_SomeE)
  have "fits m2" using b ialloc_fits [OF assms(1) a] iappend_all_fits
    by (metis (full_types))
  then show ?thesis using c iappend_fits by blast
qed

lemma mk_files_fits: "fits m \<Longrightarrow> mk_files r fs m = Some m' \<Longrightarrow> fits m'"
  by (induction fs arbitrary: m) (auto elim!: bind_SomeE dest: mk_file_fits)

lemma clear_sects_run:
  "clear_sects i n m = Some m' \<Longrightarrow> i + n \<le> 2 ^ 22 \<Longrightarrow>
     mk_nsect m' = (if n = 0 then mk_nsect m else max (mk_nsect m) (i + n)) \<and> freeblock m' = freeblock m
     \<and> freeinode m' = freeinode m
     \<and> mk_sect m' = (\<lambda>j. if i \<le> j \<and> j < i + n then zero_block else mk_sect m j)"
proof (induction n arbitrary: i m)
  case (Suc n)
  from Suc.prems(1) obtain m1 where w: "wsect (of_nat i) zero_block m = Some m1"
      and r: "clear_sects (i + 1) n m1 = Some m'"
    by (auto elim: bind_SomeE)
  have "sect_no (of_nat i) = i" using Suc.prems(2) by (subst sect_small) (simp_all add: unat_of_nat32)
  then show ?case
    using Suc.IH [OF r] Suc.prems(2) wsect_Some [OF w] by (auto simp: fun_eq_iff)
qed (auto simp: fun_eq_iff)

lemma small_sint:
  assumes "unat (x :: u32) \<le> 2000"
  shows "sint x = int (unat x)"
proof -
  have e: "uint x = int (unat x)" by simp
  then have "uint x < 2147483648" using assms by linarith
  moreover have "- 2147483648 \<le> uint x" by (rule order_trans [OF _ unsigned_greater_eq]) simp
  ultimately have "signed_take_bit 31 (uint x) = uint x"
    by (intro signed_take_bit_int_eq_self) simp_all
  then show ?thesis by (simp add: sint_uint)
qed

lemma mk_main_bitmap:
  assumes "mk_main files io = Some m"
  shows "mk_nsect m = 2000 \<and> 46 \<le> unat (freeblock m) \<and> unat (freeblock m) \<le> 2000
    \<and> (\<forall>b. unat b < 8192 \<longrightarrow> (blk_bit (mk_sect m 45) b \<longleftrightarrow> unat b < unat (freeblock m)))"
proof -
  let ?m0 = "\<lparr>mk_sect = (\<lambda>_. zero_block), mk_nsect = 0, mk_io = io, mk_now = 0, freeinode = 1, freeblock = nmeta\<rparr>"
  from assms obtain m1 m2 r m3 m4 m5 d m6 m7 where
      1: "clear_sects 0 (unat FSSIZE) ?m0 = Some m1" "wsect 0 (wr_superblock zero_block mk_sb) m1 = Some m2"
      and 2: "ialloc T_DIR m2 = Some (r, m3)"
      and 3: "iappend_all r [dirent_bytes (mk_entry r [46]), dirent_bytes (mk_entry r [46, 46])] m3 = Some m4"
        "mk_files r files m4 = Some m5" "rinode r m5 = Some (d, m6)"
      and 4: "winode r (d\<lparr>di_size := (di_size d div of_nat BSIZE + 1) * of_nat BSIZE\<rparr>) m6 = Some m7"
        "balloc (freeblock m7) m7 = Some m"
    unfolding mk_main_def Let_def by (auto simp del: iappend_all.simps elim!: bind_SomeE)
  have "fits m1" using clear_sects_run [OF 1(1)] by (simp add: fits_def mk_vals)
  then have "fits m2" by (rule fits_wsect [OF _ _ 1(2)]) (simp add: sect_small)
  then have "fits m7"
    using 2 3 4 ialloc_fits iappend_all_fits mk_files_fits rinode_fits winode_fits by meson
  then have f: "46 \<le> unat (freeblock m7)" "unat (freeblock m7) \<le> 2000" "mk_nsect m7 = 2000"
    by (simp_all add: fits_def)
  have s: "nat (sint (freeblock m7)) = unat (freeblock m7)"
    using small_sint [OF f(2)] by simp
  have w: "wsect 45 (balloc_bits 0 (unat (freeblock m7)) zero_block) m7 = Some m"
    using 4(2) by (simp add: balloc_def mk_vals s split: if_splits)
  note W = wsect_Some [OF w]
  have "blk_bit (mk_sect m 45) b \<longleftrightarrow> unat b < unat (freeblock m7)" if "unat b < 8192" for b
    using that W by (simp add: sect_small blk_bit_byte balloc_bits_bit)
  then show ?thesis using W f by (simp add: sect_small)
qed

text \<open>
  C35. An image the builder finishes has 2000 sectors, whatever files went in: nothing was
  written behind the end. Its bitmap, read the way the kernel reads it, marks exactly the
  blocks below the first one not handed out, so the kernel's free blocks are the unused rest.
\<close>

theorem mk_main_image:
  assumes "mk_main files io = Some m"
  shows "mk_nsect m = 2000 \<and> 46 \<le> unat (freeblock m) \<and> unat (freeblock m) \<le> 2000
    \<and> (\<forall>b. unat b < 8192 \<longrightarrow> (blk_bit (mk_sect m 45) b \<longleftrightarrow> unat b < unat (freeblock m)))"
  by (rule mk_main_bitmap [OF assms])

lemma clear_sects_total: "mk_io m = (\<lambda>_. True) \<Longrightarrow> \<exists>m'. clear_sects i n m = Some m' \<and> mk_io m' = mk_io m"
proof (induction n arbitrary: i m)
  case (Suc n)
  obtain m1 where w: "wsect (of_nat i) zero_block m = Some m1" "mk_io m1 = mk_io m"
    using Suc.prems by (simp add: wsect_def)
  with Suc.IH [of m1 "i + 1"] Suc.prems show ?case by auto
qed simp

text \<open>Appending to the first block of a file whose inode lies in the first block of the table.\<close>

lemma append_first_runs:
  assumes io: "mk_io m = (\<lambda>_. True)" and n: "mk_nsect m = 2000" and i: "unat inum < 16"
    and d: "rd_dinode (mk_sect m 32) (unat inum) = din" "unat (di_size din) + length p \<le> 1024"
    and b: "di_addrs din ! 0 = b \<or> di_addrs din ! 0 = 0 \<and> freeblock m = b" "46 \<le> unat b" "unat b < 2000"
    and p: "p \<noteq> []"
  shows "\<exists>m'. iappend inum p m = Some m' \<and> mk_io m' = (\<lambda>_. True) \<and> mk_nsect m' = 2000 \<and> freeinode m' = freeinode m
    \<and> freeblock m' = (if di_addrs din ! 0 = 0 then freeblock m + 1 else freeblock m)
    \<and> (\<forall>k. rd_dinode (mk_sect m' 32) k = (if k = unat inum
         then din\<lparr>di_addrs := (di_addrs din)[0 := b], di_size := di_size din + of_nat (length p)\<rparr> else rd_dinode (mk_sect m 32) k))"
proof -
  let ?a = "di_addrs din ! 0" and ?d = "din\<lparr>di_addrs := (di_addrs din)[0 := b]\<rparr>" and ?m1 = "m\<lparr>mk_now := Suc (mk_now m)\<rparr>"
  have wf: "wf_dinode din" using d(1) by auto
  then have len: "length (di_addrs din) = 13" by (simp add: wf_dinode_def NDIRECT_def)
  have s: "sect_no 32 = 32" "sect_no b = unat b" using b(3) by (simp_all add: sect_small)
  have sz: "unat (di_size din) < 1024" using d(2) p by (cases p) simp_all
  have q: "di_size din div 1024 = 0" using sz by (simp add: word_eq_unat unat_div)
  have le: "di_size din \<le> 1024" using sz by (simp add: word_le_unat)
  have "unat (1024 - di_size din) = 1024 - unat (di_size din)" using unat_sub [OF le] by simp
  then have k: "min (length p) (unat (1024 - di_size din)) = length p" using d(2) by simp
  have blk: "iappend_block 0 din ?m1 = Some (b, ?d, if ?a = 0 then ?m1\<lparr>freeblock := freeblock m + 1\<rparr> else ?m1)"
  proof (cases "?a = 0")
    case False
    then have "?d = din" using b(1) list_update_id [of "di_addrs din" 0] by (cases din) simp
    then show ?thesis using False b(1) by (simp add: iappend_block_def Let_def NDIRECT_def)
  qed (use b len in \<open>auto simp: iappend_block_def Let_def NDIRECT_def\<close>)
  have ii: "inum div 16 = 0" "inum mod 16 = inum" using i by (simp_all add: word_eq_unat unat_div unat_mod)
  have IB: "IBLOCK inum mk_sb = 32" by (simp add: IBLOCK_def IPB_val mk_vals ii)
  have r: "rinode inum m = Some (din, ?m1)"
    using io n d(1) by (simp add: rinode_def rsect_def IB s IPB_val ii)
  obtain m2 where m2: "iappend_block 0 din ?m1 = Some (b, ?d, m2)" "mk_io m2 = (\<lambda>_. True)" "mk_nsect m2 = 2000"
      "mk_sect m2 = mk_sect m" "freeinode m2 = freeinode m" "freeblock m2 = (if ?a = 0 then freeblock m + 1 else freeblock m)"
    using blk io n by (cases "?a = 0") auto
  have b32: "unat b \<noteq> 32" using b(2) by simp
  obtain m3 where m3: "iappend_loop p (di_size din) din ?m1 = Some (di_size din + of_nat (length p), ?d, m3)"
      "mk_io m3 = (\<lambda>_. True)" "mk_nsect m3 = 2000" "mk_sect m3 32 = mk_sect m 32" "freeinode m3 = freeinode m"
      "freeblock m3 = (if ?a = 0 then freeblock m + 1 else freeblock m)"
    using m2 k q p b(3) b32
    by (simp add: iappend_loop.simps [of p "di_size din" din ?m1] iappend_loop.simps [of "[]"] Let_def BSIZE_def MAXFILE_val
        rsect_def wsect_def s)
  have "wf_dinode (?d\<lparr>di_size := di_size din + of_nat (length p)\<rparr>)" using wf by (simp add: wf_dinode_def)
  then show ?thesis
    using m3 by (simp add: iappend_def r winode_def IB IPB_val ii rsect_def wsect_def s rd_dinode_wr Let_def)
qed

text \<open>An image with one file.\<close>

definition one_file :: hostfile where
  "one_file = \<lparr>hf_name = user_prefix @ [95, 97], hf_opens = True, hf_isdir = False, hf_reads = [[1, 2, 3]]\<rparr>"

lemma mk_main_runs: "\<exists>m. mk_main [one_file] (\<lambda>_. True) = Some m"
proof -
  let ?m0 = "\<lparr>mk_sect = (\<lambda>_. zero_block), mk_nsect = 0, mk_io = (\<lambda>_. True), mk_now = 0, freeinode = 1, freeblock = nmeta\<rparr>"
  let ?ok = "\<lambda>m. mk_io m = (\<lambda>_. True) \<and> mk_nsect m = 2000"
  obtain m1 where m1: "clear_sects 0 (unat FSSIZE) ?m0 = Some m1" "mk_io m1 = (\<lambda>_. True)"
    using clear_sects_total [of ?m0 0 "unat FSSIZE"] by auto
  have c: "mk_nsect m1 = 2000" "freeblock m1 = 46" "freeinode m1 = 1" "mk_sect m1 32 = zero_block"
    using clear_sects_run [OF m1(1)] by (simp_all add: mk_vals)
  have s: "sect_no 0 = 0" "sect_no 32 = 32" "sect_no 45 = 45" by (simp_all add: sect_small)
  let ?z = "\<lambda>t. zero_dinode\<lparr>di_type := t, di_nlink := 1, di_size := 0\<rparr>"
  have w0: "wf_dinode (?z t)" for t by (simp add: wf_dinode_def zero_dinode_def)
  have IB: "IBLOCK 1 mk_sb = 32" "IBLOCK 2 mk_sb = 32" by (simp_all add: IBLOCK_def IPB_val mk_vals)
  obtain m2 where m2: "wsect 0 (wr_superblock zero_block mk_sb) m1 = Some m2" "?ok m2"
      "freeblock m2 = 46" "freeinode m2 = 1" "mk_sect m2 32 = zero_block"
    using c m1(2) by (simp add: wsect_def s)
  obtain m3 where m3: "ialloc T_DIR m2 = Some (1, m3)" "?ok m3" "freeblock m3 = 46" "freeinode m3 = 2"
      "rd_dinode (mk_sect m3 32) 1 = ?z T_DIR"
    using m2 w0 by (simp add: ialloc_def winode_def IB IPB_val rsect_def wsect_def s Let_def rd_dinode_wr)
  have dl: "length (dirent_bytes (mk_entry i nm)) = 16" "dirent_bytes (mk_entry i nm) \<noteq> []" for i nm
    by (simp_all add: dirent_bytes_def mk_entry_def DIRSIZ_def)
  have z: "di_addrs zero_dinode ! 0 = 0" "length (di_addrs zero_dinode) = 13" by (simp_all add: zero_dinode_def NDIRECT_def)
  note run = append_first_runs [where b = 46, OF _ _ _ refl _ _ _ _ dl(2)]
  obtain m4 where m4: "iappend 1 (dirent_bytes (mk_entry 1 [46])) m3 = Some m4" "?ok m4" "freeblock m4 = 47" "freeinode m4 = 2"
      "rd_dinode (mk_sect m4 32) 1 = (?z T_DIR)\<lparr>di_addrs := (di_addrs zero_dinode)[0 := 46], di_size := 16\<rparr>"
    using run [of m3 1 1 "[46]"] m3 z by (auto simp: dl)
  obtain m5 where m5: "iappend 1 (dirent_bytes (mk_entry 1 [46, 46])) m4 = Some m5" "?ok m5" "freeblock m5 = 47" "freeinode m5 = 2"
      "rd_dinode (mk_sect m5 32) 1 = (?z T_DIR)\<lparr>di_addrs := (di_addrs zero_dinode)[0 := 46], di_size := 32\<rparr>"
    using run [of m4 1 1 "[46, 46]"] m4 z by (auto simp: dl)
  obtain m6 where m6: "ialloc T_FILE m5 = Some (2, m6)" "?ok m6" "freeblock m6 = 47"
      "rd_dinode (mk_sect m6 32) 1 = (?z T_DIR)\<lparr>di_addrs := (di_addrs zero_dinode)[0 := 46], di_size := 32\<rparr>"
      "rd_dinode (mk_sect m6 32) 2 = ?z T_FILE"
    using m5 w0 [of T_FILE] by (simp add: ialloc_def winode_def IB IPB_val rsect_def wsect_def s Let_def rd_dinode_wr)
  obtain m7 where m7: "iappend 2 [1, 2, 3] m6 = Some m7" "?ok m7"
      "rd_dinode (mk_sect m7 32) 1 = (?z T_DIR)\<lparr>di_addrs := (di_addrs zero_dinode)[0 := 46], di_size := 32\<rparr>"
    using append_first_runs [of m6 2, OF _ _ _ refl, of "[1, 2, 3]" 47] m6 z by auto
  obtain m8 where m8: "iappend 1 (dirent_bytes (mk_entry 2 [97])) m7 = Some m8" "?ok m8"
    using run [of m7 1 2 "[97]"] m7 z by (auto simp: dl)
  obtain d m9 m10 where m10: "rinode 1 m8 = Some (d, m9)"
      "winode 1 (d\<lparr>di_size := (di_size d div of_nat BSIZE + 1) * of_nat BSIZE\<rparr>) m9 = Some m10" "?ok m10"
    using m8 by (simp add: rinode_def winode_def IB rsect_def wsect_def s Let_def)
  have "fits m3" using m3 by (simp add: fits_def)
  then have "fits m10"
    using m4(1) m5(1) m6(1) m7(1) m8(1) m10(1,2) iappend_fits ialloc_fits rinode_fits winode_fits by meson
  then have u: "unat (freeblock m10) \<le> 2000" by (simp add: fits_def)
  have "sint (freeblock m10) < sint BPB"
  proof -
    have "sint BPB = 8192" by (simp add: BPB_val)
    then show ?thesis using small_sint [OF u] u by linarith
  qed
  then obtain m where "balloc (freeblock m10) m10 = Some m" using m10(3) by (auto simp: balloc_def wsect_def)
  moreover have "mk_file 1 one_file m5 = Some m8"
    using m6(1) m7(1) m8(1) by (simp add: mk_file_def one_file_def user_prefix_def DIRSIZ_def)
  ultimately show ?thesis
    using m1(1) m2(1) m3(1) m4(1) m5(1) m10(1,2) by (simp add: mk_main_def Let_def ROOTINO_def)
qed

theorem mk_main_image_witness:
  "\<exists>m. mk_main [one_file] (\<lambda>_. True) = Some m \<and> blk_bit (mk_sect m 45) 45 \<and> \<not> blk_bit (mk_sect m 45) 2000"
proof -
  obtain m where m: "mk_main [one_file] (\<lambda>_. True) = Some m" using mk_main_runs ..
  from mk_main_image [OF m] m show ?thesis by (auto intro!: exI [of _ m])
qed

end
