(* ===== verification/Mkxv6_Mount.thy ===== *)
theory Mkxv6_Mount
  imports Mkxv6_Spec Super
begin

text \<open>
  The builder and the kernel together: the kernel mounts every image \<^verbatim>\<open>mkxv6\<close> finishes. For this the
  sectors of the image are given roles: an inode's direct blocks and the entries of an indirect
  block are data blocks, indirect blocks are never data blocks, and both lie behind the bitmap and
  below the first block not handed out. Appending therefore never writes into the super block or the table
  of inodes, however large the files are.
\<close>

section \<open>The roles of sectors\<close>

text \<open>\<open>I\<close> is the set of indirect blocks.\<close>

definition data_ref :: "u32 set \<Rightarrow> mkfs \<Rightarrow> u32 \<Rightarrow> bool" where
  "data_ref I m x \<longleftrightarrow> x = 0 \<or> 46 \<le> unat x \<and> unat x < unat (freeblock m) \<and> x \<notin> I"

definition din_typed :: "u32 set \<Rightarrow> mkfs \<Rightarrow> dinode \<Rightarrow> bool" where
  "din_typed I m d \<longleftrightarrow> wf_dinode d \<and> (\<forall>k<NDIRECT. data_ref I m (di_addrs d ! k))
     \<and> (di_addrs d ! NDIRECT = 0 \<or> di_addrs d ! NDIRECT \<in> I)"

definition typed :: "u32 set \<Rightarrow> mkfs \<Rightarrow> bool" where
  "typed I m \<longleftrightarrow> mk_sect m 0 = wr_superblock zero_block mk_sb
     \<and> (\<forall>j \<ge> unat (freeblock m). mk_sect m j = zero_block)
     \<and> (\<forall>x \<in> I. 46 \<le> unat x \<and> unat x < unat (freeblock m)
          \<and> (\<forall>k. data_ref I m (rd32 (mk_sect m (unat x)) (4 * k))))"

definition mk_inode :: "mkfs \<Rightarrow> nat \<Rightarrow> dinode" where
  "mk_inode m i = rd_dinode (mk_sect m (32 + i div 16)) (i mod 16)"

text \<open>What later states keep of the roles.\<close>

definition later :: "u32 set \<Rightarrow> mkfs \<Rightarrow> u32 set \<Rightarrow> mkfs \<Rightarrow> bool" where
  "later I m I' m' \<longleftrightarrow> I \<subseteq> I' \<and> unat (freeblock m) \<le> unat (freeblock m') \<and> (\<forall>x \<in> I' - I. unat (freeblock m) \<le> unat x)
     \<and> freeinode m' = freeinode m \<and> (\<forall>j<46. mk_sect m' j = mk_sect m j)"

lemma later_refl [simp]: "later I m I m"
  by (simp add: later_def)

lemma later_trans: "later I m J n \<Longrightarrow> later J n K p \<Longrightarrow> later I m K p"
  unfolding later_def by (metis Diff_iff order_trans subset_trans)

lemma data_ref_later: "later I m I' m' \<Longrightarrow> data_ref I m x \<Longrightarrow> data_ref I' m' x"
  unfolding later_def data_ref_def by (metis Diff_iff less_le_trans not_less)

lemma din_typed_later: "later I m I' m' \<Longrightarrow> din_typed I m d \<Longrightarrow> din_typed I' m' d"
  unfolding din_typed_def using data_ref_later by (metis later_def subsetD)

lemma later_mk_inode: "later I m I' m' \<Longrightarrow> i < 208 \<Longrightarrow> mk_inode m' i = mk_inode m i"
  by (auto simp: later_def mk_inode_def)

lemma tick_simps [simp]: "data_ref I (m\<lparr>mk_now := n\<rparr>) = data_ref I m" "din_typed I (m\<lparr>mk_now := n\<rparr>) = din_typed I m"
    "typed I (m\<lparr>mk_now := n\<rparr>) = typed I m" "later I (m\<lparr>mk_now := n\<rparr>) = later I m"
    "later I m I' (m'\<lparr>mk_now := n\<rparr>) = later I m I' m'" "mk_inode (m\<lparr>mk_now := n\<rparr>) = mk_inode m"
    "data_ref I (m\<lparr>mk_nsect := k\<rparr>) = data_ref I m" "din_typed I (m\<lparr>mk_nsect := k\<rparr>) = din_typed I m"
    "typed I (m\<lparr>mk_nsect := k\<rparr>) = typed I m" "later I m I' (m'\<lparr>mk_nsect := k\<rparr>) = later I m I' m'"
    "mk_inode (m\<lparr>mk_nsect := k\<rparr>) = mk_inode m"
  by (auto simp: data_ref_def din_typed_def typed_def later_def mk_inode_def fun_eq_iff)

section \<open>Handing out blocks\<close>

lemma fits_next: "fits m \<Longrightarrow> unat (freeblock m + 1) = Suc (unat (freeblock m))"
  unfolding fits_def by (subst unat_add_no_wrap) simp_all

lemma take_data:
  assumes "fits m" "typed I m"
  defines "m' \<equiv> m\<lparr>freeblock := freeblock m + 1\<rparr>"
  shows "later I m I m'" "typed I m'" "data_ref I m' (freeblock m)" "freeblock m \<noteq> 0"
proof -
  show l: "later I m I m'" using fits_next [OF assms(1)] by (simp add: later_def m'_def)
  show "typed I m'"
    using assms(2) fits_next [OF assms(1)] data_ref_later [OF l]
    unfolding typed_def by (auto simp: m'_def)
  show "data_ref I m' (freeblock m)"
    using assms(1,2) fits_next [OF assms(1)] by (auto simp: typed_def data_ref_def m'_def fits_def)
  show "freeblock m \<noteq> 0" using assms(1) by (auto simp: fits_def)
qed

lemma take_indirect:
  assumes "fits m" "typed I m"
  defines "m' \<equiv> m\<lparr>freeblock := freeblock m + 1\<rparr>" and "I' \<equiv> insert (freeblock m) I"
  shows "later I m I' m'" "typed I' m'"
proof -
  show l: "later I m I' m'" using fits_next [OF assms(1)] by (auto simp: later_def m'_def I'_def)
  have z: "mk_sect m (unat (freeblock m)) = zero_block" using assms(2) by (simp add: typed_def)
  have e: "data_ref I' m' (rd32 (mk_sect m (unat x)) (4 * k))" if "x \<in> I'" for x k
    using that assms(2) data_ref_later [OF l] z
    by (cases "x = freeblock m") (auto simp: I'_def typed_def data_ref_def [of _ _ 0])
  show "typed I' m'"
    using assms(1,2) fits_next [OF assms(1)] e
    unfolding typed_def by (auto simp: m'_def I'_def fits_def)
qed

text \<open>Storing into a data block, and an entry into an indirect block.\<close>

lemma store_data:
  fixes b :: block
  assumes "typed I m" "data_ref I m x" "x \<noteq> 0"
  defines "m' \<equiv> m\<lparr>mk_sect := (mk_sect m)(unat x := b)\<rparr>"
  shows "later I m I m'" "typed I m'"
proof -
  show l: "later I m I m'" using assms(2,3) by (auto simp: later_def m'_def data_ref_def)
  have "unat y \<noteq> unat x" if "y \<in> I" for y
    using that assms(2,3) by (metis data_ref_def word_eq_unat)
  then show "typed I m'"
    using assms(1-3) unfolding typed_def by (auto simp: m'_def data_ref_def)
qed

lemma store_entry:
  fixes k :: nat
  assumes "typed I m" "a \<in> I" "data_ref I m v"
  defines "m' \<equiv> m\<lparr>mk_sect := (mk_sect m)(unat a := wr32 (mk_sect m (unat a)) (4 * k) v)\<rparr>"
  shows "later I m I m'" "typed I m'"
proof -
  have a: "46 \<le> unat a" "unat a < unat (freeblock m)" using assms(1,2) by (auto simp: typed_def)
  then show l: "later I m I m'" by (auto simp: later_def m'_def)
  have "data_ref I m' (rd32 (mk_sect m' (unat y)) (4 * j))" if "y \<in> I" for y j
    using that assms(1,3) by (intro data_ref_later [OF l]) (auto simp: typed_def m'_def rd32_wr32_slot)
  then show "typed I m'"
    using assms(1) a unfolding typed_def by (auto simp: m'_def)
qed

section \<open>Appending\<close>

lemma fits_data_ref: "fits m \<Longrightarrow> data_ref I m x \<Longrightarrow> sect_no x = unat x"
  by (rule sect_small) (auto simp: data_ref_def fits_def)

lemma din_typed_upd:
  "din_typed I m d \<Longrightarrow> k < NDIRECT \<Longrightarrow> data_ref I m x \<Longrightarrow> din_typed I m (d\<lparr>di_addrs := (di_addrs d)[k := x]\<rparr>)"
  "din_typed I m d \<Longrightarrow> x \<in> I \<Longrightarrow> din_typed I m (d\<lparr>di_addrs := (di_addrs d)[NDIRECT := x]\<rparr>)"
  by (auto simp: din_typed_def wf_dinode_def nth_list_update)

lemma append_block_typed:
  assumes f: "fits m" and t: "typed I m" and d: "din_typed I m din" and b: "iappend_block fbn din m = Some (x, din', m')"
  obtains J where "later I m J m'" "typed J m'" "din_typed J m' din'" "data_ref J m' x" "x \<noteq> 0"
    "din' = din\<lparr>di_addrs := di_addrs din'\<rparr>"
proof (cases "unat fbn < NDIRECT")
  case True
  have dr: "data_ref I m (di_addrs din ! unat fbn)" using d True by (simp add: din_typed_def)
  show thesis
  proof (cases "di_addrs din ! unat fbn = 0")
    case z: True
    have len: "unat fbn < length (di_addrs din)" using d True by (simp add: din_typed_def wf_dinode_def)
    note T = take_data [OF f t]
    show thesis
      by (rule that [of I]) (use b True z len T din_typed_upd(1) [OF din_typed_later [OF T(1) d] True T(3)] in
        \<open>auto simp: iappend_block_def Let_def\<close>)
  next
    case False
    then show thesis
      by (intro that [of I]) (use b True t d dr in \<open>auto simp: iappend_block_def Let_def\<close>)
  qed
next
  case False
  from iappend_block_indirect [OF False b] obtain m1 ind m2 ind2 k
    where k: "k = 4 * (unat fbn - NDIRECT)"
      and p: "(din', m1) = (if di_addrs din ! NDIRECT = 0
         then (din\<lparr>di_addrs := (di_addrs din)[NDIRECT := freeblock m]\<rparr>, m\<lparr>freeblock := freeblock m + 1\<rparr>)
         else (din, m))"
      and r: "rsect (di_addrs din' ! NDIRECT) m1 = Some (ind, m2)"
      and w: "rd32 ind k = 0 \<and> ind2 = wr32 ind k (freeblock m2)
         \<and> wsect (di_addrs din' ! NDIRECT) ind2 (m2\<lparr>freeblock := freeblock m2 + 1\<rparr>) = Some m'
       \<or> rd32 ind k \<noteq> 0 \<and> ind2 = ind \<and> m' = m2"
      and x: "x = rd32 ind2 k" by metis
  let ?a = "di_addrs din' ! NDIRECT"
  define J where "J = (if di_addrs din ! NDIRECT = 0 then insert (freeblock m) I else I)"
  have len: "NDIRECT < length (di_addrs din)" using d by (simp add: din_typed_def wf_dinode_def)
  have 1: "later I m J m1" "typed J m1"
    using p t take_indirect [OF f t] by (auto simp: J_def split: if_splits)
  have d1: "din_typed J m1 din'" "?a \<in> J" "din' = din\<lparr>di_addrs := di_addrs din'\<rparr>"
    using p d len din_typed_upd(2) [OF din_typed_later [OF 1(1) d], of "freeblock m"]
    by (auto simp: J_def din_typed_def split: if_splits)
  have n1: "fits_new ?a m1"
    using p len fits_take [OF f] fits_newI [OF f] by (auto split: if_splits)
  have f2: "fits m2" using fits_rw [OF n1 r] by simp
  have m2: "m2 = m1\<lparr>mk_now := Suc (mk_now m1)\<rparr>" "ind = mk_sect m1 (sect_no ?a)" using rsect_Some [OF r] by simp_all
  have "unat ?a < 2 ^ 22" using 1(2) d1(2) f2 by (auto simp: typed_def m2 fits_def)
  then have a: "sect_no ?a = unat ?a" by (rule sect_small)
  have t2: "typed J m2" "din_typed J m2 din'" "later I m J m2" using 1 d1 by (simp_all add: m2)
  from w show thesis
  proof (elim disjE conjE)
    assume i2: "ind2 = wr32 ind k (freeblock m2)"
      and ww: "wsect ?a ind2 (m2\<lparr>freeblock := freeblock m2 + 1\<rparr>) = Some m'"
    let ?m3 = "m2\<lparr>freeblock := freeblock m2 + 1\<rparr>"
    note T = take_data [OF f2 t2(1)]
    have ind: "ind2 = wr32 (mk_sect ?m3 (unat ?a)) (4 * (unat fbn - NDIRECT)) (freeblock m2)"
      by (simp add: i2 m2 a k)
    note S = store_entry [OF T(2) d1(2) T(3), of "unat fbn - NDIRECT"]
    define q where "q = ?m3\<lparr>mk_sect := (mk_sect ?m3)(unat ?a := ind2)\<rparr>"
    have m': "m' = q\<lparr>mk_now := Suc (mk_now q), mk_nsect := mk_nsect m'\<rparr>"
      using wsect_Some [OF ww] by (simp add: a q_def)
    have Q: "later J ?m3 J q" "typed J q" using S by (simp_all add: q_def ind)
    have L: "later J m2 J q" by (rule later_trans [OF T(1) Q(1)])
    have x0: "x \<noteq> 0" "data_ref J q x"
      using data_ref_later [OF Q(1) T(3)] T(4) by (simp_all add: x i2 rd32_wr32)
    have "later I m J m'" "typed J m'" "din_typed J m' din'" "data_ref J m' x"
      using later_trans [OF t2(3) L] Q(2) din_typed_later [OF L t2(2)] x0(2)
      by (subst m', simp)+
    then show thesis using x0(1) d1(3) by (rule that)
  next
    assume nz: "rd32 ind k \<noteq> 0" "ind2 = ind" "m' = m2"
    have "data_ref J m2 x"
      using t2(1) d1(2) by (simp add: x nz(2) m2 a k typed_def)
    then show thesis using that [of J] t2 nz x d1(3) by simp
  qed
qed

lemma append_loop_typed:
  "fits m \<Longrightarrow> typed I m \<Longrightarrow> din_typed I m din \<Longrightarrow> iappend_loop p off din m = Some (off', din', m') \<Longrightarrow>
     \<exists>J. later I m J m' \<and> typed J m' \<and> din_typed J m' din' \<and> fits m' \<and> di_type din' = di_type din
       \<and> off' = off + of_nat (length p)"
proof (induction p off din m arbitrary: I rule: iappend_loop.induct)
  case (1 p off din m)
  show ?case
  proof (cases "p = []")
    case True
    then show ?thesis using 1(2-) by (subst (asm) (1) iappend_loop.simps) (auto intro: exI [of _ I])
  next
    case False
    let ?fbn = "off div of_nat BSIZE"
    let ?n = "min (length p) (unat ((?fbn + 1) * of_nat BSIZE - off))"
    from 1(5) False obtain x din1 m1 buf m2 m3 where
        b: "\<not> \<not> unat ?fbn < MAXFILE" "iappend_block ?fbn din m = Some (x, din1, m1)" "rsect x m1 = Some (buf, m2)"
        "wsect x (put buf (unat (off - ?fbn * of_nat BSIZE)) (take ?n p)) m2 = Some m3"
      and r: "iappend_loop (drop ?n p) (off + of_nat ?n) din1 m3 = Some (off', din', m')"
      by (subst (asm) (1) iappend_loop.simps) (auto simp: Let_def split: if_splits elim!: bind_SomeE)
    have wf: "wf_dinode din" using 1(4) by (simp add: din_typed_def)
    note F = fits_rw [OF iappend_block_fits(1) [OF 1(2) wf b(2)] b(3)]
    from append_block_typed [OF 1(2-4) b(2)] obtain J where J: "later I m J m1" "typed J m1" "din_typed J m1 din1"
        "data_ref J m1 x" "x \<noteq> 0" "din1 = din\<lparr>di_addrs := di_addrs din1\<rparr>" by blast
    have J2: "later I m J m2" "typed J m2" "din_typed J m2 din1" "data_ref J m2 x"
      using J rsect_Some [OF b(3)] by simp_all
    define q where "q = m2\<lparr>mk_sect := (mk_sect m2)(unat x := put buf (unat (off - ?fbn * of_nat BSIZE)) (take ?n p))\<rparr>"
    have m3: "m3 = q\<lparr>mk_now := Suc (mk_now m2), mk_nsect := max (mk_nsect m2) (Suc (sect_no x))\<rparr>"
      using wsect_Some [OF b(4)] fits_data_ref [OF F(1) J2(4)] by (simp add: q_def)
    have S: "later J m2 J q" "typed J q" using store_data [OF J2(2,4) J(5)] by (simp_all add: q_def)
    have Q: "later I m J m3" "typed J m3" "din_typed J m3 din1"
      using later_trans [OF J2(1) S(1)] S(2) din_typed_later [OF S(1) J2(3)] by (simp_all add: m3)
    from 1(1) [OF False b(1) refl b(2) refl refl refl b(3) refl b(4) fits_wsect [OF F b(4)] Q(2,3) r]
    obtain K where K: "later J m3 K m'" "typed K m'" "din_typed K m' din'" "fits m'" "di_type din' = di_type din1"
        "off' = off + of_nat ?n + of_nat (length (drop ?n p))" by blast
    have "off' = off + of_nat (length p)"
      unfolding K(6) length_drop add.assoc of_nat_add [symmetric] by simp
    moreover have "di_type din1 = di_type din" using arg_cong [OF J(6), of di_type] by simp
    ultimately show ?thesis using K later_trans [OF Q(1) K(1)] by (intro exI [of _ K]) simp
  qed
qed

section \<open>The table of inodes\<close>

definition img_typed :: "mkfs \<Rightarrow> bool" where
  "img_typed m \<longleftrightarrow> fits m \<and> (\<exists>I. typed I m \<and> (\<forall>i<208. din_typed I m (mk_inode m i)))"

lemma iblock_low:
  assumes "unat inum < 208"
  shows "sect_no (IBLOCK inum mk_sb) = 32 + unat inum div 16" "unat (inum mod IPB) = unat inum mod 16"
proof -
  have "unat (IBLOCK inum mk_sb) = 32 + unat inum div 16"
    using assms by (simp add: IBLOCK_def IPB_val mk_vals unat_word_ariths unat_div)
  then show "sect_no (IBLOCK inum mk_sb) = 32 + unat inum div 16" using assms by (subst sect_small) simp_all
  show "unat (inum mod IPB) = unat inum mod 16" by (simp add: IPB_val unat_mod)
qed

lemma winode_typed:
  assumes "fits m" "typed I m" "\<forall>i<208. din_typed I m (mk_inode m i)" "din_typed I m d"
    "unat inum < 208" "winode inum d m = Some m'"
  shows "img_typed m'" "freeinode m' = freeinode m"
    "i < 208 \<Longrightarrow> mk_inode m' i = (if i = unat inum then d else mk_inode m i)"
proof -
  let ?q = "32 + unat inum div 16" and ?k = "unat inum mod 16"
  note B = iblock_low [OF assms(5)]
  from assms(6) obtain b m1 where r: "rsect (IBLOCK inum mk_sb) m = Some (b, m1)"
      "wsect (IBLOCK inum mk_sb) (wr_dinode b ?k d) m1 = Some m'"
    by (auto simp: winode_def Let_def B elim!: bind_SomeE)
  define q where "q = m\<lparr>mk_sect := (mk_sect m)(?q := wr_dinode (mk_sect m ?q) ?k d)\<rparr>"
  have m': "m' = q\<lparr>mk_now := mk_now m', mk_nsect := mk_nsect m'\<rparr>"
    using rsect_Some [OF r(1)] wsect_Some [OF r(2)] by (simp add: q_def B)
  have sf: "freeblock q = freeblock m" "mk_sect q j = (if j = ?q then wr_dinode (mk_sect m ?q) ?k d else mk_sect m j)" for j
    by (simp_all add: q_def)
  have dr: "data_ref I q = data_ref I m" "din_typed I q = din_typed I m"
    by (simp_all add: data_ref_def din_typed_def sf fun_eq_iff)
  have low: "?q < 46" using assms(5) by simp
  have wf: "wf_dinode d" using assms(4) by (simp add: din_typed_def)
  have e: "i div 16 = unat inum div 16 \<and> i mod 16 = ?k \<longleftrightarrow> i = unat inum" for i :: nat
    using div_mod_eq_nat by blast
  have ino: "mk_inode q i = (if i = unat inum then d else mk_inode m i)" if "i < 208" for i
    using e [of i] wf by (auto simp: mk_inode_def sf rd_dinode_wr)
  have t: "typed I q"
    using assms(1,2) low unfolding typed_def dr by (auto simp: sf fits_def)
  have "fits m'" by (rule winode_fits [OF assms(1,6)])
  moreover have "typed I m'" "\<forall>i<208. din_typed I m' (mk_inode m' i)"
    using t ino assms(3,4) by (subst m', simp add: dr)+
  ultimately show "img_typed m'" by (auto simp: img_typed_def)
  show "freeinode m' = freeinode m" by (subst m') (simp add: q_def)
  show "mk_inode m' i = (if i = unat inum then d else mk_inode m i)" if "i < 208"
    using ino [OF that] by (subst m') simp
qed

lemma rinode_low:
  assumes "unat inum < 208" "rinode inum m = Some (d, m')"
  shows "d = mk_inode m (unat inum)" "m' = m\<lparr>mk_now := mk_now m'\<rparr>"
  using assms(2) iblock_low [OF assms(1)]
  by (auto simp: rinode_def Let_def mk_inode_def dest!: rsect_Some elim!: bind_SomeE)

lemma iappend_typed:
  assumes "img_typed m" "unat inum < 208" "iappend inum p m = Some m'"
  obtains d where "img_typed m'" "freeinode m' = freeinode m"
    "di_type d = di_type (mk_inode m (unat inum))" "di_size d = di_size (mk_inode m (unat inum)) + of_nat (length p)"
    "\<forall>i<208. mk_inode m' i = (if i = unat inum then d else mk_inode m i)"
proof -
  from assms(3) obtain d m1 off d2 m2 where r: "rinode inum m = Some (d, m1)"
      "iappend_loop p (di_size d) d m1 = Some (off, d2, m2)" "winode inum (d2\<lparr>di_size := off\<rparr>) m2 = Some m'"
    by (auto simp: iappend_def Let_def elim!: bind_SomeE)
  note R = rinode_low [OF assms(2) r(1)]
  from assms(1) obtain I where I: "fits m" "typed I m" "\<forall>i<208. din_typed I m (mk_inode m i)"
    by (auto simp: img_typed_def)
  have 1: "fits m1" "typed I m1" "din_typed I m1 d" "later I m1 I' m2 = later I m I' m2" for I'
    using I assms(2) by (subst R(2), simp add: R(1))+
  from append_loop_typed [OF 1(1-3) r(2)] obtain J where J: "later I m1 J m2" "typed J m2" "din_typed J m2 d2"
      "fits m2" "di_type d2 = di_type d" "off = di_size d + of_nat (length p)" by blast
  have l: "later I m J m2" using J(1) 1(4) by simp
  have ino: "mk_inode m2 i = mk_inode m i" if "i < 208" for i by (rule later_mk_inode [OF l that])
  have all: "\<forall>i<208. din_typed J m2 (mk_inode m2 i)" using ino I(3) din_typed_later [OF l] by simp
  have d: "din_typed J m2 (d2\<lparr>di_size := off\<rparr>)" using J(3) by (simp add: din_typed_def wf_dinode_def)
  note W = winode_typed [OF J(4,2) all d assms(2) r(3)]
  show thesis
    by (rule that [of "d2\<lparr>di_size := off\<rparr>"])
      (use W ino l J(5,6) R(1) in \<open>simp_all add: later_def\<close>)
qed

lemma ialloc_typed:
  assumes "img_typed m" "unat (freeinode m) < 208" "ialloc ty m = Some (inum, m')"
  shows "inum = freeinode m" "img_typed m'" "freeinode m' = freeinode m + 1"
    "i < 208 \<Longrightarrow> mk_inode m' i = (if i = unat inum then zero_dinode\<lparr>di_type := ty, di_nlink := 1\<rparr> else mk_inode m i)"
proof -
  let ?m = "m\<lparr>freeinode := freeinode m + 1\<rparr>" and ?d = "zero_dinode\<lparr>di_type := ty, di_nlink := 1, di_size := 0\<rparr>"
  show inum: "inum = freeinode m" using assms(3) by (auto simp: ialloc_def Let_def elim!: bind_SomeE)
  have w: "winode inum ?d ?m = Some m'" using assms(3) by (auto simp: ialloc_def Let_def elim!: bind_SomeE)
  from assms(1) obtain I where I: "fits m" "typed I m" "\<forall>i<208. din_typed I m (mk_inode m i)"
    by (auto simp: img_typed_def)
  have eq: "typed I ?m = typed I m" "data_ref I ?m = data_ref I m" "din_typed I ?m = din_typed I m" "mk_inode ?m = mk_inode m"
    by (auto simp: typed_def data_ref_def din_typed_def mk_inode_def fun_eq_iff)
  have z: "din_typed I ?m ?d" by (simp add: din_typed_def data_ref_def zero_dinode_def wf_dinode_def del: replicate_Suc)
  have low: "unat inum < 208" using assms(2) inum by simp
  have d: "?d = zero_dinode\<lparr>di_type := ty, di_nlink := 1\<rparr>" by (simp add: zero_dinode_def)
  note W = winode_typed [OF _ _ _ z low w, unfolded eq d, simplified, OF I]
  show "img_typed m'" "freeinode m' = freeinode m + 1" using W(1,2) by simp_all
  show "i < 208 \<Longrightarrow> mk_inode m' i = (if i = unat inum then zero_dinode\<lparr>di_type := ty, di_nlink := 1\<rparr> else mk_inode m i)"
    using W(3) by simp
qed

lemma iappend_all_typed:
  "img_typed m \<Longrightarrow> unat inum < 208 \<Longrightarrow> iappend_all inum bs m = Some m' \<Longrightarrow>
     \<exists>d. img_typed m' \<and> freeinode m' = freeinode m \<and> di_type d = di_type (mk_inode m (unat inum))
       \<and> di_size d = di_size (mk_inode m (unat inum)) + of_nat (length (concat bs))
       \<and> (\<forall>i<208. mk_inode m' i = (if i = unat inum then d else mk_inode m i))"
proof (induction bs arbitrary: m)
  case Nil
  then show ?case by (intro exI [of _ "mk_inode m (unat inum)"]) simp
next
  case (Cons b bs)
  from Cons.prems(3) obtain m1 where r: "iappend inum b m = Some m1" "iappend_all inum bs m1 = Some m'"
    by (auto elim: bind_SomeE)
  from iappend_typed [OF Cons.prems(1,2) r(1)] obtain d where d: "img_typed m1" "freeinode m1 = freeinode m"
      "di_type d = di_type (mk_inode m (unat inum))" "di_size d = di_size (mk_inode m (unat inum)) + of_nat (length b)"
      "\<forall>i<208. mk_inode m1 i = (if i = unat inum then d else mk_inode m i)" by blast
  from Cons.IH [OF d(1) Cons.prems(2) r(2)] d(2-5) Cons.prems(2) show ?case by (auto simp: add.assoc)
qed

section \<open>The finished image\<close>

text \<open>The table after the arguments \<open>fs\<close>: the root directory has an entry for each and two for itself.\<close>

definition made :: "hostfile \<Rightarrow> dinode \<Rightarrow> bool" where
  "made f d \<longleftrightarrow> di_type d = (if hf_isdir f then T_DIR else T_FILE)
     \<and> di_size d = (if hf_isdir f then 32 else of_nat (length (concat (hf_reads f))))"

definition files_made :: "hostfile list \<Rightarrow> mkfs \<Rightarrow> bool" where
  "files_made fs m \<longleftrightarrow> img_typed m \<and> freeinode m = of_nat (length fs + 2) \<and> mk_inode m 0 = zero_dinode
     \<and> di_type (mk_inode m 1) = T_DIR \<and> di_size (mk_inode m 1) = of_nat (16 * (length fs + 2))
     \<and> (\<forall>k<length fs. made (fs ! k) (mk_inode m (k + 2)))
     \<and> (\<forall>i<208. length fs + 2 \<le> i \<longrightarrow> mk_inode m i = zero_dinode)"

lemma length_dirent_bytes [simp]: "length (dirent_bytes (mk_entry i nm)) = 16"
  by (simp add: dirent_bytes_def mk_entry_def DIRSIZ_def)

lemma mk_file_made:
  assumes "files_made fs m" "length fs < 206" "mk_file 1 f m = Some m'"
  shows "files_made (fs @ [f]) m'"
proof -
  let ?n = "length fs + 2" and ?ty = "if hf_isdir f then T_DIR else T_FILE"
    and ?bs = "\<lambda>i. if hf_isdir f then [dirent_bytes (mk_entry i [46]), dirent_bytes (mk_entry 1 [46, 46])] else hf_reads f"
  note A = assms(1) [unfolded files_made_def]
  from assms(3) obtain inum m1 m2 nm where a: "ialloc ?ty m = Some (inum, m1)"
      and b: "(if hf_isdir f then iappend_all inum [dirent_bytes (mk_entry inum [46]), dirent_bytes (mk_entry 1 [46, 46])] m1
        else iappend_all inum (hf_reads f) m1) = Some m2"
      and c: "iappend 1 (dirent_bytes (mk_entry inum nm)) m2 = Some m'"
    unfolding mk_file_def Let_def
    by (elim bind_SomeE) (clarsimp simp del: iappend_all.simps split del: if_split elim!: bind_SomeE)
  have r: "ialloc ?ty m = Some (inum, m1)" "iappend_all inum (?bs inum) m1 = Some m2"
      "iappend 1 (dirent_bytes (mk_entry inum nm)) m2 = Some m'"
    using a b c by (cases "hf_isdir f"; simp)+
  have n: "unat (freeinode m) = ?n"
  proof -
    have "freeinode m = of_nat ?n" using A by blast
    then show ?thesis using assms(2) by (simp only:) (rule unat_of_nat32, simp)
  qed
  note I = ialloc_typed [OF _ _ r(1)]
  have i: "inum = freeinode m" "unat inum = ?n" "img_typed m1" "freeinode m1 = freeinode m + 1"
      "\<And>i. i < 208 \<Longrightarrow> mk_inode m1 i = (if i = ?n then zero_dinode\<lparr>di_type := ?ty, di_nlink := 1\<rparr> else mk_inode m i)"
    using I A n assms(2) by simp_all
  from iappend_all_typed [OF i(3) _ r(2)] i(2,5) assms(2) obtain d where d: "img_typed m2" "freeinode m2 = freeinode m1"
      "di_type d = ?ty" "di_size d = of_nat (length (concat (?bs inum)))"
      "\<forall>i<208. mk_inode m2 i = (if i = ?n then d else mk_inode m1 i)"
    by (auto simp: zero_dinode_def)
  have u1: "unat (1 :: u32) < 208" by simp
  from iappend_typed [OF d(1) u1 r(3)] obtain e where e: "img_typed m'" "freeinode m' = freeinode m2"
      "di_type e = di_type (mk_inode m2 1)" "di_size e = di_size (mk_inode m2 1) + 16"
      "\<forall>i<208. mk_inode m' i = (if i = 1 then e else mk_inode m2 i)" by auto
  have k: "made (fs ! k) (mk_inode m' (k + 2))" if "k < length fs" for k
    using that assms(2) e(5) d(5) i(5) A by simp
  have "made f (mk_inode m' ?n)"
    using assms(2) e(5) d(3-5) by (simp add: made_def)
  then have "\<forall>k<length (fs @ [f]). made ((fs @ [f]) ! k) (mk_inode m' (k + 2))"
    using k by (auto simp: nth_append less_Suc_eq)
  then show ?thesis
    using e d i A assms(2) by (simp add: files_made_def)
qed

lemma mk_files_made:
  "files_made fs m \<Longrightarrow> length fs + length gs \<le> 206 \<Longrightarrow> mk_files 1 gs m = Some m' \<Longrightarrow> files_made (fs @ gs) m'"
proof (induction gs arbitrary: fs m)
  case (Cons g gs)
  from Cons.prems(3) obtain m1 where r: "mk_file 1 g m = Some m1" "mk_files 1 gs m1 = Some m'"
    by (auto elim: bind_SomeE)
  have "files_made (fs @ [g]) m1" by (rule mk_file_made [OF Cons.prems(1) _ r(1)]) (use Cons.prems(2) in simp)
  from Cons.IH [OF this _ r(2)] Cons.prems(2) show ?case by simp
qed simp

definition root_size :: "hostfile list \<Rightarrow> nat" where
  "root_size files = (16 * (length files + 2) div 1024 + 1) * 1024"

lemma empty_image:
  assumes "mk_sect m = (\<lambda>_. zero_block)(0 := wr_superblock zero_block mk_sb)" "mk_nsect m = 2000" "freeblock m = 46"
  shows "img_typed m" "i < 208 \<Longrightarrow> mk_inode m i = zero_dinode"
proof -
  show z: "mk_inode m i = zero_dinode" for i by (simp add: mk_inode_def assms(1))
  have "din_typed {} m zero_dinode"
    by (simp add: din_typed_def data_ref_def zero_dinode_def wf_dinode_def del: replicate_Suc)
  then show "img_typed m"
    using assms z by (auto simp: img_typed_def fits_def typed_def intro!: exI [of _ "{}"])
qed

lemma mk_main_made:
  assumes "mk_main files io = Some m" "length files \<le> 206"
  shows "mk_sect m 0 = wr_superblock zero_block mk_sb" "mk_inode m 0 = zero_dinode" "di_type (mk_inode m 1) = T_DIR"
    "di_size (mk_inode m 1) = of_nat (root_size files)" "\<forall>k<length files. made (files ! k) (mk_inode m (k + 2))"
    "\<forall>i<208. length files + 2 \<le> i \<longrightarrow> mk_inode m i = zero_dinode"
proof -
  let ?m0 = "\<lparr>mk_sect = (\<lambda>_. zero_block), mk_nsect = 0, mk_io = io, mk_now = 0, freeinode = 1, freeblock = nmeta\<rparr>"
  from assms(1) obtain m1 m2 r m3 m4 m5 d m6 m7 where
      1: "clear_sects 0 (unat FSSIZE) ?m0 = Some m1" "wsect 0 (wr_superblock zero_block mk_sb) m1 = Some m2"
      and 2: "ialloc T_DIR m2 = Some (r, m3)"
      and 3: "iappend_all r [dirent_bytes (mk_entry r [46]), dirent_bytes (mk_entry r [46, 46])] m3 = Some m4"
        "mk_files r files m4 = Some m5" "rinode r m5 = Some (d, m6)"
      and 4: "winode r (d\<lparr>di_size := (di_size d div of_nat BSIZE + 1) * of_nat BSIZE\<rparr>) m6 = Some m7"
        "balloc (freeblock m7) m7 = Some m"
    unfolding mk_main_def Let_def by (auto simp del: iappend_all.simps elim!: bind_SomeE)
  have m2: "mk_sect m2 = (\<lambda>_. zero_block)(0 := wr_superblock zero_block mk_sb)" "mk_nsect m2 = 2000" "freeblock m2 = 46"
      "freeinode m2 = 1"
    using clear_sects_run [OF 1(1)] wsect_Some [OF 1(2)] by (auto simp: mk_vals sect_small fun_eq_iff)
  note E = empty_image [OF m2(1-3)]
  have low: "unat (freeinode m2) < 208" "unat (1 :: u32) < 208" by (simp_all add: m2)
  note A = ialloc_typed [OF E(1) low(1) 2]
  have r: "r = 1" using A(1) m2(4) by simp
  from iappend_all_typed [OF A(2) low(2) 3(1) [unfolded r]] obtain d4 where d4: "img_typed m4" "freeinode m4 = 2"
      "di_type d4 = T_DIR" "di_size d4 = 32" "\<forall>i<208. mk_inode m4 i = (if i = 1 then d4 else mk_inode m3 i)"
    using A(3,4) m2(4) r by (auto simp: zero_dinode_def)
  have "files_made [] m4"
    using d4 A(4) r E(2) by (simp add: files_made_def)
  from mk_files_made [OF this _ 3(2) [unfolded r]] assms(2) have M: "files_made files m5" by simp
  note M' = M [unfolded files_made_def]
  note R = rinode_low [OF low(2) 3(3) [unfolded r]]
  from M' obtain I where I: "fits m5" "typed I m5" "\<forall>i<208. din_typed I m5 (mk_inode m5 i)" by (auto simp: img_typed_def)
  let ?d = "d\<lparr>di_size := (di_size d div of_nat BSIZE + 1) * of_nat BSIZE\<rparr>"
  have 6: "fits m6" "typed I m6" "\<forall>i<208. din_typed I m6 (mk_inode m6 i)" "mk_inode m6 = mk_inode m5"
    using I by (subst R(2), simp)+
  have d: "din_typed I m6 ?d" using 6(3,4) R(1) by (auto simp: din_typed_def wf_dinode_def)
  note W = winode_typed [OF 6(1-3) d low(2) 4(1) [unfolded r]]
  from W(1) have t7: "mk_sect m7 0 = wr_superblock zero_block mk_sb" by (auto simp: img_typed_def typed_def)
  from 4(2) have w: "\<exists>b. wsect 45 b m7 = Some m" by (auto simp: balloc_def mk_vals split: if_splits)
  then have s: "mk_sect m j = mk_sect m7 j" if "j \<noteq> 45" for j
    using that by (auto dest!: wsect_Some simp: sect_small)
  have ino: "mk_inode m i = (if i = 1 then ?d else mk_inode m5 i)" if "i < 208" for i
  proof -
    have "mk_inode m i = mk_inode m7 i" using that s [of "32 + i div 16"] by (simp add: mk_inode_def)
    then show ?thesis using W(3) [OF that] 6(4) by simp
  qed
  show "mk_sect m 0 = wr_superblock zero_block mk_sb" using s [of 0] t7 by simp
  show "mk_inode m 0 = zero_dinode" using ino [of 0] M' by simp
  show "di_type (mk_inode m 1) = T_DIR" using ino [of 1] M' R(1) by simp
  have sz: "unat (of_nat (16 * (length files + 2)) :: u32) = 16 * (length files + 2)"
    using assms(2) by (intro unat_of_nat32) simp
  have "di_size (mk_inode m 1) = (of_nat (16 * (length files + 2)) div 1024 + 1) * 1024"
    using ino [of 1] M' R(1) by (simp add: BSIZE_def)
  also have "\<dots> = of_nat (root_size files)"
    unfolding word_eq_unat root_size_def using assms(2)
    by (simp only: unat_word_ariths unat_div sz unat_of_nat) simp
  finally show "di_size (mk_inode m 1) = of_nat (root_size files)" .
  show "\<forall>k<length files. made (files ! k) (mk_inode m (k + 2))" using ino M' assms(2) by simp
  show "\<forall>i<208. length files + 2 \<le> i \<longrightarrow> mk_inode m i = zero_dinode" using ino M' by simp
qed

section \<open>The kernel mounts the image\<close>

lemma image_blocks:
  assumes "mk_main files io = Some m" "length files \<le> 206" "c = (\<lambda>b. mk_sect m (unat b))"
  shows "rd_superblock (c 0) = mk_sb" "rd_dinode (c 32) 0 = zero_dinode" "di_type (rd_dinode (c 32) 1) = T_DIR"
    "unat (di_size (rd_dinode (c 32) 1)) = root_size files"
    "img_ok c" "root_entries c" "root_small c"
proof -
  note M = mk_main_made [OF assms(1,2)]
  show 1: "rd_superblock (c 0) = mk_sb" "rd_dinode (c 32) 0 = zero_dinode" "di_type (rd_dinode (c 32) 1) = T_DIR"
    using M(1-3) by (simp_all add: assms(3) rd_superblock_wr mk_inode_def)
  have d: "di_size (rd_dinode (c 32) 1) = of_nat (root_size files)" using M(4) by (simp add: assms(3) mk_inode_def)
  have small: "root_size files \<le> 4096" using assms(2) by (simp add: root_size_def)
  then show 2: "unat (di_size (rd_dinode (c 32) 1)) = root_size files"
    unfolding d by (intro unat_of_nat32) simp
  have i: "sb_inodestart mk_sb = 32" by (rule mk_vals)
  show "img_ok c" using 1 mk_sb_layout by (simp add: img_ok_def i zero_dinode_def) (simp add: mk_sb_def)
  have "root_size files mod 16 = 0" "2 * 16 \<le> root_size files" by (simp_all add: root_size_def)
  then show "root_entries c"
    using 2 by (simp add: root_entries_def 1 i word_eq_unat word_le_unat unat_mod)
  show "root_small c" using small 2 by (simp add: root_small_def 1 i MAXFILE_val BSIZE_def)
qed

lemma made_type: "made f d \<Longrightarrow> di_type d \<noteq> 0"
  by (auto simp: made_def T_DIR_def T_FILE_def split: if_splits)

text \<open>
  C34. The kernel mounts every image \<^verbatim>\<open>mkxv6\<close> finishes for at most 206 files and directories, when no
  service call fails: the root directory is the one the builder made, of its entries rounded up to whole
  blocks; the kernel's free blocks are exactly the blocks the builder did not hand out, and the hint lies
  in the data region; the inodes in use are the root and one for each argument, of its
  type and size.
\<close>

theorem mk_main_mounts:
  assumes "mk_main files io = Some m" and "length files \<le> 206"
    and "cache s = (\<lambda>b. mk_sect m (unat b))" and "\<forall>n. env_alloc (env s) n" and "\<forall>n b. env_bread (env s) n b"
  shows "\<exists>root t. xv6_fill_super opts s = Some (0, Some root, t) \<and> tree_map t = [ROOTINO \<mapsto> root]
    \<and> is_dir root t \<and> unat (i_size (inodes t root)) = root_size files
    \<and> free_blocks t = {b. freeblock m \<le> b \<and> b < FSSIZE} \<and> hint_ok t
    \<and> (\<forall>n<208. in_use t n \<longleftrightarrow> 1 \<le> n \<and> n < length files + 2)
    \<and> (\<forall>k<length files. made (files ! k) (inode_at t (k + 2)))"
proof -
  note B = image_blocks [OF assms(1-3)] and M = mk_main_made [OF assms(1,2)]
  from mount_runs [OF assms(4,5) B(5-7), of opts] obtain root t where r: "xv6_fill_super opts s = Some (0, Some root, t)"
    by blast
  note R = mount_result [OF r refl, unfolded B(1)]
  have sb: "sb_ninodes mk_sb = 200" "sb_nblocks mk_sb = 1954" "sb_size mk_sb = 2000" "sb_inodestart mk_sb = 32"
      "sb_bmapstart mk_sb = 45"
    by (simp_all add: mk_sb_def mk_vals NINODES_def)
  have i: "fi_inodestart (info t) = 32" "fi_bmapstart (info t) = 45" "fi_size (info t) = 2000"
    using R by (simp_all add: fill_info_def Let_def sb)
  have c: "cache t = (\<lambda>b. mk_sect m (unat b))" using R assms(3) by simp
  have h: "hint_ok t" "tree_map t = [ROOTINO \<mapsto> root]" "is_dir root t"
    using R by (simp_all add: sb Let_def)
  have "i_size (inodes t root) = ucast (di_size (rd_dinode (cache s 32) 1))" using R by (simp add: sb Let_def)
  then have size: "unat (i_size (inodes t root)) = root_size files" using B(4) by simp
  have at: "inode_at t n = mk_inode m n" if "n < 208" for n
  proof -
    have "unat (32 + of_nat (n div 16) :: u32) = 32 + n div 16"
      using that by (simp add: unat_word_ariths unat_of_nat)
    then show ?thesis by (simp add: inode_at_def iblk_def i c mk_inode_def)
  qed
  have use: "in_use t n \<longleftrightarrow> 1 \<le> n \<and> n < length files + 2" if "n < 208" for n
  proof -
    consider "n = 0" | "n = 1" | k where "n = k + 2" "k < length files" | "length files + 2 \<le> n"
      by (metis One_nat_def Suc_1 add.commute le_add_diff_inverse less_2_cases not_less nat_add_left_cancel_less)
    then show ?thesis
      using M(2,3) M(5,6) at [OF that] that made_type
      by cases (auto simp: in_use_def T_DIR_def zero_dinode_def)
  qed
  have bm: "bmblk (info t) b = 45" if "b < 2000" for b
  proof -
    have "b div 8192 = 0" using that by (simp add: unat_div word_eq_unat word_less_unat)
    then show ?thesis by (simp add: bmblk_def BPB_val i)
  qed
  note bits = mk_main_bitmap [OF assms(1)]
  have "free_blocks t = {b. freeblock m \<le> b \<and> b < FSSIZE}"
  proof (rule set_eqI)
    fix b
    have "b \<in> free_blocks t \<longleftrightarrow> 46 \<le> b \<and> b < 2000 \<and> \<not> unat b < unat (freeblock m)"
      using bits by (auto simp: free_blocks_def data_start_def i BITMAP_BLOCKS_def BPB_val bm_used_def bm c word_less_unat)
    then show "b \<in> free_blocks t \<longleftrightarrow> b \<in> {b. freeblock m \<le> b \<and> b < FSSIZE}"
      using bits by (auto simp: mk_vals word_le_unat)
  qed
  then show ?thesis
    using r h size use at M(5) assms(2) by (intro exI [of _ root] exI [of _ t]) simp
qed

theorem mk_main_mounts_witness:
  "\<exists>m root t. mk_main [one_file] (\<lambda>_. True) = Some m
     \<and> xv6_fill_super \<lparr>mo_uid = 0, mo_gid = 0\<rparr> (sample_fs\<lparr>cache := (\<lambda>b. mk_sect m (unat b))\<rparr>) = Some (0, Some root, t)
     \<and> unat (i_size (inodes t root)) = 1024 \<and> di_type (inode_at t 2) = T_FILE \<and> di_size (inode_at t 2) = 3 \<and> \<not> in_use t 3"
proof -
  obtain m where m: "mk_main [one_file] (\<lambda>_. True) = Some m" using mk_main_runs ..
  let ?s = "sample_fs\<lparr>cache := (\<lambda>b. mk_sect m (unat b))\<rparr>"
  have e: "\<forall>n. env_alloc (env ?s) n" "\<forall>n b. env_bread (env ?s) n b" by (simp_all add: sample_defs)
  from mk_main_mounts [OF m _ _ e, of "\<lparr>mo_uid = 0, mo_gid = 0\<rparr>"] obtain root t
    where "xv6_fill_super \<lparr>mo_uid = 0, mo_gid = 0\<rparr> ?s = Some (0, Some root, t)"
      "unat (i_size (inodes t root)) = root_size [one_file]"
      "\<forall>n<208. in_use t n \<longleftrightarrow> 1 \<le> n \<and> n < length [one_file] + 2" "\<forall>k<length [one_file]. made ([one_file] ! k) (inode_at t (k + 2))"
    by auto
  moreover from this(4) have "made one_file (inode_at t 2)" by (simp add: numeral_2_eq_2)
  ultimately show ?thesis
    using m by (intro exI [of _ m] exI [of _ root] exI [of _ t]) (simp add: root_size_def made_def, simp add: one_file_def)
qed

end
