(* ===== verification/File_Spec.thy ===== *)
theory File_Spec
  imports File_IO Check_Spec
begin

text \<open>
  The content of a file as a function from positions to bytes (\<open>file_byte\<close>; holes read as
  zeros), and what reading and writing do with it. \<open>file_ok\<close> is the invariant of a loaded
  file: its blocks are mapped once and are neither free nor metadata, and its size does not exceed
  the largest file.
\<close>

section \<open>The content of a file\<close>

definition file_byte :: "fs \<Rightarrow> iref \<Rightarrow> nat \<Rightarrow> u8" where
  "file_byte s ino k = (let b = bmap (cache s) (dir_addrs s ino) (k div 1024)
     in if b = 0 then 0 else cache s b (k mod 1024))"

definition file_ok :: "fs \<Rightarrow> iref \<Rightarrow> bool" where
  "file_ok s ino \<longleftrightarrow> kinv (frame_of s) s \<and> i_private (inodes s ino) = Some (dir_addrs s ino)
     \<and> file_wf (cache s) (free_blocks s \<union> meta_blocks s) (dir_addrs s ino)
     \<and> unat (i_size (inodes s ino)) \<le> MAXFILE * BSIZE"

definition fault_free :: "fs \<Rightarrow> bool" where
  "fault_free s \<longleftrightarrow> (\<forall>n b. env_bread (env s) n b \<and> env_sync (env s) n b = 0 \<and> \<not> env_fault (env s) n)"

lemma quiet_frame: "quiet s t \<Longrightarrow> frame_of t = frame_of s"
  by (cases s; cases t; simp add: quiet_def frame_of_def)

lemma file_ok_quiet:
  assumes "quiet s t"
  shows "file_ok t ino = file_ok s ino" "file_byte t ino = file_byte s ino" "fault_free t = fault_free s"
    "dir_addrs t ino = dir_addrs s ino"
proof -
  note q = quietD [OF assms] quiet_frame [OF assms]
  show a: "dir_addrs t ino = dir_addrs s ino" by (simp add: dir_addrs_def q)
  have "free_blocks t = free_blocks s" "meta_blocks t = meta_blocks s"
    by (simp_all add: free_blocks_def bm_used_def meta_blocks_def q)
  then show "file_ok t ino = file_ok s ino"
    by (simp add: file_ok_def a q kinv_def hint_ok_def hint_of_def)
  show "file_byte t ino = file_byte s ino" "fault_free t = fault_free s"
    by (simp_all add: file_byte_def fun_eq_iff a q fault_free_def Let_def)
qed

section \<open>Reading\<close>

lemma inode_block_cases:
  assumes fok: "file_ok s ino" and i: "unat i < MAXFILE"
  obtains (hole) t where "xv6_inode_block ino i s = Some (0, None, t)" "quiet s t"
      "bmap (cache s) (dir_addrs s ino) (unat i) = 0"
  | (block) b t where "xv6_inode_block ino i s = Some (0, Some b, t)" "quiet s (brelse b t)"
      "b = bmap (cache s) (dir_addrs s ino) (unat i)" "b \<noteq> 0" "cache t = cache s" "env t = env s"
  | (io) t where "xv6_inode_block ino i s = Some (- EIO, None, t)" "quiet s t" "\<not> fault_free s"
proof -
  let ?c = "\<lparr>ic_addrs = dir_addrs s ino, ic_size = ucast (i_size (inodes s ino)), ic_dirty = False\<rparr>"
  let ?b = "bmap (cache s) (dir_addrs s ino) (unat i)"
  from fok have k: "kinv (frame_of s) s" and p: "i_private (inodes s ino) = Some (dir_addrs s ino)"
    and len: "length (ic_addrs ?c) = 13" by (auto simp: file_ok_def dest: file_wfD(1))
  obtain e b t where A: "xv6_inode_addr modcheck ?c i False s = Some (e, b, ?c, t)"
    "e = 0 \<and> b = ?b \<or> e = - EIO"
    by (rule kdev.addr_read [OF k len, of i]) (use i in \<open>auto simp: not_le [symmetric]\<close>)
  have Q: "quiet s t" "no_faults modcheck quiet s \<Longrightarrow> e = 0"
    by (rule kro.addr_ro [of ?c i s], use A i in force)+
  have nf: "no_faults modcheck quiet s" if "fault_free s"
    using that by (auto simp: no_faults_def fault_free_def modcheck_def checker_bread_def sb_bread_def quietD)
  have al: "ictx_alias ino ?c t = t"
    by (rule alias_same) (use p quietD(11) [OF Q(1)] in simp)
  have run: "xv6_inode_block ino i s = (if e \<noteq> 0 then Some (e, None, t) else do {
       let (bh, s) = (if b \<noteq> 0 then sb_bread b t else (None, t));
       let error = (if b \<noteq> 0 \<and> bh = None then - EIO else 0);
       Some (error, bh, s) })"
    by (simp add: xv6_inode_block_def xv6_init_ictx_def xv6_inode_ctx_init_def p A(1) al Let_def)
  show thesis
  proof (cases "e = 0")
    case False
    then show thesis using io [of t] run A(2) Q nf by auto
  next
    case True
    then have b: "b = ?b" using A(2) by simp
    show thesis
    proof (cases "b = 0")
      case True
      then show thesis using hole [of t] run \<open>e = 0\<close> Q(1) b by (simp add: Let_def)
    next
      case False
      show thesis
      proof (cases rule: sb_bread_cases [of b t])
        case (fail t')
        have "\<not> fault_free s"
          using fail(1) quietD(7) [OF Q(1)] by (auto simp: fault_free_def sb_bread_def split: if_splits)
        then show thesis using io [of t'] run \<open>e = 0\<close> False fail quiet_trans [OF Q(1) fail(2)] by simp
      next
        case (ok t')
        then have "quiet s (brelse b t')" "cache t' = cache s" "env t' = env s"
          using bread_brelse [OF ok(1)] quiet_trans [OF Q(1)] quietD(1,7) [OF Q(1)] by auto
        then show thesis using block [of b t'] run \<open>e = 0\<close> False ok(1) b by simp
      qed
    qed
  qed
qed

text \<open>The bytes of a file within one block.\<close>

lemma chunk_pos:
  assumes "j < n" "n \<le> 1024 - p mod 1024"
  shows "(p + j) div 1024 = p div (1024 :: nat)" "(p + j) mod 1024 = p mod 1024 + j"
proof -
  have e: "p + j = p div 1024 * 1024 + (p mod 1024 + j)" by simp
  have l: "p mod 1024 + j < 1024" using assms mod_less_divisor [of 1024 p] by linarith
  have dm: "(a * 1024 + r) div 1024 = a" "(a * 1024 + r) mod 1024 = r" if "r < 1024" for a r :: nat
    using that by simp_all
  show "(p + j) div 1024 = p div 1024" unfolding e by (rule dm(1) [OF l])
  show "(p + j) mod 1024 = p mod 1024 + j" unfolding e by (rule dm(2) [OF l])
qed

lemma file_chunk:
  assumes "n \<le> 1024 - p mod 1024"
  shows "map (file_byte s ino) [p..<p + n] = (let b = bmap (cache s) (dir_addrs s ino) (p div 1024)
     in if b = 0 then replicate n 0 else get (cache s b) (p mod 1024) n)"
proof (rule nth_equalityI)
  fix j assume "j < length (map (file_byte s ino) [p..<p + n])"
  then have j: "j < n" by simp
  from chunk_pos [OF j assms] j
  show "map (file_byte s ino) [p..<p + n] ! j = (let b = bmap (cache s) (dir_addrs s ino) (p div 1024)
     in if b = 0 then replicate n 0 else get (cache s b) (p mod 1024) n) ! j"
    by (simp add: file_byte_def Let_def)
qed (simp add: Let_def)

lemma word_div_mod [simp]: "unat (ucast (x div of_nat BSIZE :: u64) :: u32) = unat x div 1024 mod 2 ^ 32"
    "unat (ucast (x mod of_nat BSIZE :: u64) :: u32) = unat x mod 1024"
proof -
  show "unat (ucast (x div of_nat BSIZE :: u64) :: u32) = unat x div 1024 mod 2 ^ 32"
    by (simp add: BSIZE_def unsigned_ucast_eq unsigned_take_bit_eq take_bit_eq_mod unat_div)
  have "unat x mod 1024 < 2 ^ 32" by (rule less_trans [of _ 1024]) simp_all
  then show "unat (ucast (x mod of_nat BSIZE :: u64) :: u32) = unat x mod 1024"
    by (simp add: BSIZE_def unsigned_ucast_eq unsigned_take_bit_eq take_bit_eq_mod unat_mod)
qed

lemma rest_of_block: "unat boff < 1024 \<Longrightarrow> unat (ucast (of_nat BSIZE - boff :: u32) :: u64) = 1024 - unat boff"
  by (simp add: BSIZE_def unat_sub word_le_nat_alt)

text \<open>The position after a chunk, and the loop counters there.\<close>

lemma next_chunk:
  assumes "unat cpos + unat len \<le> 274432" "n = min (1024 - unat cpos mod 1024) (unat len)" "len \<noteq> 0"
    and "unat w = n" "unat block = unat cpos div 1024"
  shows "unat (cpos + w :: u64) = unat cpos + n" "unat (len - w) = unat len - n" "0 < n"
    "len - w \<noteq> 0 \<Longrightarrow> unat (block + 1 :: u32) = unat (cpos + w) div 1024 \<and> unat (cpos + w) mod 1024 = 0"
proof -
  have nl: "n \<le> unat len" using assms(2) by simp
  then have "unat cpos + unat w < 18446744073709551616" using assms(1,4) by linarith
  then show c: "unat (cpos + w) = unat cpos + n"
    using assms(4) by (simp add: unat_word_ariths(1))
  show l: "unat (len - w) = unat len - n"
    using assms(4) nl by (subst unat_sub) (simp_all add: word_le_nat_alt)
  have "unat len \<noteq> 0" using assms(3) by (simp add: word_eq_unat)
  then show "0 < n" using assms(2) by simp
  assume "len - w \<noteq> 0"
  then have "n = 1024 - unat cpos mod 1024" using l assms(2) by (auto simp: word_eq_unat min_def split: if_splits)
  moreover have "a * 1024 + r + (1024 - r) = (a + 1) * 1024" if "r < 1024" for a r :: nat using that by simp
  from this [of "unat cpos mod 1024" "unat cpos div 1024"]
  have "unat cpos + (1024 - unat cpos mod 1024) = (unat cpos div 1024 + 1) * 1024" by simp
  ultimately have e: "unat cpos + n = (unat cpos div 1024 + 1) * 1024" by simp
  have "unat (block + 1) = unat cpos div 1024 + 1"
  proof -
    have "unat cpos div 1024 \<le> unat cpos" by (rule div_le_dividend)
    then have "unat block + 1 < 2 ^ 32" using assms(1,5) by simp
    then show ?thesis using assms(5) by (subst unat_add_no_wrap) simp_all
  qed
  then show "unat (block + 1) = unat (cpos + w) div 1024 \<and> unat (cpos + w) mod 1024 = 0"
    unfolding c e by simp
qed

lemma file_limit: "MAXFILE * BSIZE = 274432"
  by (simp add: layout_vals)

text \<open>
  The loop of \<^verbatim>\<open>xv6_file_read\<close> copies a prefix of what was asked for; it stops early only on
  an error, and touches nothing.
\<close>

lemma read_loop_spec:
  assumes "file_ok s ino" "len \<le> fsz - cpos" "unat cpos + unat len \<le> MAXFILE * BSIZE"
    and "len \<noteq> 0 \<Longrightarrow> unat block = unat cpos div 1024 \<and> unat boff = unat cpos mod 1024"
  shows "\<exists>e k t. read_loop ino fsz block boff len cpos nread buf s
      = Some (e, nread + int k, cpos + of_nat k, buf @ map (file_byte s ino) [unat cpos..<unat cpos + k], t)
    \<and> quiet s t \<and> k \<le> unat len \<and> (e = 0 \<longrightarrow> k = unat len) \<and> (e = 0 \<or> e = - EIO \<or> e = - EFAULT)
    \<and> (fault_free s \<longrightarrow> e = 0)"
  using assms
proof (induction "unat len" arbitrary: len block boff cpos nread buf s rule: less_induct)
  case less
  show ?case
  proof (cases "len = 0")
    case True
    then have "read_loop ino fsz block boff len cpos nread buf s = Some (0, nread, cpos, buf, s)"
      by (subst read_loop.simps) simp
    then show ?thesis using True by (intro exI [of _ 0] exI [of _ "0::nat"] exI [of _ s]) simp
  next
    case False
    note c = less(5) [OF False]
    let ?p = "unat cpos" and ?b = "bmap (cache s) (dir_addrs s ino) (unat block)"
    have sz: "?p + unat len \<le> 274432"
      using less(4) by (simp add: file_limit)
    have "0 < unat len" using False by (simp add: word_eq_unat)
    then have ib: "unat block < MAXFILE" using c sz by (simp add: MAXFILE_val less_mult_imp_div_less)
    define n where "n = min (1024 - ?p mod 1024) (unat len)"
    define w1 where "w1 = (ucast (of_nat BSIZE - boff :: u32) :: u64)"
    define w where "w = (if (if w1 > len then len else w1) > fsz - cpos then fsz - cpos else if w1 > len then len else w1)"
    have pm: "?p mod 1024 < 1024" by simp
    have w1: "unat w1 = 1024 - ?p mod 1024" using rest_of_block [of boff] c pm by (simp add: w1_def)
    have w: "unat w = n" using less(3) w1 by (auto simp: w_def n_def word_less_nat_alt word_le_nat_alt)
    note N = next_chunk [OF sz n_def False w conjunct1 [OF c]]
    have nle: "n \<le> 1024 - ?p mod 1024" "n \<le> unat len" by (simp_all add: n_def)
    note fc = file_chunk [OF nle(1), of s ino]
    have step: "\<exists>e k t. read_loop ino fsz block boff len cpos nread buf s
      = Some (e, nread + int k, cpos + of_nat k, buf @ map (file_byte s ino) [?p..<?p + k], t)
      \<and> quiet s t \<and> k \<le> unat len \<and> (e = 0 \<longrightarrow> k = unat len) \<and> (e = 0 \<or> e = - EIO \<or> e = - EFAULT)
      \<and> (fault_free s \<longrightarrow> e = 0)"
      if r: "read_loop ino fsz block boff len cpos nread buf s =
          (if fault then Some (- EFAULT, nread, cpos, buf, t)
           else read_loop ino fsz (block + 1) 0 (len - w) (cpos + w) (nread + uint w) (buf @ dat) t)"
        and q: "quiet s t" and d: "dat = map (file_byte s ino) [?p..<?p + n]"
        and f: "fault_free s \<longrightarrow> \<not> fault" for fault t dat
    proof (cases fault)
      case True
      then show ?thesis using r q f
        by (intro exI [of _ "- EFAULT"] exI [of _ "0::nat"] exI [of _ t]) auto
    next
      case no: False
      note Q = file_ok_quiet [OF q]
      have "\<exists>e k u. read_loop ino fsz (block + 1) 0 (len - w) (cpos + w) (nread + uint w) (buf @ dat) t
        = Some (e, nread + uint w + int k, cpos + w + of_nat k,
            (buf @ dat) @ map (file_byte t ino) [unat (cpos + w)..<unat (cpos + w) + k], u)
        \<and> quiet t u \<and> k \<le> unat (len - w) \<and> (e = 0 \<longrightarrow> k = unat (len - w)) \<and> (e = 0 \<or> e = - EIO \<or> e = - EFAULT)
        \<and> (fault_free t \<longrightarrow> e = 0)"
      proof (rule less(1))
        show "unat (len - w) < unat len" using N(2,3) \<open>0 < unat len\<close> by simp
        show "file_ok t ino" using Q less(2) by simp
        have "unat (fsz - cpos - w) = unat (fsz - cpos) - n"
          using less(3) nle w by (subst unat_sub) (simp_all add: word_le_nat_alt)
        then show "len - w \<le> fsz - (cpos + w)"
          using less(3) N(2) by (simp add: word_le_nat_alt diff_diff_eq [symmetric])
        show "unat (cpos + w) + unat (len - w) \<le> MAXFILE * BSIZE" using N(1,2) less(4) nle by simp
        show "len - w \<noteq> 0 \<Longrightarrow> unat (block + 1) = unat (cpos + w) div 1024 \<and> unat (0 :: u32) = unat (cpos + w) mod 1024"
          using N(4) by simp
      qed
      then obtain e k u where L: "read_loop ino fsz (block + 1) 0 (len - w) (cpos + w) (nread + uint w) (buf @ dat) t
        = Some (e, nread + uint w + int k, cpos + w + of_nat k,
            (buf @ dat) @ map (file_byte t ino) [unat (cpos + w)..<unat (cpos + w) + k], u)"
        "quiet t u" "k \<le> unat (len - w)" "e = 0 \<longrightarrow> k = unat (len - w)" "e = 0 \<or> e = - EIO \<or> e = - EFAULT"
        "fault_free t \<longrightarrow> e = 0" by blast
      have uw: "uint w = int n" "of_nat n = w" using w by auto
      have "[?p..<?p + (n + k)] = [?p..<?p + n] @ [?p + n..<?p + n + k]"
        using upt_add_eq_append [of ?p "?p + n" k] by (simp add: add.assoc)
      then have "read_loop ino fsz block boff len cpos nread buf s =
          Some (e, nread + int (n + k), cpos + of_nat (n + k), buf @ map (file_byte s ino) [?p..<?p + (n + k)], u)"
        using r no L(1) d Q(2) N(1) uw by (simp add: algebra_simps)
      then show ?thesis
        using L(2-6) N(2) nle quiet_trans [OF q L(2)] Q(3)
        by (intro exI [of _ e] exI [of _ "n + k"] exI [of _ u]) auto
    qed
    show ?thesis
    proof (cases rule: inode_block_cases [OF less(2) ib])
      case hole: (1 t)
      show ?thesis
      proof (rule step [of "env_fault (env t) (now t)" "tick t" "replicate (unat w) 0"])
        show "read_loop ino fsz block boff len cpos nread buf s =
          (if env_fault (env t) (now t) then Some (- EFAULT, nread, cpos, buf, tick t)
           else read_loop ino fsz (block + 1) 0 (len - w) (cpos + w) (nread + uint w) (buf @ replicate (unat w) 0) (tick t))"
          by (subst read_loop.simps) (simp add: False hole(1) Let_def w_def w1_def cong: if_cong)
        show "quiet s (tick t)" using hole(2) by (auto simp: tick_def intro: quiet_trans)
        show "replicate (unat w) 0 = map (file_byte s ino) [?p..<?p + n]" using fc hole(3) c w by simp
        show "fault_free s \<longrightarrow> \<not> env_fault (env t) (now t)" using quietD(7) [OF hole(2)] by (simp add: fault_free_def)
      qed
    next
      case block: (2 b t)
      show ?thesis
      proof (rule step [of "env_fault (env t) (now t)" "brelse b (tick t)" "get (b_data b t) (unat boff) (unat w)"])
        show "read_loop ino fsz block boff len cpos nread buf s =
          (if env_fault (env t) (now t) then Some (- EFAULT, nread, cpos, buf, brelse b (tick t))
           else read_loop ino fsz (block + 1) 0 (len - w) (cpos + w) (nread + uint w)
             (buf @ get (b_data b t) (unat boff) (unat w)) (brelse b (tick t)))"
          by (subst read_loop.simps) (simp add: False block(1) Let_def w_def w1_def cong: if_cong)
        have "brelse b (tick t) = tick (brelse b t)" by (simp add: brelse_def tick_def)
        then show "quiet s (brelse b (tick t))" using block(2) by (auto simp: tick_def intro: quiet_trans)
        show "get (b_data b t) (unat boff) (unat w) = map (file_byte s ino) [?p..<?p + n]"
          using fc block(3-5) c w by (simp add: b_data_def)
        show "fault_free s \<longrightarrow> \<not> env_fault (env t) (now t)" using block(6) by (simp add: fault_free_def)
      qed
    next
      case io: (3 t)
      then have "read_loop ino fsz block boff len cpos nread buf s = Some (- EIO, nread, cpos, buf, t)"
        using False by (subst read_loop.simps) simp
      then show ?thesis using io
        by (intro exI [of _ "- EIO"] exI [of _ "0::nat"] exI [of _ t]) simp
    qed
  qed
qed

text \<open>Locking the inode and unlocking it again leaves the file alone.\<close>

lemma rwsem_upd:
  shows "file_ok (up_rwsem ino sem s) ino = file_ok s ino" "file_byte (up_rwsem ino sem s) ino = file_byte s ino"
    "fault_free (up_rwsem ino sem s) = fault_free s" "dir_addrs (up_rwsem ino sem s) ino = dir_addrs s ino"
    "i_size (inodes (up_rwsem ino sem s) ino) = i_size (inodes s ino)"
    "quiet (up_rwsem ino sem s) t \<Longrightarrow> quiet s (up_rwsem ino (i_rwsem (inodes s ino)) t)"
proof -
  show a: "dir_addrs (up_rwsem ino sem s) ino = dir_addrs s ino" by (simp add: up_rwsem_def dir_addrs_def)
  show "i_size (inodes (up_rwsem ino sem s) ino) = i_size (inodes s ino)" by (simp add: up_rwsem_def)
  show "file_ok (up_rwsem ino sem s) ino = file_ok s ino"
    unfolding file_ok_def a kinv_self by (simp add: up_rwsem_def)
  show "file_byte (up_rwsem ino sem s) ino = file_byte s ino" "fault_free (up_rwsem ino sem s) = fault_free s"
    by (simp_all add: file_byte_def a fault_free_def fun_eq_iff Let_def) (simp_all add: up_rwsem_def)
  show "quiet s (up_rwsem ino (i_rwsem (inodes s ino)) t)" if q: "quiet (up_rwsem ino sem s) t"
  proof -
    have e: "t = (up_rwsem ino sem s)\<lparr>now := now t\<rparr>" using q by (simp add: quiet_def)
    have i: "i\<lparr>i_rwsem := i_rwsem i\<rparr> = i" for i by (cases i) simp
    have "up_rwsem ino (i_rwsem (inodes s ino)) t = s\<lparr>now := now t\<rparr>"
      by (subst e) (simp add: up_rwsem_def upd_inode_def i)
    then show ?thesis by simp
  qed
qed

lemma small_div:
  assumes "unat (pos :: u64) \<le> 274432"
  shows "unat pos div 1024 mod 2 ^ 32 = unat pos div 1024"
proof -
  have "unat pos div 1024 \<le> unat pos" by (rule div_le_dividend)
  then show ?thesis using assms by (intro mod_less) simp
qed

lemma read_run:
  assumes "file_ok s ino" and "i_rwsem (inodes s ino) \<noteq> Exclusive"
    and "unat pos \<le> unat (i_size (inodes s ino))"
    and "n = min (unat len) (unat (i_size (inodes s ino)) - unat pos)"
  obtains e k t where "xv6_file_read ino len pos s = Some (if e \<noteq> 0 \<and> int k \<le> 0 then e else int k,
      map (file_byte s ino) [unat pos..<unat pos + k], pos + of_nat k, t)"
    "quiet s t" "k \<le> n" "e = 0 \<longrightarrow> k = n" "e = 0 \<or> e = - EIO \<or> e = - EFAULT" "fault_free s \<longrightarrow> e = 0"
proof -
  let ?L = "up_rwsem ino Shared s" and ?sz = "i_size (inodes s ino)"
  define l where "l = (if len > ?sz - pos then ?sz - pos else len)"
  have "unat (?sz - pos) = unat ?sz - unat pos" using assms(3) by (subst unat_sub) (simp_all add: word_le_nat_alt)
  then have l: "unat l = n" by (auto simp: l_def assms(4) word_less_nat_alt)
  have sz: "unat ?sz \<le> 274432" using assms(1) by (simp add: file_ok_def file_limit)
  then have p: "unat pos \<le> 274432" using assms(3) by simp
  have "\<exists>e k t. read_loop ino ?sz (ucast (pos div of_nat BSIZE)) (ucast (pos mod of_nat BSIZE)) l pos 0 [] ?L
      = Some (e, 0 + int k, pos + of_nat k, [] @ map (file_byte ?L ino) [unat pos..<unat pos + k], t)
    \<and> quiet ?L t \<and> k \<le> unat l \<and> (e = 0 \<longrightarrow> k = unat l) \<and> (e = 0 \<or> e = - EIO \<or> e = - EFAULT)
    \<and> (fault_free ?L \<longrightarrow> e = 0)"
    by (rule read_loop_spec) (use assms l p sz small_div [OF p] in
        \<open>simp_all add: rwsem_upd l_def not_less file_limit\<close>)
  then obtain e k t where r: "read_loop ino ?sz (ucast (pos div of_nat BSIZE)) (ucast (pos mod of_nat BSIZE)) l pos 0 [] ?L
      = Some (e, int k, pos + of_nat k, map (file_byte s ino) [unat pos..<unat pos + k], t)"
    "quiet ?L t" "k \<le> n" "e = 0 \<longrightarrow> k = n" "e = 0 \<or> e = - EIO \<or> e = - EFAULT" "fault_free s \<longrightarrow> e = 0"
    by (auto simp: l rwsem_upd)
  have "xv6_file_read ino len pos s = Some (if e \<noteq> 0 \<and> int k \<le> 0 then e else int k,
      map (file_byte s ino) [unat pos..<unat pos + k], pos + of_nat k, up_rwsem ino (i_rwsem (inodes s ino)) t)"
    using assms(2) r(1) by (simp add: xv6_file_read_def down_read_def up_rwsem_def [of ino Shared, symmetric] rwsem_upd l_def [symmetric] Let_def cong: if_cong)
  with rwsem_upd(6) [OF r(2)] r(3-6) show thesis using that by blast
qed

text \<open>
  C5. Reading a file at a position up to its end returns the bytes of the file from there on: as
  many as asked for or as there are, unless a block cannot be read or the user's memory faults;
  then a proper prefix, or the error when there is none. Nothing is changed, and
  the position advances by the number of bytes.
\<close>

theorem file_read_content:
  assumes "file_ok s ino" and "i_rwsem (inodes s ino) \<noteq> Exclusive"
    and "unat pos \<le> unat (i_size (inodes s ino))"
    and "n = min (unat len) (unat (i_size (inodes s ino)) - unat pos)"
  shows "\<exists>r k t. xv6_file_read ino len pos s
      = Some (r, map (file_byte s ino) [unat pos..<unat pos + k], pos + of_nat k, t)
    \<and> k \<le> n \<and> quiet s t \<and> (r = int k \<and> (k = n \<or> 0 < k) \<or> k = 0 \<and> (r = - EIO \<or> r = - EFAULT))
    \<and> (fault_free s \<longrightarrow> k = n \<and> r = int n)"
proof -
  obtain e k t where "xv6_file_read ino len pos s = Some (if e \<noteq> 0 \<and> int k \<le> 0 then e else int k,
      map (file_byte s ino) [unat pos..<unat pos + k], pos + of_nat k, t)"
    "quiet s t" "k \<le> n" "e = 0 \<longrightarrow> k = n" "e = 0 \<or> e = - EIO \<or> e = - EFAULT" "fault_free s \<longrightarrow> e = 0"
    by (rule read_run [OF assms])
  then show ?thesis
    by (intro exI [of _ "if e \<noteq> 0 \<and> int k \<le> 0 then e else int k"] exI [of _ k] exI [of _ t]) auto
qed

text \<open>
  C36. Reading behind the end of a file does not return 0: the number of bytes left is computed as
  an unsigned number and wraps around, so the call reads on through the file's blocks, or zeros for
  blocks it does not have, and reports that many bytes.
\<close>

theorem file_read_past_end:
  assumes "file_ok s ino" and "i_rwsem (inodes s ino) \<noteq> Exclusive" and "fault_free s"
    and "i_size (inodes s ino) < pos" and "unat pos + unat len \<le> MAXFILE * BSIZE"
  shows "\<exists>t. xv6_file_read ino len pos s
      = Some (int (unat len), map (file_byte s ino) [unat pos..<unat pos + unat len], pos + len, t)
    \<and> quiet s t"
proof -
  let ?L = "up_rwsem ino Shared s" and ?sz = "i_size (inodes s ino)"
  have "unat (?sz - pos) = unat ?sz + 2 ^ 64 - unat pos"
    using assms(4) by (simp add: unat_sub_if' word_less_nat_alt)
  then have l: "len \<le> ?sz - pos" using assms(5) by (simp add: word_le_nat_alt file_limit)
  have p: "unat pos \<le> 274432" using assms(5) by (simp add: file_limit)
  have "\<exists>e k t. read_loop ino ?sz (ucast (pos div of_nat BSIZE)) (ucast (pos mod of_nat BSIZE)) len pos 0 [] ?L
      = Some (e, 0 + int k, pos + of_nat k, [] @ map (file_byte ?L ino) [unat pos..<unat pos + k], t)
    \<and> quiet ?L t \<and> k \<le> unat len \<and> (e = 0 \<longrightarrow> k = unat len) \<and> (e = 0 \<or> e = - EIO \<or> e = - EFAULT)
    \<and> (fault_free ?L \<longrightarrow> e = 0)"
    by (rule read_loop_spec) (use assms l small_div [OF p] in \<open>simp_all add: rwsem_upd\<close>)
  then obtain t where r: "read_loop ino ?sz (ucast (pos div of_nat BSIZE)) (ucast (pos mod of_nat BSIZE)) len pos 0 [] ?L
      = Some (0, int (unat len), pos + len, map (file_byte s ino) [unat pos..<unat pos + unat len], t)"
    "quiet ?L t" using assms(3) by (auto simp: rwsem_upd)
  have "xv6_file_read ino len pos s = Some (int (unat len),
      map (file_byte s ino) [unat pos..<unat pos + unat len], pos + len, up_rwsem ino (i_rwsem (inodes s ino)) t)"
    using assms(2) r(1) l
    by (simp add: xv6_file_read_def down_read_def up_rwsem_def [of ino Shared, symmetric] rwsem_upd not_less [symmetric])
  with rwsem_upd(6) [OF r(2)] show ?thesis by blast
qed

lemma dir_file_ok:
  assumes "dir_ok s dir"
  shows "file_ok s dir"
  unfolding file_ok_def using assms dir_okD(1,3,4) [OF assms] by (intro conjI) (simp_all add: dir_ok_def)

lemma dir_fs_file: "file_ok dir_fs 0" "i_rwsem (inodes dir_fs 0) \<noteq> Exclusive" "fault_free dir_fs"
    "i_size (inodes dir_fs 0) = 32"
proof -
  show "file_ok dir_fs 0" by (rule dir_file_ok) (use dir_fs_inv in \<open>unfold dir_inv_def, blast\<close>)
  show "i_rwsem (inodes dir_fs 0) \<noteq> Exclusive" "i_size (inodes dir_fs 0) = 32"
    by (simp_all add: dir_fs_def sample_inode_def)
  have "\<not> env_fault (env dir_fs) n" for n by (simp add: dir_fs_def sample_defs)
  then show "fault_free dir_fs" by (simp add: fault_free_def)
qed

theorem file_read_content_witness:
  "\<exists>t. xv6_file_read 0 100 20 dir_fs = Some (12, map (file_byte dir_fs 0) [20..<32], 32, t)"
  using file_read_content [OF dir_fs_file(1,2), of 20 12 100] dir_fs_file(3,4) by auto

theorem file_read_past_end_witness:
  "\<exists>t. xv6_file_read 0 5 2000 dir_fs = Some (5, [0, 0, 0, 0, 0], 2005, t)"
proof -
  have "map (file_byte dir_fs 0) [2000..<2005] = [0, 0, 0, 0, 0]"
    by (simp add: file_byte_def dir_fs_bmap upt_rec)
  then show ?thesis
    using file_read_past_end [OF dir_fs_file(1,2,3), of 2000 5] dir_fs_file(4) by (auto simp: file_limit)
qed

end
