(* ===== verification/File_Write.thy ===== *)
theory File_Write
  imports File_Spec
begin

text \<open>
  What \<^verbatim>\<open>xv6_file_write\<close> does to a file: \<open>file_step\<close> is what every step keeps (the file's
  invariant, other inodes, blocks of other files, references), the theorems add what becomes of
  the content, on success and on every error, and that a later read finds what was written.
\<close>

section \<open>Steps on a file\<close>

abbreviation file_map :: "fs \<Rightarrow> iref \<Rightarrow> nat \<Rightarrow> u32" where
  "file_map s ino \<equiv> bmap (cache s) (dir_addrs s ino)"

abbreviation file_owned :: "fs \<Rightarrow> iref \<Rightarrow> u32 set" where
  "file_owned s ino \<equiv> owned (cache s) (dir_addrs s ino)"

definition file_step :: "fs \<Rightarrow> iref \<Rightarrow> fs \<Rightarrow> bool" where
  "file_step s ino t \<longleftrightarrow> file_ok t ino \<and> env t = env s \<and> info t = info s \<and> refs t = refs s
     \<and> i_rwsem (inodes t ino) = i_rwsem (inodes s ino) \<and> i_size (inodes t ino) = i_size (inodes s ino)
     \<and> (\<forall>j. j \<noteq> ino \<longrightarrow> inodes t j = inodes s j)
     \<and> free_blocks t \<subseteq> free_blocks s
     \<and> file_owned t ino \<subseteq> file_owned s ino \<union> (free_blocks s - free_blocks t)
     \<and> (\<forall>b. b \<notin> free_blocks s \<longrightarrow> b \<notin> bitmap_blocks (info s) \<longrightarrow> b \<notin> file_owned s ino \<longrightarrow> cache t b = cache s b)
     \<and> (\<forall>i. file_map s ino i \<noteq> 0 \<longrightarrow> file_map t ino i = file_map s ino i)"

lemma file_stepD:
  assumes "file_step s ino t"
  shows "file_ok t ino" "env t = env s" "info t = info s" "refs t = refs s" "fault_free t = fault_free s"
    "i_rwsem (inodes t ino) = i_rwsem (inodes s ino)" "meta_blocks t = meta_blocks s"
    "file_map s ino i \<noteq> 0 \<Longrightarrow> file_map t ino i = file_map s ino i"
    "i_size (inodes t ino) = i_size (inodes s ino)"
  using assms by (auto simp: file_step_def fault_free_def meta_blocks_def)

lemma file_step_refl: "file_ok s ino \<Longrightarrow> file_step s ino s"
  by (simp add: file_step_def)

lemma file_step_trans:
  assumes "file_step s ino t" "file_step t ino u"
  shows "file_step s ino u"
proof -
  have m: "meta_blocks t = meta_blocks s" by (rule file_stepD(7) [OF assms(1)])
  have c: "cache u b = cache s b" if "b \<notin> free_blocks s" "b \<notin> bitmap_blocks (info s)" "b \<notin> file_owned s ino" for b
  proof -
    have "b \<notin> free_blocks t" "b \<notin> file_owned t ino" using assms(1) that unfolding file_step_def by blast+
    then show ?thesis using that assms m unfolding file_step_def by metis
  qed
  have o: "file_owned u ino \<subseteq> file_owned s ino \<union> (free_blocks s - free_blocks u)"
    using assms unfolding file_step_def by blast
  have b: "file_map u ino i = file_map s ino i" if "file_map s ino i \<noteq> 0" for i
    using file_stepD(8) [OF assms(1) that] file_stepD(8) [OF assms(2), of i] that by simp
  show ?thesis
    unfolding file_step_def using c o b assms unfolding file_step_def by (intro conjI allI impI) (auto 0 2)
qed

text \<open>What only the service counter, the disk or the dirty flags tell apart.\<close>

lemma file_step_view:
  assumes "file_step s ino t" "cache u = cache t" "inodes u = inodes t" "info u = info t" "env u = env t"
    "refs u = refs t" "balloc_hint u = balloc_hint t" "balloc_lock u = balloc_lock t"
  shows "file_step s ino u" "file_byte u ino = file_byte t ino"
proof -
  have a: "dir_addrs u ino = dir_addrs t ino" by (simp add: dir_addrs_def assms(3))
  have f: "free_blocks u = free_blocks t" "meta_blocks u = meta_blocks t"
    by (simp_all add: free_blocks_def bm_used_def meta_blocks_def assms)
  have "file_ok u ino = file_ok t ino"
    by (simp add: file_ok_def kinv_self hint_ok_def hint_of_def a f assms)
  then show "file_step s ino u" using assms(1) by (simp add: file_step_def a f assms)
  show "file_byte u ino = file_byte t ino" by (simp add: file_byte_def fun_eq_iff a assms Let_def)
qed

text \<open>Storing into a data block of the file changes the bytes of that block only.\<close>

lemma file_store:
  assumes st: "file_step s ino t" and b: "file_map t ino i = b" "b \<noteq> 0"
    and u: "u = t\<lparr>cache := (cache t)(b := d)\<rparr>"
  shows "file_step s ino u"
    "file_byte u ino = (\<lambda>x. if x div 1024 = i then d (x mod 1024) else file_byte t ino x)"
proof -
  let ?a = "dir_addrs t ino"
  have ok: "kinv (frame_of t) t" "i_private (inodes t ino) = Some ?a" "unat (i_size (inodes t ino)) \<le> MAXFILE * BSIZE"
    and wf: "file_wf (cache t) (free_blocks t \<union> meta_blocks t) ?a"
    using file_stepD(1) [OF st] by (auto simp: file_ok_def)
  have bm: "bmap (cache u) ?a = bmap (cache t) ?a"
    using file_wfD(3) [OF wf, of i] b u by (intro bmap_view_cong) auto
  have nm: "b \<notin> meta_blocks t" "b \<notin> free_blocks t" using file_wfD(5) [OF wf, of i] b by auto
  have fr: "free_blocks u = free_blocks t"
    unfolding u by (rule pool_store) (use ok(1) nm in \<open>simp_all add: kinv_def\<close>)
  have a: "dir_addrs u ino = ?a" by (simp add: u dir_addrs_def)
  have o: "file_owned u ino = file_owned t ino" by (simp add: owned_def bm a)
  have me: "meta_blocks u = meta_blocks t" by (simp add: u meta_blocks_def)
  have wfu: "file_wf (cache u) (free_blocks u \<union> meta_blocks u) ?a"
    using wf unfolding file_wf_def bm fr me o [unfolded a] .
  have "file_ok u ino"
    unfolding file_ok_def a using ok wfu by (simp add: kinv_self) (simp add: u hint_ok_def hint_of_def)
  moreover have "b \<in> file_owned t ino" using ownedI(1) [of "cache t" ?a i] b by simp
  then have "cache u x = cache s x" if "x \<notin> free_blocks s" "x \<notin> bitmap_blocks (info s)" "x \<notin> file_owned s ino" for x
    using st that unfolding file_step_def u by (cases "x = b") auto
  ultimately show "file_step s ino u"
    using st unfolding file_step_def a fr bm o [unfolded a] by (simp add: u)
  show "file_byte u ino = (\<lambda>x. if x div 1024 = i then d (x mod 1024) else file_byte t ino x)"
  proof
    fix x
    have inj: "file_map t ino (x div 1024) \<noteq> b" if "x div 1024 \<noteq> i"
      using file_wfD(2) [OF wf, of "x div 1024" i] b that by auto
    show "file_byte u ino x = (if x div 1024 = i then d (x mod 1024) else file_byte t ino x)"
      unfolding file_byte_def a bm using inj b by (cases "x div 1024 = i") (simp_all add: u Let_def)
  qed
qed

text \<open>Growing the block map.\<close>

lemma file_grown:
  assumes ok: "file_ok s ino" and ev: "kdev.evolves (frame_of s) s (dir_addrs s ino) s1 a"
    and ex: "extends (cache s) (dir_addrs s ino) (cache s1) a"
    and t: "t = upd_inode ino (\<lambda>i. i\<lparr>i_private := Some a, i_dirty := d\<rparr>) s1"
  shows "file_step s ino t" "file_byte t ino = file_byte s ino" "inodes s1 = inodes s"
    "dir_addrs t ino = a"
proof -
  have k: "frame_of s1 = frame_of s" "hint_ok s1" "\<not> balloc_lock s1" "refs s1 = refs s" "meta_blocks s1 = meta_blocks s"
      "free_blocks s1 \<subseteq> free_blocks s" "wf_geom (info s1)"
    using evolves_frame [OF ev] by simp_all
  show f: "inodes s1 = inodes s"
    using k(1) by (auto simp: frame_of_def)
  have f2: "info s1 = info s" "env s1 = env s" using k(1) by (auto simp: frame_of_def)
  have wf: "file_wf (cache s1) (free_blocks s1 \<union> meta_blocks s1) a"
    using kdev.evolvesD(5) [OF ev] k(5) by simp
  show a: "dir_addrs t ino = a" by (simp add: dir_addrs_def t)
  have okt: "file_ok t ino"
    unfolding file_ok_def a kinv_self using ok wf k by (simp add: t f file_ok_def)
  have bm: "\<And>i. file_map s ino i \<noteq> 0 \<Longrightarrow> bmap (cache s1) a i = file_map s ino i"
    using ex unfolding extends_def by metis
  show "file_step s ino t"
    unfolding file_step_def a
  proof (intro conjI allI impI)
    show "owned (cache t) a \<subseteq> file_owned s ino \<union> (free_blocks s - free_blocks t)"
      using kdev.evolvesD(7) [OF ev] by (simp add: t)
    show "\<And>b. b \<notin> free_blocks s \<Longrightarrow> b \<notin> bitmap_blocks (info s) \<Longrightarrow> b \<notin> file_owned s ino \<Longrightarrow> cache t b = cache s b"
      using evolves_frame(12) [OF ev] by (simp add: t)
  qed (use okt k f f2 bm in \<open>auto simp: t\<close>)
  have "file_byte t ino x = file_byte s ino x" for x
    using spec [OF ex [unfolded extends_def], of "x div 1024"] unfolding file_byte_def a by (auto simp: t Let_def)
  then show "file_byte t ino = file_byte s ino" by blast
qed

text \<open>A block that is mapped is found without allocating.\<close>

lemma addr_mapped:
  assumes "bmap (cache s) (ic_addrs c) (unat i) \<noteq> 0"
  shows "xv6_inode_addr modcheck c i True s = xv6_inode_addr modcheck c i False s"
proof -
  let ?c = "c\<lparr>ic_dirty := False\<rparr>" and ?k = "unat (i - of_nat NDIRECT)"
  have "inode_addr_indirect modcheck ?c ?k True s = inode_addr_indirect modcheck ?c ?k False s"
    if d: "\<not> unat i < NDIRECT"
  proof -
    have k: "?k = unat i - NDIRECT" using d by (simp add: unat_sub word_le_unat NDIRECT_def)
    then have "rd32 (cache s (ic_addrs c ! NDIRECT)) (4 * ?k) \<noteq> 0"
      using assms d by (auto simp: bmap_def split: if_splits)
    then show ?thesis
      by (cases rule: sb_bread_cases [of "ic_addrs c ! NDIRECT" s])
        (auto simp: inode_addr_indirect_def modcheck_def checker_bread_def checker_data_def b_data_def Let_def)
  qed
  moreover have "unat i < NDIRECT \<Longrightarrow> ic_addrs c ! unat i \<noteq> 0"
    "\<not> unat i < NDIRECT \<Longrightarrow> ic_addrs c ! NDIRECT \<noteq> 0"
    using assms by (auto simp: bmap_def split: if_splits)
  ultimately show ?thesis by (simp add: xv6_inode_addr_def Let_def)
qed

lemma inode_wblock_cases:
  assumes fok: "file_ok s ino" and small: "fi_size (info s) \<le> 8192" and i: "unat i < MAXFILE"
  obtains (ok) b t where "xv6_inode_wblock ino i s = Some (0, Some b, t)" "file_step s ino (brelse b t)"
      "file_byte (brelse b t) ino = file_byte s ino" "file_map t ino (unat i) = b" "b \<noteq> 0"
  | (fail) e t where "xv6_inode_wblock ino i s = Some (e, None, t)" "e \<noteq> 0" "file_step s ino t"
      "file_byte t ino = file_byte s ino" "fault_free s \<longrightarrow> file_map s ino (unat i) = 0"
proof -
  let ?c = "\<lparr>ic_addrs = dir_addrs s ino, ic_size = ucast (i_size (inodes s ino)), ic_dirty = False\<rparr>"
  from fok have k: "kinv (frame_of s) s" and p: "i_private (inodes s ino) = Some (dir_addrs s ino)"
    and wf: "file_wf (cache s) (free_blocks s \<union> meta_blocks s) (ic_addrs ?c)"
    and sz: "unat (i_size (inodes s ino)) \<le> 274432" by (auto simp: file_ok_def file_limit)
  have "xv6_inode_addr modcheck ?c i True s \<noteq> None"
  proof
    assume "xv6_inode_addr modcheck ?c i True s = None"
    from kdev.addr_None [OF k this] obtain t where t: "kinv (frame_of s) t" "xv6_balloc 0 t = None"
      by (auto simp: modcheck_def)
    then have "info t = info s" by (auto simp: kinv_def frame_of_def)
    then show False using balloc_total [OF t(1)] t(2) small by simp
  qed
  then obtain e b c' s1 where A: "xv6_inode_addr modcheck ?c i True s = Some (e, b, c', s1)" by auto
  note AL = kdev.addr_alloc [OF k wf A, simplified]
  define s2 where "s2 = ictx_alias ino c' s1"
  let ?a = "ic_addrs c'" and ?U = "\<lambda>d. upd_inode ino (\<lambda>i. i\<lparr>i_private := Some (ic_addrs c'), i_dirty := d\<rparr>) s1"
  note G = file_grown [OF fok AL(1,2) refl]
  have s2: "s2 = ?U (i_dirty (inodes s ino))"
    unfolding s2_def ictx_alias_def using G(3) p by (cases "inodes s ino") (simp add: upd_inode_def)
  have ffree: "e = 0" if "fault_free s" "file_map s ino (unat i) \<noteq> 0"
  proof -
    have nf: "no_faults modcheck quiet s"
      using that(1) by (auto simp: no_faults_def fault_free_def modcheck_def checker_bread_def sb_bread_def quietD)
    have "xv6_inode_addr modcheck ?c i False s = Some (e, b, c', s1)"
      using A addr_mapped [of s ?c i] that(2) by simp
    with nf i show ?thesis using kro.addr_ro [of ?c i s "e = 0"] by simp
  qed
  have run: "xv6_inode_wblock ino i s = (if e \<noteq> 0 then Some (e, None, s2) else do {
       let (bh, s) = (if b \<noteq> 0 then sb_bread b s2 else (None, s2));
       let error = (if b \<noteq> 0 then (if bh = None then - EIO else 0) else - ENOSPC);
       (error, s) \<leftarrow> (if error = 0 then xv6_ictx_dirty ino c' s else Some (error, s));
       Some (error, bh, s) })"
    by (simp add: xv6_inode_wblock_def xv6_init_ictx_def xv6_inode_ctx_init_def p A s2_def Let_def)
  show thesis
  proof (cases "e = 0")
    case False
    then show thesis using fail [of e s2] run ffree G(1,2) s2 by auto
  next
    case True
    have b: "b \<noteq> 0" "b = bmap (cache s1) ?a (unat i)" using AL(4) True by auto
    show thesis
    proof (cases rule: sb_bread_cases [of b s2])
      case bad: (fail t)
      have v: "file_step s ino t" "file_byte t ino = file_byte s ino"
        using file_step_view [OF G(1) [of "i_dirty (inodes s ino)"], of t] quietD [OF bad(2)] G(2) s2 by auto
      have "\<not> fault_free s"
        using bad(1) file_stepD(2) [OF G(1)] s2 by (auto simp: fault_free_def sb_bread_def split: if_splits)
      then show thesis using fail [of "- EIO" t] run True b(1) bad(1) v by simp
    next
      case good: (ok t)
      have sze: "ucast (ucast (i_size (inodes s ino)) :: u32) = i_size (inodes s ino)"
      proof -
        have "unat (ucast (i_size (inodes s ino)) :: u32) = unat (i_size (inodes s ino))"
          using sz by (simp add: unsigned_ucast_eq unsigned_take_bit_eq take_bit_nat_eq_self)
        then show ?thesis by (simp add: word_unat_eq_iff)
      qed
      define d where "d = (ic_dirty c' \<or> i_dirty (inodes s ino))"
      have it: "inodes t ino = (inodes s ino)\<lparr>i_private := Some ?a\<rparr>"
        using good(2) G(3) s2 by simp
      obtain u where u: "xv6_ictx_dirty ino c' t = Some (0, u)" "u = t\<lparr>inodes := inodes (?U d)\<rparr>"
      proof (cases "ic_dirty c'")
        case True
        have "xv6_ictx_dirty ino c' t = Some (0, t\<lparr>inodes := inodes (?U d)\<rparr>)"
          using True it good(2) G(3) s2 AL(6) sze
          by (simp add: xv6_ictx_dirty_def mark_inode_dirty_def upd_inode_def Let_def d_def)
        then show thesis using that by blast
      next
        case False
        then have "t = t\<lparr>inodes := inodes (?U d)\<rparr>" using good(2) s2 d_def by (simp add: upd_inode_def)
        with False show thesis using that [of t] by (simp add: xv6_ictx_dirty_def)
      qed
      have v: "file_step s ino (brelse b u)" "file_byte (brelse b u) ino = file_byte s ino"
        using file_step_view [OF G(1) [of d], of "brelse b u"] G(2) [of d] good(2) s2
        by (auto simp: brelse_def u(2) upd_inode_def)
      have "dir_addrs u ino = ?a" by (simp add: dir_addrs_def u(2))
      then have "file_map u ino (unat i) = b" using b(2) good(2) s2 by (simp add: u(2))
      then show thesis using ok [of b u] run True b(1) good(1) u(1) v by simp
    qed
  qed
qed

section \<open>The loop\<close>

text \<open>Copying a chunk into a block writes the bytes at its positions.\<close>

lemma chunk_iff:
  assumes "n \<le> 1024 - p mod 1024"
  shows "x div 1024 = p div 1024 \<and> p mod 1024 \<le> x mod 1024 \<and> x mod 1024 < p mod 1024 + n
    \<longleftrightarrow> p \<le> x \<and> x < p + (n :: nat)"
proof
  assume h: "x div 1024 = p div 1024 \<and> p mod 1024 \<le> x mod 1024 \<and> x mod 1024 < p mod 1024 + n"
  have "p = p div 1024 * 1024 + p mod 1024" "x = p div 1024 * 1024 + x mod 1024"
    using h by (metis div_mult_mod_eq)+
  then show "p \<le> x \<and> x < p + n" using h by linarith
next
  assume h: "p \<le> x \<and> x < p + n"
  define j where "j = x - p"
  have x: "x = p + j" and j: "j < n" using h by (auto simp: j_def)
  show "x div 1024 = p div 1024 \<and> p mod 1024 \<le> x mod 1024 \<and> x mod 1024 < p mod 1024 + n"
    unfolding x using chunk_pos [OF j assms] j by simp
qed

definition written :: "u32 \<Rightarrow> nat \<Rightarrow> bytes \<Rightarrow> fs \<Rightarrow> fs" where
  "written b boff data t = brelse b (snd (sync_dirty_buffer b (mark_buffer_dirty b
     (b_store b (put (b_data b t) boff data) (tick t)))))"

lemma written_chunk:
  assumes st: "file_step s ino (brelse b t)" "file_byte (brelse b t) ino = file_byte s ino"
    and b: "file_map t ino (p div 1024) = b" "b \<noteq> 0"
    and d: "length data \<le> 1024 - p mod 1024"
  shows "file_step s ino (written b (p mod 1024) data t)"
    "file_byte (written b (p mod 1024) data t) ino
       = (\<lambda>x. if p \<le> x \<and> x < p + length data then data ! (x - p) else file_byte s ino x)"
proof -
  let ?t = "brelse b t" and ?d = "put (cache t b) (p mod 1024) data" and ?w = "written b (p mod 1024) data t"
  have m: "file_map ?t ino (p div 1024) = b" using b by (simp add: brelse_def dir_addrs_def)
  note S = file_store [OF st(1) m b(2) refl, of ?d]
  let ?u = "?t\<lparr>cache := (cache ?t)(b := ?d)\<rparr>"
  have v: "cache ?w = cache ?u" "inodes ?w = inodes ?u" "info ?w = info ?u" "env ?w = env ?u"
      "refs ?w = refs ?u" "balloc_hint ?w = balloc_hint ?u" "balloc_lock ?w = balloc_lock ?u"
    by (simp_all add: written_def sync_dirty_buffer_def mark_buffer_dirty_def b_store_def b_data_def tick_def
        brelse_def Let_def)
  note V = file_step_view [OF S(1) v]
  show "file_step s ino ?w" by (rule V(1))
  show "file_byte ?w ino = (\<lambda>x. if p \<le> x \<and> x < p + length data then data ! (x - p) else file_byte s ino x)"
  proof
    fix x
    note ch = chunk_iff [OF d, of x]
    show "file_byte ?w ino x = (if p \<le> x \<and> x < p + length data then data ! (x - p) else file_byte s ino x)"
    proof (cases "x div 1024 = p div 1024")
      case True
      have old: "file_byte s ino x = cache t b (x mod 1024)"
      proof -
        have "file_byte s ino x = file_byte ?t ino x" using st(2) by simp
        also have "\<dots> = cache ?t b (x mod 1024)" using m b(2) True by (simp add: file_byte_def Let_def)
        finally show ?thesis by (simp add: brelse_def)
      qed
      have idx: "x mod 1024 - p mod 1024 = x - p" if "p \<le> x" "x < p + length data"
      proof -
        have "p = p div 1024 * 1024 + p mod 1024" "x = p div 1024 * 1024 + x mod 1024"
          using True by (metis div_mult_mod_eq)+
        then show ?thesis by linarith
      qed
      show ?thesis
        unfolding V(2) S(2) using True ch idx old by (auto simp: put_def)
    next
      case False
      then show ?thesis unfolding V(2) S(2) st(2) using ch by auto
    qed
  qed
qed

lemma write_step:
  assumes "len \<noteq> 0" "xv6_inode_wblock ino block s = Some (0, Some b, t)"
    and lb: "unat w \<le> length buf"
    and w: "w = (if ucast (of_nat BSIZE - boff :: u32) > len then len else ucast (of_nat BSIZE - boff))"
  obtains (stop) e data where "e \<noteq> 0" "length data = unat w" "\<not> fault_free t"
      "write_loop ino block boff len cpos nwrite buf s = Some (e, nwrite, cpos, written b (unat boff) data t)"
  | (go) "write_loop ino block boff len cpos nwrite buf s
      = write_loop ino (block + 1) 0 (len - w) (cpos + w) (nwrite + uint w) (drop (unat w) buf)
          (written b (unat boff) (take (unat w) buf) t)"
proof -
  let ?f = "env_fault (env t) (now t)" and ?k = "min (unat w) (env_copied (env t) (now t))"
  let ?data = "if ?f then take ?k buf @ replicate (unat w - ?k) 0 else take (unat w) buf"
  let ?u = "mark_buffer_dirty b (b_store b (put (b_data b t) (unat boff) ?data) (tick t))"
  obtain e u where sy: "sync_dirty_buffer b ?u = (e, u)" by (cases "sync_dirty_buffer b ?u")
  have fin: "brelse b u = written b (unat boff) ?data t" by (simp add: written_def sy)
  have r: "write_loop ino block boff len cpos nwrite buf s =
      (if ?f then Some (- EFAULT, nwrite, cpos, written b (unat boff) ?data t)
       else if e \<noteq> 0 then Some (e, nwrite, cpos, written b (unat boff) ?data t)
       else write_loop ino (block + 1) 0 (len - w) (cpos + w) (nwrite + uint w) (drop (unat w) buf)
          (written b (unat boff) ?data t))"
    unfolding fin [symmetric]
    by (subst write_loop.simps, unfold Let_def w [symmetric], cases ?f)
      (use assms(1,2) sy in \<open>simp_all add: b_data_def tick_def\<close>)
  have len: "length ?data = unat w"
    using lb by (simp add: min_def)
  show thesis
  proof (cases "?f \<or> e \<noteq> 0")
    case True
    have "\<not> fault_free t"
    proof
      assume "fault_free t"
      then have "\<not> ?f" "e = 0" using sy
        by (auto simp: fault_free_def sync_dirty_buffer_def mark_buffer_dirty_def b_store_def tick_def Let_def split: if_splits)
      then show False using True by simp
    qed
    then show thesis using stop [of "if ?f then - EFAULT else e" ?data] True len r by auto
  next
    case False
    then show thesis using go r by simp
  qed
qed

lemma write_loop_spec:
  assumes "file_ok s ino" "fi_size (info s) \<le> 8192" "unat cpos + unat len \<le> MAXFILE * BSIZE" "length buf = unat len"
    and "len \<noteq> 0 \<Longrightarrow> unat block = unat cpos div 1024 \<and> unat boff = unat cpos mod 1024"
  shows "\<exists>e k t. write_loop ino block boff len cpos nwrite buf s = Some (e, nwrite + int k, cpos + of_nat k, t)
    \<and> file_step s ino t \<and> k \<le> unat len \<and> (e = 0 \<longrightarrow> k = unat len)
    \<and> (\<forall>x. unat cpos \<le> x \<and> x < unat cpos + k \<longrightarrow> file_byte t ino x = buf ! (x - unat cpos))
    \<and> (\<forall>x. x < unat cpos \<or> unat cpos + unat len \<le> x \<longrightarrow> file_byte t ino x = file_byte s ino x)
    \<and> (fault_free s \<longrightarrow> (\<forall>x. unat cpos \<le> x \<and> x < unat cpos + unat len \<longrightarrow> file_map s ino (x div 1024) \<noteq> 0) \<longrightarrow> e = 0)"
  using assms
proof (induction "unat len" arbitrary: len block boff cpos nwrite buf s rule: less_induct)
  case less
  let ?p = "unat cpos"
  show ?case
  proof (cases "len = 0")
    case True
    then have "write_loop ino block boff len cpos nwrite buf s = Some (0, nwrite, cpos, s)"
      by (subst write_loop.simps) simp
    then show ?thesis using True file_step_refl [OF less(2)]
      by (intro exI [of _ 0] exI [of _ "0::nat"] exI [of _ s]) auto
  next
    case False
    note c = less(6) [OF False]
    have sz: "?p + unat len \<le> 274432" using less(4) by (simp add: file_limit)
    have l0: "0 < unat len" using False by (simp add: word_eq_unat)
    then have ib: "unat block < MAXFILE" using c sz by (simp add: MAXFILE_val less_mult_imp_div_less)
    define n where "n = min (1024 - ?p mod 1024) (unat len)"
    define w where "w = (if ucast (of_nat BSIZE - boff :: u32) > len then len else ucast (of_nat BSIZE - boff :: u32))"
    have pm: "?p mod 1024 < 1024" by simp
    have w: "unat w = n" using rest_of_block [of boff] c pm by (auto simp: w_def n_def word_less_nat_alt)
    note N = next_chunk [OF sz n_def False w conjunct1 [OF c]]
    have nle: "n \<le> 1024 - ?p mod 1024" "n \<le> unat len" by (simp_all add: n_def)
    show ?thesis
    proof (cases rule: inode_wblock_cases [OF less(2,3) ib])
      case wb: (1 b t)
      have m: "file_map t ino (?p div 1024) = b" using wb(4) c by simp
      note ch = written_chunk [OF wb(2,3) m wb(5)]
      have lb: "unat w \<le> length buf" using w nle less(5) by simp
      show ?thesis
      proof (cases rule: write_step [OF False wb(1) lb w_def, of cpos nwrite])
        case st: (1 e data)
        have d: "length data \<le> 1024 - ?p mod 1024" using st(2) w nle by simp
        note C = ch [OF d]
        have "\<not> fault_free s" using st(3) file_stepD(2) [OF wb(2)] by (simp add: fault_free_def brelse_def)
        then show ?thesis
          using st(1,4) c C st(2) w nle
          by (intro exI [of _ e] exI [of _ "0::nat"] exI [of _ "written b (?p mod 1024) data t"]) auto
      next
        case go: 2
        let ?t = "written b (?p mod 1024) (take (unat w) buf) t"
        have tl: "length (take (unat w) buf) = n" using lb w by simp
        note C = ch [of "take (unat w) buf", unfolded tl, OF nle(1)]
        have "\<exists>e k u. write_loop ino (block + 1) 0 (len - w) (cpos + w) (nwrite + uint w) (drop (unat w) buf) ?t
            = Some (e, nwrite + uint w + int k, cpos + w + of_nat k, u)
          \<and> file_step ?t ino u \<and> k \<le> unat (len - w) \<and> (e = 0 \<longrightarrow> k = unat (len - w))
          \<and> (\<forall>x. unat (cpos + w) \<le> x \<and> x < unat (cpos + w) + k \<longrightarrow> file_byte u ino x = drop (unat w) buf ! (x - unat (cpos + w)))
          \<and> (\<forall>x. x < unat (cpos + w) \<or> unat (cpos + w) + unat (len - w) \<le> x \<longrightarrow> file_byte u ino x = file_byte ?t ino x)
          \<and> (fault_free ?t \<longrightarrow> (\<forall>x. unat (cpos + w) \<le> x \<and> x < unat (cpos + w) + unat (len - w) \<longrightarrow>
                file_map ?t ino (x div 1024) \<noteq> 0) \<longrightarrow> e = 0)"
        proof (rule less(1))
          show "unat (len - w) < unat len" using N(2,3) l0 by simp
          show "file_ok ?t ino" "fi_size (info ?t) \<le> 8192" using file_stepD(1,3) [OF C(1)] less(3) by simp_all
          show "unat (cpos + w) + unat (len - w) \<le> MAXFILE * BSIZE" using N(1,2) less(4) nle by simp
          show "length (drop (unat w) buf) = unat (len - w)" using less(5) w N(2) by simp
          show "len - w \<noteq> 0 \<Longrightarrow> unat (block + 1) = unat (cpos + w) div 1024 \<and> unat (0 :: u32) = unat (cpos + w) mod 1024"
            using N(4) by simp
        qed
        then obtain e k u where M: "write_loop ino (block + 1) 0 (len - w) (cpos + w) (nwrite + uint w) (drop (unat w) buf) ?t
            = Some (e, nwrite + uint w + int k, cpos + w + of_nat k, u)"
          "file_step ?t ino u" "k \<le> unat len - n" "e = 0 \<longrightarrow> k = unat len - n"
          "\<forall>x. ?p + n \<le> x \<and> x < ?p + n + k \<longrightarrow> file_byte u ino x = drop n buf ! (x - (?p + n))"
          "\<forall>x. x < ?p + n \<or> ?p + n + (unat len - n) \<le> x \<longrightarrow> file_byte u ino x = file_byte ?t ino x"
          "fault_free ?t \<longrightarrow> (\<forall>x. ?p + n \<le> x \<and> x < ?p + n + (unat len - n) \<longrightarrow> file_map ?t ino (x div 1024) \<noteq> 0) \<longrightarrow> e = 0"
          unfolding N(1,2) w by blast
        have L5: "file_byte u ino x = buf ! (x - ?p)" if "?p + n \<le> x" "x < ?p + n + k" for x
        proof -
          have "n \<le> length buf" "n + (x - (?p + n)) = x - ?p" using that(1) lb w by simp_all
          then show ?thesis using M(5) that by (simp add: nth_drop)
        qed
        have e2: "?p + n + (unat len - n) = ?p + unat len" using nle(2) by simp
        note L = M(1-4) and L6 = M(6) [unfolded e2, THEN spec] and L7 = M(7) [unfolded e2]
        have uw: "uint w = int n" "of_nat n = w" using w by auto
        have r: "write_loop ino block boff len cpos nwrite buf s = Some (e, nwrite + int (n + k), cpos + of_nat (n + k), u)"
          using go L(1) c uw by (simp add: algebra_simps)
        have low: "file_byte u ino x = buf ! (x - ?p)" if "?p \<le> x" "x < ?p + (n + k)" for x
          using that L5 [of x] L6 [of x] C(2) w tl lb by (cases "x < ?p + n") auto
        have far: "file_byte u ino x = file_byte s ino x" if "x < ?p \<or> ?p + unat len \<le> x" for x
          using that L6 [of x] C(2) tl nle by auto
        have "fault_free s \<longrightarrow> (\<forall>x. ?p \<le> x \<and> x < ?p + unat len \<longrightarrow> file_map s ino (x div 1024) \<noteq> 0) \<longrightarrow> e = 0"
        proof (intro impI)
          assume ff: "fault_free s" and mp: "\<forall>x. ?p \<le> x \<and> x < ?p + unat len \<longrightarrow> file_map s ino (x div 1024) \<noteq> 0"
          have "file_map ?t ino (x div 1024) \<noteq> 0" if "?p + n \<le> x" "x < ?p + unat len" for x
          proof -
            have "file_map s ino (x div 1024) \<noteq> 0" using mp that by simp
            then show ?thesis using file_stepD(8) [OF C(1)] by simp
          qed
          then show "e = 0" using L7 ff file_stepD(5) [OF C(1)] by simp
        qed
        then show ?thesis
          using r low far file_step_trans [OF C(1) L(2)] L(3,4) nle
          by (intro exI [of _ e] exI [of _ "n + k"] exI [of _ u]) auto
      qed
    next
      case bad: (2 e t)
      have "write_loop ino block boff len cpos nwrite buf s = Some (e, nwrite, cpos, t)"
        using False bad(1,2) by (subst write_loop.simps) simp
      then show ?thesis using bad c l0
        by (intro exI [of _ e] exI [of _ "0::nat"] exI [of _ t]) auto
    qed
  qed
qed


section \<open>Writing\<close>

text \<open>Unlocking a file and setting its size.\<close>

lemma file_close_write:
  assumes st: "file_step (up_rwsem ino Exclusive s) ino t" and c: "unat c \<le> MAXFILE * BSIZE"
    and u: "u = up_rwsem ino Unlocked (upd_inode ino (\<lambda>i. i\<lparr>i_size := (if i_size i < c then c else i_size i)\<rparr>) t)"
  shows "file_ok u ino" "file_byte u ino = file_byte t ino"
    "i_size (inodes u ino) = max (i_size (inodes s ino)) c" "refs u = refs s" "env u = env s" "cache u = cache t"
    "i_rwsem (inodes u ino) = Unlocked" "j \<noteq> ino \<Longrightarrow> inodes u j = inodes s j"
    "b \<notin> free_blocks s \<Longrightarrow> b \<notin> bitmap_blocks (info s) \<Longrightarrow> b \<notin> file_owned s ino \<Longrightarrow> cache u b = cache s b"
    "info u = info s" "free_blocks u \<subseteq> free_blocks s"
    "file_owned u ino \<subseteq> file_owned s ino \<union> (free_blocks s - free_blocks u)"
proof -
  let ?m = "upd_inode ino (\<lambda>i. i\<lparr>i_size := (if i_size i < c then c else i_size i)\<rparr>) t"
  let ?L = "up_rwsem ino Exclusive s"
  have a: "dir_addrs ?m ino = dir_addrs t ino" by (simp add: dir_addrs_def)
  have "unat (if i_size (inodes t ino) < c then c else i_size (inodes t ino)) \<le> MAXFILE * BSIZE"
    using file_stepD(1) [OF st] c by (simp add: file_ok_def)
  then have "file_ok ?m ino"
    using file_stepD(1) [OF st] unfolding file_ok_def a kinv_self by simp
  then show "file_ok u ino" by (simp add: u rwsem_upd)
  show "file_byte u ino = file_byte t ino"
    unfolding u rwsem_upd by (simp add: file_byte_def a fun_eq_iff Let_def)
  show "i_size (inodes u ino) = max (i_size (inodes s ino)) c"
    using file_stepD(9) [OF st] by (auto simp: u up_rwsem_def max_def)
  show "refs u = refs s" "env u = env s"
    using file_stepD(2,4) [OF st] by (simp_all add: u up_rwsem_def)
  show "cache u = cache t" by (simp add: u up_rwsem_def)
  show "i_rwsem (inodes u ino) = Unlocked" by (simp add: u up_rwsem_def)
  show "j \<noteq> ino \<Longrightarrow> inodes u j = inodes s j"
    using st by (simp add: u up_rwsem_def file_step_def)
  have L: "free_blocks ?L = free_blocks s" "info ?L = info s" "cache ?L = cache s"
    by (simp_all add: up_rwsem_def)
  have au: "dir_addrs u ino = dir_addrs t ino" using a rwsem_upd(4) u by simp
  have fu: "free_blocks u = free_blocks t" by (simp add: u up_rwsem_def)
  show "info u = info s" using file_stepD(3) [OF st] by (simp add: u up_rwsem_def)
  show "free_blocks u \<subseteq> free_blocks s" using st unfolding file_step_def L fu by blast
  have "file_owned t ino \<subseteq> file_owned s ino \<union> (free_blocks s - free_blocks t)"
    using st unfolding file_step_def L rwsem_upd by blast
  then show "file_owned u ino \<subseteq> file_owned s ino \<union> (free_blocks s - free_blocks u)"
    unfolding fu au by (simp add: u up_rwsem_def)
  show "cache u b = cache s b" if "b \<notin> free_blocks s" "b \<notin> bitmap_blocks (info s)" "b \<notin> file_owned s ino"
  proof -
    have "cache t b = cache ?L b"
      using st that unfolding file_step_def L rwsem_upd by metis
    then show ?thesis by (simp add: u up_rwsem_def)
  qed
qed

lemma write_run:
  assumes "file_ok s ino" and "i_rwsem (inodes s ino) = Unlocked" and "fi_size (info s) \<le> 8192"
    and "p = (if o_append then i_size (inodes s ino) else pos)"
    and "unat p + unat len \<le> MAXFILE * BSIZE" and "length buf = unat len"
  obtains e k t u where "xv6_file_write o_append ino buf len pos s
      = Some (if e \<noteq> 0 \<and> int k \<le> 0 then e else int k, p + of_nat k, u)"
    "k \<le> unat len" "e = 0 \<longrightarrow> k = unat len"
    "\<forall>x. unat p \<le> x \<and> x < unat p + k \<longrightarrow> file_byte u ino x = buf ! (x - unat p)"
    "\<forall>x. x < unat p \<or> unat p + unat len \<le> x \<longrightarrow> file_byte u ino x = file_byte s ino x"
    "fault_free s \<longrightarrow> (\<forall>x. unat p \<le> x \<and> x < unat p + unat len \<longrightarrow> file_map s ino (x div 1024) \<noteq> 0) \<longrightarrow> e = 0"
    "file_step (up_rwsem ino Exclusive s) ino t"
    "u = up_rwsem ino Unlocked (upd_inode ino (\<lambda>i. i\<lparr>i_size := (if i_size i < p + of_nat k then p + of_nat k else i_size i)\<rparr>) t)"
    "unat (p + of_nat k) \<le> MAXFILE * BSIZE"
proof -
  let ?L = "up_rwsem ino Exclusive s"
  have p: "unat p \<le> 274432" using assms(5) by (simp add: file_limit)
  have "\<exists>e k t. write_loop ino (ucast (p div of_nat BSIZE)) (ucast (p mod of_nat BSIZE)) len p 0 buf ?L
      = Some (e, 0 + int k, p + of_nat k, t)
    \<and> file_step ?L ino t \<and> k \<le> unat len \<and> (e = 0 \<longrightarrow> k = unat len)
    \<and> (\<forall>x. unat p \<le> x \<and> x < unat p + k \<longrightarrow> file_byte t ino x = buf ! (x - unat p))
    \<and> (\<forall>x. x < unat p \<or> unat p + unat len \<le> x \<longrightarrow> file_byte t ino x = file_byte ?L ino x)
    \<and> (fault_free ?L \<longrightarrow> (\<forall>x. unat p \<le> x \<and> x < unat p + unat len \<longrightarrow> file_map ?L ino (x div 1024) \<noteq> 0) \<longrightarrow> e = 0)"
    by (rule write_loop_spec) (use assms small_div [OF p] in \<open>simp_all add: rwsem_upd\<close>, simp add: up_rwsem_def)
  then obtain e k t where W: "write_loop ino (ucast (p div of_nat BSIZE)) (ucast (p mod of_nat BSIZE)) len p 0 buf ?L
      = Some (e, int k, p + of_nat k, t)"
    "file_step ?L ino t" "k \<le> unat len" "e = 0 \<longrightarrow> k = unat len"
    "\<forall>x. unat p \<le> x \<and> x < unat p + k \<longrightarrow> file_byte t ino x = buf ! (x - unat p)"
    "\<forall>x. x < unat p \<or> unat p + unat len \<le> x \<longrightarrow> file_byte t ino x = file_byte s ino x"
    "fault_free s \<longrightarrow> (\<forall>x. unat p \<le> x \<and> x < unat p + unat len \<longrightarrow> file_map s ino (x div 1024) \<noteq> 0) \<longrightarrow> e = 0"
    unfolding rwsem_upd by (auto simp: up_rwsem_def)
  let ?c = "p + of_nat k"
  let ?u = "up_rwsem ino Unlocked (upd_inode ino (\<lambda>i. i\<lparr>i_size := (if i_size i < ?c then ?c else i_size i)\<rparr>) t)"
  have "unat ?c \<le> unat p + k"
    by (simp add: unat_word_ariths(1) unat_of_nat mod_add_right_eq)
  then have c: "unat ?c \<le> MAXFILE * BSIZE" using W(3) assms(5) by simp
  note C = file_close_write [OF W(2) c refl]
  have r: "xv6_file_write o_append ino buf len pos s
      = Some (if e \<noteq> 0 \<and> int k \<le> 0 then e else int k, ?c, ?u)"
    using assms(2) W(1) unfolding xv6_file_write_def Let_def assms(4) [symmetric]
    by (simp add: down_write_def up_rwsem_def [of ino Exclusive, symmetric] Let_def)
  show thesis
    by (rule that [OF r W(3,4) _ _ W(7) W(2) refl c]) (use W(5,6) in \<open>simp_all add: C(2)\<close>)
qed

text \<open>
  C4. A write within the largest file size stores a prefix of the buffer at the position (the end
  of the file with \<^verbatim>\<open>O_APPEND\<close>) and returns its length, or an error when nothing was
  written. Bytes outside the range asked for, other inodes and blocks that are neither free, nor
  metadata, nor the file's own are unchanged; the size grows to the end of the
  prefix; the file's invariant is kept. Without faults, a write to blocks the file
  has already is complete.
\<close>

theorem file_write_content:
  assumes "file_ok s ino" and "i_rwsem (inodes s ino) = Unlocked" and "fi_size (info s) \<le> 8192"
    and "p = (if o_append then i_size (inodes s ino) else pos)"
    and "unat p + unat len \<le> MAXFILE * BSIZE" and "length buf = unat len"
  shows "\<exists>r k t. xv6_file_write o_append ino buf len pos s = Some (r, p + of_nat k, t)
    \<and> k \<le> unat len \<and> (r = int k \<and> (k = unat len \<or> 0 < k) \<or> k = 0 \<and> r \<noteq> 0)
    \<and> file_ok t ino \<and> i_size (inodes t ino) = max (i_size (inodes s ino)) (p + of_nat k)
    \<and> (\<forall>x. unat p \<le> x \<and> x < unat p + k \<longrightarrow> file_byte t ino x = buf ! (x - unat p))
    \<and> (\<forall>x. x < unat p \<or> unat p + unat len \<le> x \<longrightarrow> file_byte t ino x = file_byte s ino x)
    \<and> i_rwsem (inodes t ino) = Unlocked \<and> refs t = refs s \<and> env t = env s
    \<and> (\<forall>j. j \<noteq> ino \<longrightarrow> inodes t j = inodes s j)
    \<and> (\<forall>b. b \<notin> free_blocks s \<and> b \<notin> bitmap_blocks (info s) \<and> b \<notin> file_owned s ino \<longrightarrow> cache t b = cache s b)
    \<and> (fault_free s \<longrightarrow> (\<forall>x. unat p \<le> x \<and> x < unat p + unat len \<longrightarrow> file_map s ino (x div 1024) \<noteq> 0)
         \<longrightarrow> k = unat len \<and> r = int k)"
proof -
  obtain e k t u where R: "xv6_file_write o_append ino buf len pos s
      = Some (if e \<noteq> 0 \<and> int k \<le> 0 then e else int k, p + of_nat k, u)"
    "k \<le> unat len" "e = 0 \<longrightarrow> k = unat len"
    "\<forall>x. unat p \<le> x \<and> x < unat p + k \<longrightarrow> file_byte u ino x = buf ! (x - unat p)"
    "\<forall>x. x < unat p \<or> unat p + unat len \<le> x \<longrightarrow> file_byte u ino x = file_byte s ino x"
    "fault_free s \<longrightarrow> (\<forall>x. unat p \<le> x \<and> x < unat p + unat len \<longrightarrow> file_map s ino (x div 1024) \<noteq> 0) \<longrightarrow> e = 0"
    and st: "file_step (up_rwsem ino Exclusive s) ino t"
    and u: "u = up_rwsem ino Unlocked (upd_inode ino (\<lambda>i. i\<lparr>i_size := (if i_size i < p + of_nat k then p + of_nat k else i_size i)\<rparr>) t)"
    and c: "unat (p + of_nat k) \<le> MAXFILE * BSIZE"
    by (rule write_run [OF assms])
  note C = file_close_write [OF st c u]
  show ?thesis
  proof (intro exI conjI)
    show "xv6_file_write o_append ino buf len pos s
      = Some (if e \<noteq> 0 \<and> int k \<le> 0 then e else int k, p + of_nat k, u)" by (rule R(1))
    show "\<forall>b. b \<notin> free_blocks s \<and> b \<notin> bitmap_blocks (info s) \<and> b \<notin> file_owned s ino \<longrightarrow> cache u b = cache s b"
      using C(9) by blast
  qed (use R(2-6) C(1,3-5,7,8) in auto)
qed

text \<open>
  C6. What was written is read back: after a write that went through to the end of
  the buffer, a read of the same length from where the write started returns the buffer.
\<close>

theorem write_read_roundtrip:
  assumes "file_ok s ino" and "i_rwsem (inodes s ino) = Unlocked" and "fi_size (info s) \<le> 8192"
    and "p = (if o_append then i_size (inodes s ino) else pos)"
    and "unat p + unat len \<le> MAXFILE * BSIZE" and "length buf = unat len" and "fault_free s"
    and "xv6_file_write o_append ino buf len pos s = Some (r, p + len, t)"
  shows "\<exists>u. xv6_file_read ino len p t = Some (int (unat len), buf, p + len, u) \<and> quiet t u"
proof -
  obtain e k t' u where R: "xv6_file_write o_append ino buf len pos s
      = Some (if e \<noteq> 0 \<and> int k \<le> 0 then e else int k, p + of_nat k, u)"
    "k \<le> unat len" "e = 0 \<longrightarrow> k = unat len"
    "\<forall>x. unat p \<le> x \<and> x < unat p + k \<longrightarrow> file_byte u ino x = buf ! (x - unat p)"
    "file_step (up_rwsem ino Exclusive s) ino t'"
    "u = up_rwsem ino Unlocked (upd_inode ino (\<lambda>i. i\<lparr>i_size := (if i_size i < p + of_nat k then p + of_nat k else i_size i)\<rparr>) t')"
    "unat (p + of_nat k) \<le> MAXFILE * BSIZE"
    by (rule write_run [OF assms(1-6)])
  note C = file_close_write [OF R(5,7,6)]
  have t: "u = t" and w: "(of_nat k :: u64) = len" using R(1) assms(8) by auto
  have "k < 2 ^ 64" using R(2) assms(5) by (simp add: file_limit)
  then have "unat (of_nat k :: u64) = k" by (simp add: unat_of_nat)
  then have k: "k = unat len" unfolding w by simp
  have sz: "unat p + unat len \<le> unat (i_size (inodes t ino))"
  proof -
    have "p + len \<le> i_size (inodes t ino)" using C(3) t k by simp
    moreover have "unat (p + len) = unat p + unat len"
      using assms(5) by (simp add: unat_word_ariths(1) file_limit)
    ultimately show ?thesis by (simp add: word_le_nat_alt)
  qed
  have ok: "file_ok t ino" "i_rwsem (inodes t ino) \<noteq> Exclusive" "fault_free t"
    using C(1,5,7) assms(7) t by (simp_all add: fault_free_def)
  have "unat p \<le> unat (i_size (inodes t ino))" "unat len = min (unat len) (unat (i_size (inodes t ino)) - unat p)"
    using sz by simp_all
  then obtain e k u where "xv6_file_read ino len p t = Some (if e \<noteq> 0 \<and> int k \<le> 0 then e else int k,
      map (file_byte t ino) [unat p..<unat p + k], p + of_nat k, u)"
    "quiet t u" "e = 0 \<longrightarrow> k = unat len" "fault_free t \<longrightarrow> e = 0"
    by (rule read_run [OF ok(1,2)])
  moreover have "map (file_byte t ino) [unat p..<unat p + unat len] = buf"
    by (rule nth_equalityI) (use R(4) t k assms(6) in auto)
  ultimately show ?thesis using ok(3) by auto
qed

lemma dir_fs_write: "30 \<le> x \<and> x < 33 \<longrightarrow> file_map dir_fs 0 (x div 1024) \<noteq> 0"
    "i_rwsem (inodes dir_fs 0) = Unlocked" "fi_size (info dir_fs) \<le> 8192"
    "unat (30 :: u64) + unat (3 :: u64) \<le> MAXFILE * BSIZE"
  by (simp_all add: dir_fs_bmap) (simp_all add: dir_fs_def sample_inode_def sample_defs file_limit)

theorem file_write_content_witness:
  "\<exists>t. xv6_file_write False 0 [1, 2, 3] 3 30 dir_fs = Some (3, 33, t) \<and> i_size (inodes t 0) = 33
     \<and> file_byte t 0 32 = 3"
  using file_write_content [OF dir_fs_file(1) dir_fs_write(2,3) refl [of "if False then _ else 30"],
      of 3 "[1, 2, 3]"] dir_fs_write(1,4) dir_fs_file(3,4)
  by auto

theorem write_read_roundtrip_witness:
  "\<exists>t u. xv6_file_write False 0 [1, 2, 3] 3 30 dir_fs = Some (3, 33, t)
     \<and> xv6_file_read 0 3 30 t = Some (3, [1, 2, 3], 33, u)"
proof -
  have b: "unat (30 :: u64) + unat (3 :: u64) \<le> MAXFILE * BSIZE" "length [1, 2, 3 :: u8] = unat (3 :: u64)"
    by (simp_all add: file_limit)
  have p: "(30 :: u64) = (if False then i_size (inodes dir_fs 0) else 30)" by simp
  obtain e k t where "xv6_file_write False 0 [1, 2, 3] 3 30 dir_fs
      = Some (if e \<noteq> 0 \<and> int k \<le> 0 then e else int k, 30 + of_nat k, t)" "e = 0 \<longrightarrow> k = unat (3 :: u64)" "e = 0"
    using dir_fs_write(1) dir_fs_file(3)
    by (rule_tac write_run [OF dir_fs_file(1) dir_fs_write(2,3) p b]) auto
  then have w: "xv6_file_write False 0 [1, 2, 3] 3 30 dir_fs = Some (3, 30 + 3, t)" by simp
  from write_read_roundtrip [OF dir_fs_file(1) dir_fs_write(2,3) p b dir_fs_file(3) w] w
  show ?thesis by auto
qed

end
