(* ===== verification/File_Run.thy ===== *)
theory File_Run
  imports File_Write
begin

text \<open>
  Operations on several files. \<open>files_ok\<close> is the invariant of a set of files in memory: each
  satisfies its own invariant, and no block belongs to two of them. \<open>file_op\<close> is the step relation of
  the operations on files and directories, \<open>file_run\<close> their sequences in any order, and \<open>run_ok\<close> the invariant
  all of them keep.
\<close>

section \<open>The invariant\<close>

definition files_ok :: "iref set \<Rightarrow> fs \<Rightarrow> bool" where
  "files_ok F s \<longleftrightarrow> (\<forall>i\<in>F. file_ok s i) \<and> (\<forall>i\<in>F. \<forall>j\<in>F. i \<noteq> j \<longrightarrow> file_owned s i \<inter> file_owned s j = {})"

text \<open>A step on one file, as the others see it.\<close>

definition local_step :: "fs \<Rightarrow> iref \<Rightarrow> fs \<Rightarrow> bool" where
  "local_step s i t \<longleftrightarrow> file_ok t i \<and> info t = info s \<and> refs t = refs s \<and> free_blocks t \<subseteq> free_blocks s
     \<and> (\<forall>j. j \<noteq> i \<longrightarrow> inodes t j = inodes s j)
     \<and> file_owned t i \<subseteq> file_owned s i \<union> (free_blocks s - free_blocks t)
     \<and> (\<forall>b. b \<notin> free_blocks s \<longrightarrow> b \<notin> bitmap_blocks (info s) \<longrightarrow> b \<notin> file_owned s i \<longrightarrow> cache t b = cache s b)"

text \<open>A file does not notice changes to other inodes, to other blocks, or to the pool while its blocks stay out of it.\<close>

lemma file_ok_transfer:
  assumes j: "file_ok s j" and t: "kinv (frame_of t) t" "info t = info s" "file_owned s j \<inter> free_blocks t = {}"
    and i: "inodes t j = inodes s j" and same: "\<And>b. b \<in> file_owned s j \<Longrightarrow> cache t b = cache s b"
  shows "file_ok t j" "file_owned t j = file_owned s j" "file_byte t j = file_byte s j"
proof -
  have a: "dir_addrs t j = dir_addrs s j" by (simp add: dir_addrs_def i)
  have m: "meta_blocks t = meta_blocks s" by (simp add: meta_blocks_def t(2))
  have wf: "file_wf (cache s) (free_blocks s \<union> meta_blocks s) (dir_addrs s j)"
    using j by (simp add: file_ok_def)
  have bm: "file_map t j = file_map s j"
    unfolding a using ownedI(2) [of "dir_addrs s j" "cache s"] same by (intro bmap_view_cong) blast
  show o: "file_owned t j = file_owned s j" unfolding owned_def bm [unfolded a] a ..
  have "file_wf (cache t) (free_blocks t \<union> meta_blocks t) (dir_addrs s j)"
    using wf t(3) unfolding file_wf_def bm [unfolded a] m o [unfolded a] by blast
  then show "file_ok t j" using j t(1) i unfolding file_ok_def a by simp
  show "file_byte t j = file_byte s j"
  proof
    fix x
    show "file_byte t j x = file_byte s j x"
      unfolding file_byte_def bm using same ownedI(1) [of "cache s" "dir_addrs s j" "x div 1024"]
      by (auto simp: Let_def)
  qed
qed

lemma file_owned_apart:
  assumes "file_ok s j" "b \<in> file_owned s j"
  shows "b \<notin> free_blocks s" "b \<notin> meta_blocks s" "b \<notin> bitmap_blocks (info s)"
proof -
  have "file_wf (cache s) (free_blocks s \<union> meta_blocks s) (dir_addrs s j)" "wf_geom (info s)"
    using assms(1) by (auto simp: file_ok_def kinv_def)
  then show "b \<notin> free_blocks s" "b \<notin> meta_blocks s" "b \<notin> bitmap_blocks (info s)"
    using file_wfD(4) assms(2) bitmap_blocks_meta by blast+
qed

lemma local_other:
  assumes st: "local_step s i t" and j: "file_ok s j" "j \<noteq> i" "file_owned s i \<inter> file_owned s j = {}"
  shows "file_ok t j" "file_owned t j = file_owned s j" "file_byte t j = file_byte s j" "inodes t j = inodes s j"
proof -
  from st have ok: "kinv (frame_of t) t" and f: "info t = info s" "free_blocks t \<subseteq> free_blocks s" "inodes t j = inodes s j"
    and c: "\<And>b. b \<notin> free_blocks s \<Longrightarrow> b \<notin> bitmap_blocks (info s) \<Longrightarrow> b \<notin> file_owned s i \<Longrightarrow> cache t b = cache s b"
    using j(2) by (auto simp: local_step_def file_ok_def)
  show "inodes t j = inodes s j" by (rule f(3))
  have "cache t b = cache s b" if "b \<in> file_owned s j" for b
    using file_owned_apart [OF j(1) that] j(3) that by (intro c) auto
  then show "file_ok t j" "file_owned t j = file_owned s j" "file_byte t j = file_byte s j"
    using file_ok_transfer [OF j(1) ok f(1) _ f(3)] file_owned_apart(1) [OF j(1)] f(2) by blast+
qed

lemma local_files_ok:
  assumes F: "files_ok F s" "i \<in> F" and st: "local_step s i t"
  shows "files_ok F t"
proof -
  have oth: "file_ok t j \<and> file_owned t j = file_owned s j" if "j \<in> F" "j \<noteq> i" for j
  proof -
    have "file_ok s j" "file_owned s i \<inter> file_owned s j = {}" using F that by (auto simp: files_ok_def)
    then show ?thesis using local_other(1,2) [OF st _ that(2)] by blast
  qed
  have dis: "file_owned t i \<inter> file_owned t j = {}" if "j \<in> F" "j \<noteq> i" for j
  proof -
    have "file_owned s i \<inter> file_owned s j = {}" "file_wf (cache s) (free_blocks s \<union> meta_blocks s) (dir_addrs s j)"
      using F that by (auto simp: files_ok_def file_ok_def)
    then have "(file_owned s i \<union> (free_blocks s - free_blocks t)) \<inter> file_owned s j = {}"
      using file_wfD(4) by blast
    then show ?thesis using st oth [OF that] unfolding local_step_def by blast
  qed
  have "file_ok t i" using st by (simp add: local_step_def)
  then have "file_ok t j" if "j \<in> F" for j using oth [OF that] by (cases "j = i") auto
  moreover have "file_owned t j \<inter> file_owned t k = {}" if "j \<in> F" "k \<in> F" "j \<noteq> k" for j k
  proof -
    consider "j = i" | "k = i" | "j \<noteq> i" "k \<noteq> i" by blast
    then show ?thesis
    proof cases
      case 3
      have "file_owned s j \<inter> file_owned s k = {}" using F(1) that by (auto simp: files_ok_def)
      then show ?thesis using oth [OF that(1) 3(1)] oth [OF that(2) 3(2)] by simp
    qed (use dis [of k] dis [of j] that in auto)
  qed
  ultimately show ?thesis by (simp add: files_ok_def)
qed

lemma local_quiet: "file_ok s i \<Longrightarrow> quiet s t \<Longrightarrow> local_step s i t"
proof -
  assume ok: "file_ok s i" and q: "quiet s t"
  note Q = quietD [OF q] file_ok_quiet [OF q]
  have "free_blocks t = free_blocks s" by (simp add: free_blocks_def bm_used_def Q)
  then show "local_step s i t" using ok by (simp add: local_step_def Q)
qed

lemma local_dir_step:
  assumes "dir_step s i t" shows "local_step s i t"
  using assms dir_stepD(2,3) [OF assms] dir_file_ok [of t i] unfolding dir_step_def local_step_def by auto

lemma local_dir_grew:
  assumes "dir_grew s i t" shows "local_step s i t"
proof -
  have "file_ok t i" using assms dir_file_ok by (simp add: dir_grew_def)
  moreover have "inodes t j = inodes s j" if "j \<noteq> i" for j using assms that by (auto simp: dir_grew_def)
  ultimately show ?thesis using assms unfolding dir_grew_def local_step_def by blast
qed

lemma local_write:
  assumes "file_step (up_rwsem i Exclusive s) i t" "unat c \<le> MAXFILE * BSIZE"
    and "u = up_rwsem i Unlocked (upd_inode i (\<lambda>k. k\<lparr>i_size := (if i_size k < c then c else i_size k)\<rparr>) t)"
  shows "local_step s i u"
  unfolding local_step_def using file_close_write [OF assms] by blast

section \<open>Reads anywhere\<close>

text \<open>A read changes nothing, wherever it starts, behind the end of the file too.\<close>

lemma inode_block_quiet:
  assumes ok: "file_ok s ino" and run: "xv6_inode_block ino i s = Some (e, bh, t)"
  shows "bh = None \<and> quiet s t \<or> (\<exists>b. bh = Some b \<and> e = 0 \<and> quiet s (brelse b t))"
proof (cases "unat i < MAXFILE")
  case True
  show ?thesis by (cases rule: inode_block_cases [OF ok True]) (use run in auto)
next
  case False
  have "i_private (inodes s ino) = Some (dir_addrs s ino)" using ok by (simp add: file_ok_def)
  then have "xv6_inode_block ino i s = Some (- EFBIG, None, s)"
    using False by (simp add: xv6_inode_block_def xv6_init_ictx_def xv6_inode_ctx_init_def xv6_inode_addr_def alias_same Let_def)
  then show ?thesis using run by simp
qed

lemma quiet_tick [simp]: "quiet s (tick t) = quiet s t"
  by (cases s; cases t) (auto simp: quiet_def tick_def)

lemma read_loop_quiet:
  assumes run: "read_loop ino fsz block boff len cpos nread buf s = Some r" and ok: "file_ok s ino"
  shows "quiet s (snd (snd (snd (snd r))))"
proof -
  define P where "P = (\<lambda>ino (fsz :: u64) (block :: u32) (boff :: u32) (len :: u64) (cpos :: u64) (nread :: int) (buf :: bytes) s
    (r :: int \<times> int \<times> u64 \<times> bytes \<times> fs). file_ok s ino \<longrightarrow> quiet s (snd (snd (snd (snd r)))))"
  have "P ino fsz block boff len cpos nread buf s r"
  proof (rule read_loop.raw_induct [of P, OF _ run], unfold P_def, intro impI)
    fix F :: "iref \<Rightarrow> u64 \<Rightarrow> u32 \<Rightarrow> u32 \<Rightarrow> u64 \<Rightarrow> u64 \<Rightarrow> int \<Rightarrow> bytes \<Rightarrow> fs \<Rightarrow> (int \<times> int \<times> u64 \<times> bytes \<times> fs) option"
      and ino fsz block boff len cpos nread buf s r
    assume IH: "\<And>ino fsz block boff len cpos nread buf s r. F ino fsz block boff len cpos nread buf s = Some r \<Longrightarrow>
        file_ok s ino \<longrightarrow> quiet s (snd (snd (snd (snd r))))"
    assume body: "(if len = 0 then Some (0, nread, cpos, buf, s)
      else do {
        (error, bh, s) \<leftarrow> xv6_inode_block ino block s;
        if error \<noteq> 0 then Some (error, nread, cpos, buf, s)
        else do {
          let to_read = ucast (of_nat BSIZE - boff);
          let to_read = (if to_read > len then len else to_read);
          let to_read = (if to_read > fsz - cpos then fsz - cpos else to_read);
          let page_fault = env_fault (env s) (now s);
          let (data, s) = (case bh of
              None \<Rightarrow> (replicate (unat to_read) 0, tick s)
            | Some bh \<Rightarrow> (get (b_data bh s) (unat boff) (unat to_read), brelse bh (tick s)));
          if page_fault then Some (- EFAULT, nread, cpos, buf, s)
          else F ino fsz (block + 1) 0 (len - to_read) (cpos + to_read) (nread + uint to_read) (buf @ data) s
        }
      }) = Some r" and ok: "file_ok s ino"
    show "quiet s (snd (snd (snd (snd r))))"
    proof (cases "len = 0")
      case False
      with body obtain e bh t where b: "xv6_inode_block ino block s = Some (e, bh, t)" by (auto elim!: bind_SomeE)
      define v where "v = (case bh of None \<Rightarrow> tick t | Some b \<Rightarrow> brelse b (tick t))"
      have "brelse b (tick t) = tick (brelse b t)" for b by (simp add: brelse_def tick_def)
      then have q: "quiet s v" using inode_block_quiet [OF ok b] by (auto simp: v_def)
      have "e \<noteq> 0 \<longrightarrow> quiet s t" using inode_block_quiet [OF ok b] by auto
      moreover have "r = (e, nread, cpos, buf, t) \<and> e \<noteq> 0 \<or> snd (snd (snd (snd r))) = v \<or>
        (\<exists>fsz block boff len cpos nread buf. F ino fsz block boff len cpos nread buf v = Some r)"
        using body b False unfolding v_def Let_def by (auto split: option.splits if_splits)
      moreover have "quiet s (snd (snd (snd (snd r))))" if "F ino fsz block boff len cpos nread buf v = Some r" for fsz block boff len cpos nread buf
        using IH [OF that] file_ok_quiet(1) [OF q] ok quiet_trans [OF q] by simp
      ultimately show ?thesis using q by auto
    qed (use body in auto)
  qed
  then show ?thesis using ok by (simp add: P_def)
qed

lemma read_quiet:
  assumes ok: "file_ok s ino" and run: "xv6_file_read ino len pos s = Some (r, b, q, t)"
  shows "quiet s t"
proof -
  let ?L = "up_rwsem ino Shared s" and ?n = "i_size (inodes s ino) - pos"
  obtain x where "read_loop ino (i_size (inodes s ino)) (ucast (pos div of_nat BSIZE)) (ucast (pos mod of_nat BSIZE))
      (if len > ?n then ?n else len) pos 0 [] ?L = Some x"
    and t: "t = up_rwsem ino (i_rwsem (inodes s ino)) (snd (snd (snd (snd x))))"
    using run by (auto simp: xv6_file_read_def down_read_def up_rwsem_def [of ino Shared, symmetric] rwsem_upd Let_def
        elim!: bind_SomeE split: if_splits)
  from read_loop_quiet [OF this(1)] ok have "quiet ?L (snd (snd (snd (snd x))))" by (simp add: rwsem_upd)
  then show ?thesis unfolding t by (rule rwsem_upd(6))
qed

text \<open>
  Why writes are bounded: one that starts behind the largest file writes nothing and returns \<^verbatim>\<open>-EFBIG\<close>, but the
  file has grown to its position and is no longer well formed.
\<close>

lemma write_behind_grows:
  assumes ok: "file_ok s i" and un: "i_rwsem (inodes s i) = Unlocked" and len: "len \<noteq> 0"
    and pos: "MAXFILE * BSIZE < unat pos" "unat pos < 2 ^ 42"
  shows "\<exists>t. xv6_file_write False i buf len pos s = Some (- EFBIG, pos, t) \<and> i_size (inodes t i) = pos \<and> \<not> file_ok t i"
proof -
  let ?L = "up_rwsem i Exclusive s" and ?b = "ucast (pos div of_nat BSIZE) :: u32"
  have p: "i_private (inodes ?L i) = Some (dir_addrs s i)" using ok by (simp add: file_ok_def up_rwsem_def)
  have "274432 < unat pos" "unat pos < 4398046511104" using pos by (simp_all add: file_limit)
  then have b: "MAXFILE \<le> unat ?b" by (simp add: MAXFILE_val less_eq_div_iff_mult_less_eq)
  have w: "xv6_inode_wblock i ?b ?L = Some (- EFBIG, None, ?L)"
    using b p by (simp add: xv6_inode_wblock_def xv6_init_ictx_def xv6_inode_ctx_init_def xv6_inode_addr_def alias_same Let_def)
  have l: "write_loop i ?b (ucast (pos mod of_nat BSIZE)) len pos 0 buf ?L = Some (- EFBIG, 0, pos, ?L)"
    using len by (subst write_loop.simps) (simp add: w)
  let ?t = "up_rwsem i Unlocked (upd_inode i (\<lambda>k. k\<lparr>i_size := (if i_size k < pos then pos else i_size k)\<rparr>) ?L)"
  have run: "xv6_file_write False i buf len pos s = Some (- EFBIG, pos, ?t)"
    using un l by (simp add: xv6_file_write_def down_write_def up_rwsem_def [of i Exclusive, symmetric] Let_def)
  have "unat (i_size (inodes s i)) \<le> MAXFILE * BSIZE" using ok by (simp add: file_ok_def)
  then have "i_size (inodes s i) < pos" using pos(1) by (simp add: word_less_nat_alt)
  then have "i_size (inodes ?t i) = pos" by (simp add: up_rwsem_def)
  then show ?thesis using run pos(1) by (intro exI [of _ ?t]) (simp add: file_ok_def)
qed

section \<open>Runs\<close>

text \<open>
  What a run keeps: the files \<open>F\<close> satisfy \<open>files_ok\<close>, those in \<open>D\<close> are directories with a size
  that is a number of entries, nobody holds a lock of an inode, and the disk has one bitmap block.
\<close>

definition run_ok :: "iref set \<Rightarrow> iref set \<Rightarrow> fs \<Rightarrow> bool" where
  "run_ok F D s \<longleftrightarrow> files_ok F s \<and> D \<subseteq> F \<and> (\<forall>d \<in> D. dir_ok s d) \<and> (\<forall>i \<in> F. i_rwsem (inodes s i) = Unlocked)
     \<and> fi_size (info s) \<le> 8192"

text \<open>
  One operation on the file or directory \<open>i\<close>; what an operation asks of its arguments is what its caller
  (the kernel) ensures: names are not empty and the directory operations are called on directories only, the write
  operation on files only, with a buffer of the length given, and for a range within the largest
  file. Reads may start anywhere; insertions may be of any name and number; directories may hold anything.
\<close>

inductive file_op :: "iref set \<Rightarrow> iref \<Rightarrow> fs \<Rightarrow> fs \<Rightarrow> bool" for D where
  op_read: "xv6_file_read i len pos s = Some (r, b, q, t) \<Longrightarrow> file_op D i s t"
| op_write: "\<lbrakk>i \<notin> D; length buf = unat len;
     unat (if o_append then i_size (inodes s i) else pos) + unat len \<le> MAXFILE * BSIZE;
     xv6_file_write o_append i buf len pos s = Some (r, q, t)\<rbrakk> \<Longrightarrow> file_op D i s t"
| op_find: "\<lbrakk>i \<in> D; cstr DIRSIZ name \<noteq> []; xv6_find_inum i name d o' s = Some (e, n, de, t)\<rbrakk> \<Longrightarrow> file_op D i s t"
| op_insert: "\<lbrakk>i \<in> D; xv6_dentry_insert i name inum s = Some (e, t)\<rbrakk> \<Longrightarrow> file_op D i s t"
| op_erase: "\<lbrakk>i \<in> D; cstr DIRSIZ name \<noteq> []; xv6_dir_erase i name s = Some (e, t)\<rbrakk> \<Longrightarrow> file_op D i s t"
| op_rmtest: "\<lbrakk>i \<in> D; xv6_dir_rmtest i s = Some (e, t)\<rbrakk> \<Longrightarrow> file_op D i s t"

inductive file_run :: "iref set \<Rightarrow> iref set \<Rightarrow> fs \<Rightarrow> iref list \<Rightarrow> fs \<Rightarrow> bool" for F D where
  run_nil: "file_run F D s [] s"
| run_op: "i \<in> F \<Longrightarrow> file_op D i s t \<Longrightarrow> file_run F D t is u \<Longrightarrow> file_run F D s (i # is) u"

inductive_cases file_run_NilE: "file_run F D s [] t"
inductive_cases file_run_ConsE: "file_run F D s (i # is) u"

lemma dir_ok_file:
  "dir_ok s d \<longleftrightarrow> file_ok s d \<and> is_dir d s \<and> unat (i_size (inodes s d)) mod 16 = 0 \<and> 32 \<le> unat (i_size (inodes s d))"
  unfolding dir_ok_def file_ok_def kinv_self by (auto simp: dir_addrs_def split: option.splits)

lemma rmtest_step:
  assumes ok: "dir_ok s dir" and run: "xv6_dir_rmtest dir s = Some (e, t)"
  shows "dir_step s dir t"
proof -
  have two: "unat (2 :: u32) \<le> dir_len s dir" using dir_ok_size(5) [OF ok] by simp
  have z: "\<forall>k :: nat. \<not> ((1 :: u32) < of_nat k \<and> de_inum zero_dirent \<noteq> 0)" by (simp add: zero_dirent_def)
  show ?thesis
    by (cases rule: dir_search [OF ok good_callbacks(4) two noext_callbacks(3) search_rmtest z, of True])
      (use run init_dctx [OF ok] in \<open>auto simp: xv6_dir_rmtest_def xv6_assert_def split: if_splits\<close>)
qed

text \<open>What an operation does to the file it is for.\<close>

definition op_post :: "iref set \<Rightarrow> fs \<Rightarrow> iref \<Rightarrow> fs \<Rightarrow> bool" where
  "op_post D s i t \<longleftrightarrow> local_step s i t \<and> (i \<in> D \<longrightarrow> dir_ok t i) \<and> i_rwsem (inodes t i) = Unlocked"

lemma op_post_quiet:
  assumes "file_ok s i" "i \<in> D \<longrightarrow> dir_ok s i" "i_rwsem (inodes s i) = Unlocked" "quiet s t"
  shows "op_post D s i t"
proof -
  have "inodes t = inodes s" by (rule quietD(11) [OF assms(4)])
  then show ?thesis
    using assms local_quiet [OF assms(1,4)] file_ok_quiet(1) [OF assms(4)]
    by (auto simp: op_post_def dir_ok_file is_dir_def)
qed

lemma op_post_dir_step:
  assumes "dir_step s i t" "i_rwsem (inodes s i) = Unlocked"
  shows "op_post D s i t"
  using assms local_dir_step dir_stepD(1,2) [OF assms(1)] by (simp add: op_post_def)

lemma op_local:
  assumes op: "file_op D i s t" and inv: "run_ok F D s" and i: "i \<in> F"
  shows "op_post D s i t"
proof -
  have ok: "file_ok s i" and un: "i_rwsem (inodes s i) = Unlocked" and small: "fi_size (info s) \<le> 8192"
    and d: "i \<in> D \<longrightarrow> dir_ok s i" using inv i by (auto simp: run_ok_def files_ok_def)
  note step = op_post_dir_step [OF _ un]
  from op show ?thesis
  proof cases
    case (op_read len pos r b q)
    show ?thesis by (rule op_post_quiet [OF ok d un read_quiet [OF ok op_read]])
  next
    case (op_write buf len o_append pos r q)
    show ?thesis
    proof (rule write_run [OF ok un small refl op_write(3,2)])
      fix e k v u
      assume "xv6_file_write o_append i buf len pos s = Some (if e \<noteq> 0 \<and> int k \<le> 0 then e else int k,
          (if o_append then i_size (inodes s i) else pos) + of_nat k, u)"
        and w: "file_step (up_rwsem i Exclusive s) i v"
         "u = up_rwsem i Unlocked (upd_inode i (\<lambda>j. j\<lparr>i_size := (if i_size j
            < (if o_append then i_size (inodes s i) else pos) + of_nat k then (if o_append then i_size (inodes s i) else pos) + of_nat k
            else i_size j)\<rparr>) v)"
         "unat ((if o_append then i_size (inodes s i) else pos) + of_nat k) \<le> MAXFILE * BSIZE"
      then have "u = t" using op_write(4) by simp
      then show ?thesis using local_write [OF w(1,3,2)] file_close_write(7) [OF w(1,3,2)] op_write(1) by (simp add: op_post_def)
    qed
  next
    case (op_find name d0 o0 e n de)
    then have di: "dir_ok s i" using d by blast
    show ?thesis
      by (cases rule: find_inum_cases [OF di op_find(2), of d0 o0]) (use op_find(3) step in auto)
  next
    case (op_insert name inum e)
    then have "dir_ok s i" using d by blast
    from insert_grew [OF this small op_insert(2)] show ?thesis
    proof
      assume "t = s"
      then show ?thesis using op_post_quiet [OF ok d un] by simp
    next
      assume g: "dir_grew s i t"
      then have "dir_ok t i" "i_rwsem (inodes t i) = Unlocked" using un by (auto simp: dir_grew_def)
      then show ?thesis using local_dir_grew [OF g] by (simp add: op_post_def)
    qed
  next
    case (op_erase name e)
    then have di: "dir_ok s i" using d by blast
    show ?thesis by (cases rule: erase_cases [OF di op_erase(2)]) (use op_erase(3) step in auto)
  next
    case (op_rmtest e)
    then show ?thesis using d step rmtest_step by blast
  qed
qed

lemma op_run_ok:
  assumes inv: "run_ok F D s" and i: "i \<in> F" and p: "op_post D s i t"
  shows "run_ok F D t" "refs t = refs s" "free_blocks t \<subseteq> free_blocks s"
    "\<And>j. j \<in> F \<Longrightarrow> j \<noteq> i \<Longrightarrow> file_byte t j = file_byte s j \<and> inodes t j = inodes s j"
proof -
  have st: "local_step s i t" using p by (simp add: op_post_def)
  have F: "files_ok F s" using inv by (simp add: run_ok_def)
  have o: "file_ok t j \<and> file_byte t j = file_byte s j \<and> inodes t j = inodes s j" if "j \<in> F" "j \<noteq> i" for j
  proof -
    have "file_ok s j" "file_owned s i \<inter> file_owned s j = {}" using F i that by (auto simp: files_ok_def)
    then show ?thesis using local_other [OF st _ that(2)] by blast
  qed
  then show "\<And>j. j \<in> F \<Longrightarrow> j \<noteq> i \<Longrightarrow> file_byte t j = file_byte s j \<and> inodes t j = inodes s j" by blast
  show "refs t = refs s" "free_blocks t \<subseteq> free_blocks s" using st by (simp_all add: local_step_def)
  have "dir_ok t j \<and> i_rwsem (inodes t j) = Unlocked" if "j \<in> D" for j
    using p inv o [of j] that by (cases "j = i") (auto simp: op_post_def run_ok_def dir_ok_file is_dir_def)
  moreover have "i_rwsem (inodes t j) = Unlocked" if "j \<in> F" for j
    using p inv o [of j] that by (cases "j = i") (auto simp: op_post_def run_ok_def)
  ultimately show "run_ok F D t"
    using inv local_files_ok [OF F i st] st by (simp add: run_ok_def local_step_def)
qed

text \<open>
  C7. A run of operations on a set of files and directories, in any order and with any faults, keeps their
  invariant: every file stays well formed and no block comes to belong to two of them or to become free while a
  file has it; directories stay directories; locks and buffers are released; blocks are only taken from the free ones. A
  file that no operation of the run was for has the content and the inode it had. The operations are reads at any
  position, writes, lookups, insertions and erasures of names and the test for emptiness. The one condition on the state is on
  writes: each must lie within the largest file, since one behind it fails but sets the size to its position all the
  same (\<open>write_behind_grows\<close>).
\<close>

theorem run_keeps_files:
  assumes "file_run F D s is t" and "run_ok F D s"
  shows "run_ok F D t \<and> refs t = refs s \<and> free_blocks t \<subseteq> free_blocks s
    \<and> (\<forall>j\<in>F. j \<notin> set is \<longrightarrow> file_byte t j = file_byte s j \<and> inodes t j = inodes s j)"
  using assms
proof (induction rule: file_run.induct)
  case (run_op i s t "is" u)
  note O = op_run_ok [OF run_op.prems run_op.hyps(1) op_local [OF run_op.hyps(2) run_op.prems run_op.hyps(1)]]
  show ?case using run_op.IH [OF O(1)] O(2-4) by auto
qed simp

end
