(* ===== verification/Create_Spec.thy ===== *)
theory Create_Spec
  imports File_Run
begin

text \<open>
  Creation of files and directories (\<^verbatim>\<open>xv6_create\<close>, \<^verbatim>\<open>xv6_mkdir\<close>): the call draws on the
  block allocator, the inode table, the directory operations and the tree of active inodes, and the theorem
  puts what is proved of each of them together.
\<close>

section \<open>The inode table among the blocks\<close>

lemma iblk_below:
  assumes "wf_itable i" "n < icap i"
  shows "unat (iblk i n) < unat (fi_bmapstart i)"
proof -
  have d: "n div 16 < unat (fi_bmapstart i) - unat (fi_inodestart i)" using assms(2) by (simp add: icap_def)
  have b: "unat (fi_bmapstart i) < 2 ^ 27" using assms(1) by (simp add: wf_itable_def)
  have "unat (of_nat (n div 16) :: u32) = n div 16" using d b by (intro unat_of_nat32) simp
  then have "unat (iblk i n) = unat (fi_inodestart i) + n div 16"
    unfolding iblk_def using d b by (subst unat_add_no_wrap) simp_all
  then show ?thesis using d by simp
qed

lemma iblk_apart:
  assumes "wf_geom i" "wf_itable i" "n < icap i"
  shows "\<not> data_block i (iblk i n)" "iblk i n \<notin> bitmap_blocks i"
proof -
  note lt = iblk_below [OF assms(2,3)]
  show "\<not> data_block i (iblk i n)"
    using lt unat_data_start [OF assms(1)] by (auto simp: data_block_def word_le_unat)
  show "iblk i n \<notin> bitmap_blocks i"
    using lt bmblk_bounds(1) [OF assms(1)] by (fastforce simp: bitmap_blocks_def word_le_unat)
qed

text \<open>Operations on files leave the inode table alone.\<close>

lemma local_inode_at:
  assumes st: "local_step s i t" and ok: "file_ok s i" and w: "wf_itable (info s)" and n: "n < icap (info s)"
  shows "inode_at t n = inode_at s n"
proof -
  have g: "wf_geom (info s)" and wf: "file_wf (cache s) (free_blocks s \<union> meta_blocks s) (dir_addrs s i)"
    using ok by (auto simp: file_ok_def kinv_def)
  note A = iblk_apart [OF g w n]
  have m: "iblk (info s) n \<in> meta_blocks s" using A(1) by (simp add: meta_blocks_def)
  have "iblk (info s) n \<notin> free_blocks s" "iblk (info s) n \<notin> file_owned s i"
    using A(1) m file_wfD(4) [OF wf] by (auto simp: free_blocks_def data_block_def)
  then have "cache t (iblk (info s) n) = cache s (iblk (info s) n)" "info t = info s"
    using st A(2) by (auto simp: local_step_def)
  then show ?thesis by (simp add: inode_at_def)
qed

section \<open>Steps that only write blocks\<close>

lemma touches_tree:
  assumes "touches B s t"
  shows "itree_lock t = itree_lock s" "inode_tree t = inode_tree s" "refcount t = refcount s"
    "next_iref t = next_iref s"
  using assms by (cases s; cases t; simp add: touches_def)+

lemma stored_parts:
  assumes "dinode_stored s n d b t"
  shows "cache t = (cache s)(iblk (info s) n := wr_dinode (cache s (iblk (info s) n)) (n mod 16) d)"
    "balloc_hint t = balloc_hint s" "touches {iblk (info s) n} s t"
  using assms by (cases s; cases t; simp add: dinode_stored_def Let_def touches_def)+

lemma claimed_hint:
  assumes "alloc_inv s" "xv6_balloc blk s = Some (e, b, t)"
  shows "hint_ok t" "\<not> balloc_lock t"
  using balloc_sound(2) [OF assms] by (simp_all add: alloc_inv_def)

lemma free_blocks_cong:
  assumes "info t = info s" "\<And>x. x < fi_size (info s) \<Longrightarrow> cache t (bmblk (info s) x) = cache s (bmblk (info s) x)"
  shows "free_blocks t = free_blocks s"
  using assms by (auto simp: free_blocks_def bm_used_def)

text \<open>The entries a new directory starts with.\<close>

definition first_dirents :: "u32 \<Rightarrow> u32 \<Rightarrow> dirent list" where
  "first_dirents this parent = [\<lparr>de_inum = ucast this, de_name = strncpy_bytes [46] DIRSIZ\<rparr>,
     \<lparr>de_inum = ucast parent, de_name = strncpy_bytes [46, 46] DIRSIZ\<rparr>]"

definition first_block :: "u32 \<Rightarrow> u32 \<Rightarrow> block" where
  "first_block this parent = wr16 (put (wr16 (put zero_block 2 [46, 0]) 0 (ucast this)) 18 [46, 46, 0]) 16 (ucast parent)"

lemma first_block_entries:
  "rd_dirent (first_block this parent) k = (if k < 2 then first_dirents this parent ! k else zero_dirent)"
proof -
  have r: "rd16 (first_block this parent) 0 = ucast this" "rd16 (first_block this parent) 16 = ucast parent"
    by (simp_all add: first_block_def mem_simps rd16_other)
  have n: "rd_dirent (first_block this parent) k = zero_dirent" if "2 \<le> k"
    using that by (auto simp: rd_dirent_def first_block_def rd16_def wr16_def put_def get_def zero_dirent_def cat16_def
        intro!: nth_equalityI)
  have m: "strncpy_bytes [46] DIRSIZ = 46 # replicate 13 0" "strncpy_bytes [46, 46] DIRSIZ = 46 # 46 # replicate 12 0"
    by (simp_all add: strncpy_bytes_def cstr_def DIRSIZ_def)
  have "get (first_block this parent) 2 DIRSIZ = 46 # replicate 13 0"
    "get (first_block this parent) 18 DIRSIZ = 46 # 46 # replicate 12 0"
    by (rule nth_equalityI; auto simp: DIRSIZ_def first_block_def wr16_def put_def get_def nth_Cons' less_Suc_eq)+
  note m' = this [folded m]
  consider "k = 0" | "k = 1" | "2 \<le> k" by linarith
  then show ?thesis
  proof cases
    case 1
    then show ?thesis using r(1) m'(1) by (simp add: rd_dirent_def first_dirents_def numeral_2_eq_2)
  next
    case 2
    then show ?thesis using r(2) m'(2) by (simp add: rd_dirent_def first_dirents_def)
  qed (use n in simp)
qed

section \<open>The steps of a creation\<close>

lemma dir_init_ok:
  assumes "xv6_dir_init b parent this s = Some (0, t)" "cache s b = zero_block"
  shows "touches {b} s t" "cache t b = first_block this parent" "balloc_hint t = balloc_hint s"
proof -
  have "touches {b} s t \<and> cache t b = first_block this parent \<and> balloc_hint t = balloc_hint s"
    using assms unfolding xv6_dir_init_def sb_bread_def b_store_def b_data_def mark_buffer_dirty_def
      sync_dirty_buffer_def brelse_def Let_def first_block_def
    by (cases s) (auto simp: touches_def elim!: bind_SomeE split: if_splits)
  then show "touches {b} s t" "cache t b = first_block this parent" "balloc_hint t = balloc_hint s" by auto
qed

lemma init_inode_ok:
  assumes "xv6_init_inode ino dino inum s = (0, t)"
  obtains i where "t = s\<lparr>now := now t, inodes := (inodes s)(ino := i)\<rparr>" "i_ino i = inum"
    "i_private i = Some (di_addrs dino)" "i_size i = ucast (di_size dino)" "i_rwsem i = Unlocked"
    "i_nlink i = ucast (di_nlink dino)" "di_type dino = T_DIR \<longrightarrow> i_mode i AND S_IFMT = S_IFDIR"
proof -
  let ?d = "di_type dino"
  have ty: "\<not> (?d \<noteq> T_DIR \<and> ?d \<noteq> T_FILE \<and> ?d \<noteq> T_DEVICE)" and al: "env_alloc (env s) (Suc (now s))"
    using assms by (auto simp: xv6_init_inode_def Let_def tick_def upd_inode_def split: if_splits)
  define i where "i = inodes t ino"
  note run = assms [unfolded xv6_init_inode_def Let_def if_not_P [OF ty]]
  have "t = s\<lparr>now := now t, inodes := (inodes s)(ino := i)\<rparr> \<and> i_ino i = inum
    \<and> i_private i = Some (di_addrs dino) \<and> i_size i = ucast (di_size dino) \<and> i_rwsem i = Unlocked
    \<and> i_nlink i = ucast (di_nlink dino) \<and> (?d = T_DIR \<longrightarrow> i_mode i AND S_IFMT = S_IFDIR)"
  proof (cases "?d = T_DIR")
    case True
    have "((if rdonly s then S_IRWXUGO AND NOT S_IWUGO else S_IRWXUGO) OR S_IFDIR) AND S_IFMT = S_IFDIR"
      by (simp add: S_IRWXUGO_def S_IWUGO_def S_IFDIR_def S_IFMT_def)
    with run al True show ?thesis
      unfolding i_def by (auto simp: tick_def upd_inode_def)
  next
    case False
    with run al show ?thesis
      unfolding i_def by (auto simp: tick_def upd_inode_def)
  qed
  then show thesis using that by blast
qed

lemma create_dinode_simps:
  "di_addrs (create_dinode mode) = replicate 13 0" "wf_dinode ((create_dinode mode)\<lparr>di_addrs := b # replicate 12 0\<rparr>)"
  "di_type (create_dinode mode) = (if mode AND S_IFMT = S_IFDIR then T_DIR else T_FILE)"
  "di_size (create_dinode mode) = (if mode AND S_IFMT = S_IFDIR then 32 else 0)" "di_nlink (create_dinode mode) = 1"
  "di_type (create_dinode mode) \<noteq> 0"
  by (simp_all add: create_dinode_def zero_dinode_def wf_dinode_def NDIRECT_def T_DIR_def T_FILE_def Let_def)

text \<open>The inode and the block of a new file.\<close>

definition new_dinode :: "u16 \<Rightarrow> u32 \<Rightarrow> dinode" where
  "new_dinode mode b = (create_dinode mode)\<lparr>di_addrs := b # replicate 12 0\<rparr>"

definition new_block :: "u16 \<Rightarrow> u32 \<Rightarrow> u32 \<Rightarrow> block" where
  "new_block mode inum parent = (if mode AND S_IFMT = S_IFDIR then first_block inum parent else zero_block)"

text \<open>Everything \<open>create_body\<close> has done before it inserts the name.\<close>

definition prepared :: "fs \<Rightarrow> iref \<Rightarrow> u32 \<Rightarrow> u16 \<Rightarrow> u32 \<Rightarrow> nat \<Rightarrow> fs \<Rightarrow> bool" where
  "prepared s ino parent mode b n u \<longleftrightarrow> info u = info s \<and> rdonly u = rdonly s \<and> env u = env s \<and> refs u = refs s
     \<and> hint_ok u \<and> \<not> balloc_lock u \<and> itable_lock u = itable_lock s \<and> itree_lock u = itree_lock s
     \<and> inode_tree u = inode_tree s \<and> refcount u = refcount s \<and> next_iref u = next_iref s
     \<and> b \<in> free_blocks s \<and> free_blocks u = free_blocks s - {b} \<and> cache u b = new_block mode (of_nat n) parent
     \<and> 2 \<le> n \<and> n < icap (info s) \<and> \<not> in_use s n
     \<and> (\<forall>j < icap (info s). inode_at u j = (if j = n then new_dinode mode b else inode_at s j))
     \<and> (\<forall>x. x \<noteq> b \<longrightarrow> x \<notin> bitmap_blocks (info s) \<longrightarrow> x \<noteq> iblk (info s) n \<longrightarrow> cache u x = cache s x)
     \<and> (\<exists>i. inodes u = (inodes s)(ino := i) \<and> i_ino i = of_nat n \<and> i_private i = Some (b # replicate 12 0)
          \<and> i_size i = (if mode AND S_IFMT = S_IFDIR then 32 else 0) \<and> i_rwsem i = Unlocked \<and> i_nlink i = 1
          \<and> (mode AND S_IFMT = S_IFDIR \<longrightarrow> i_mode i AND S_IFMT = S_IFDIR))"

lemma create_body_eq:
  assumes "xv6_balloc 0 s = Some (e, b, s1)"
  shows "create_body ino dir name mode s = (let error = (if b = 0 then - ENOSPC else e)
     in if error \<noteq> 0 then Some (error, s1)
        else do {
          (error, inum, s) \<leftarrow> xv6_ialloc (Some (new_dinode mode b)) s1;
          if error \<noteq> 0 then Some (error, s)
          else do {
            (error, s) \<leftarrow>
              (if mode AND S_IFMT = S_IFDIR then xv6_dir_init b (i_ino (inodes s dir)) inum s else Some (0, s));
            if error \<noteq> 0 then Some (error, s)
            else
              (let (error, s) = xv6_init_inode ino (new_dinode mode b) inum s
               in if error \<noteq> 0 then Some (error, s) else xv6_dentry_insert dir name inum s)
          }
        })"
proof -
  have z: "di_addrs (create_dinode mode) ! 0 = 0" by (simp add: create_dinode_simps)
  have up: "(create_dinode mode)\<lparr>di_addrs := (di_addrs (create_dinode mode))[0 := x]\<rparr> = new_dinode mode x" for x
    by (simp add: new_dinode_def create_dinode_simps numeral_eq_Suc)
  have b: "di_addrs (new_dinode mode x) ! 0 = x" for x by (simp add: new_dinode_def)
  show ?thesis
    unfolding create_body_def Let_def z assms up b by (simp add: up b cong: if_cong)
qed

text \<open>The four steps of \<open>create_body\<close>: a block, a slot of the inode table, the directory's block, the inode.\<close>

lemma create_steps:
  assumes run: "create_body ino dir name mode s = Some (0, t)"
  obtains b inum s1 s2 s3 s4 where "xv6_balloc 0 s = Some (0, b, s1)" "b \<noteq> 0"
    "xv6_ialloc (Some (new_dinode mode b)) s1 = Some (0, inum, s2)"
    "(if mode AND S_IFMT = S_IFDIR then xv6_dir_init b (i_ino (inodes s2 dir)) inum s2 else Some (0, s2)) = Some (0, s3)"
    "xv6_init_inode ino (new_dinode mode b) inum s3 = (0, s4)" "xv6_dentry_insert dir name inum s4 = Some (0, t)"
proof -
  obtain e b s1 where ba: "xv6_balloc 0 s = Some (e, b, s1)"
    using run by (auto simp: create_body_def Let_def create_dinode_simps elim!: bind_SomeE)
  have b0: "b \<noteq> 0" and e0: "e = 0"
    using run unfolding create_body_eq [OF ba] by (auto simp: Let_def split: if_splits)
  from run [unfolded create_body_eq [OF ba] Let_def] b0 e0 obtain inum s2 s3 s4
    where "xv6_ialloc (Some (new_dinode mode b)) s1 = Some (0, inum, s2)"
      "(if mode AND S_IFMT = S_IFDIR then xv6_dir_init b (i_ino (inodes s2 dir)) inum s2 else Some (0, s2)) = Some (0, s3)"
      "xv6_init_inode ino (new_dinode mode b) inum s3 = (0, s4)" "xv6_dentry_insert dir name inum s4 = Some (0, t)"
    by (auto elim!: bind_SomeE split: if_splits prod.splits)
  then show thesis using that ba b0 e0 by blast
qed

text \<open>The block and the slot: the pool loses \<open>b\<close>, the table gains \<open>d\<close>, nothing else changes.\<close>

lemma claim_and_store:
  assumes inv: "alloc_inv s" and w: "wf_itable (info s)" and wd: "wf_dinode d"
    and ba: "xv6_balloc 0 s = Some (0, b, s1)" "b \<noteq> 0" and ia: "xv6_ialloc (Some d) s1 = Some (0, inum, s2)"
  obtains n where "inum = of_nat n" "2 \<le> n" "n < icap (info s)" "\<not> in_use s n" "b \<in> free_blocks s"
    "free_blocks s2 = free_blocks s - {b}" "cache s2 b = zero_block" "hint_ok s2" "iblk (info s) n \<noteq> b"
    "touches {b, bmblk (info s) b, iblk (info s) n} s s2"
    "\<forall>j < icap (info s). inode_at s2 j = (if j = n then d else inode_at s j)"
proof -
  have g: "wf_geom (info s)" using inv by (simp add: alloc_inv_def)
  note B = balloc_claims [OF inv ba]
  note C = claimedD [OF B(3)] and T1 = claimed_touches [OF B(3)] and P = claimed_pool [OF g B(2,3)]
  have h1: "hint_ok s1" using claimed_hint [OF inv ba(1)] by simp
  have bd: "data_block (info s) b" "b < fi_size (info s)" using B(2) by (auto simp: free_blocks_def data_block_def)
  have bb: "bmblk (info s) b \<in> bitmap_blocks (info s)" by (rule bitmap_blocksI [OF bd(2)])
  obtain n where n: "inum = of_nat n" "2 \<le> n" "n < icap (info s)" "\<not> in_use s1 n" "dinode_stored s1 n d True s2"
    using ialloc_ok [OF _ wd ia] w C(1) by metis
  let ?k = "iblk (info s) n"
  note S = stored_parts [OF n(5)]
  have w1: "wf_itable (info s1)" "n < icap (info s1)" using w n(3) C(1) by simp_all
  note SI = stored_inode_at [OF w1 wd n(5)]
  note A = iblk_apart [OF g w]
  have at1: "inode_at s1 j = inode_at s j" if "j < icap (info s)" for j
  proof -
    have "iblk (info s) j \<noteq> b" "iblk (info s) j \<noteq> bmblk (info s) b" using A [OF that] bd bb by auto
    then show ?thesis using touches_cache [OF T1, of "iblk (info s) j"] C(1) by (simp add: inode_at_def)
  qed
  have kb: "?k \<noteq> b" using A(1) [OF n(3)] bd(1) by auto
  have "\<not> in_use s n" using n(4) at1 [OF n(3)] by (simp add: in_use_def)
  moreover have "free_blocks s2 = free_blocks s1"
  proof (rule free_blocks_cong [OF SI(1)])
    fix x assume "x < fi_size (info s1)"
    then have "bmblk (info s1) x \<noteq> ?k" using A(2) [OF n(3)] bitmap_blocksI C(1) by metis
    then show "cache s2 (bmblk (info s1) x) = cache s1 (bmblk (info s1) x)" by (simp add: S(1) C(1))
  qed
  moreover have "cache s2 b = zero_block" using S(1) kb P(2) C(1) by simp
  moreover have "hint_ok s2" using h1 SI(1) S(2) by (simp add: hint_ok_def hint_of_def)
  moreover have "touches {b, bmblk (info s) b, ?k} s s2"
    using touches_trans [OF touches_mono [OF T1] touches_mono [OF S(3)]] C(1) by auto
  moreover have "\<forall>j < icap (info s). inode_at s2 j = (if j = n then d else inode_at s j)"
    using SI(4) at1 C(1) by simp
  ultimately show thesis using that n(1-3) P(1) B(2) kb by simp
qed

lemma steps_prepared:
  assumes inv: "alloc_inv s" and w: "wf_itable (info s)"
    and st: "xv6_balloc 0 s = Some (0, b, s1)" "b \<noteq> 0"
      "xv6_ialloc (Some (new_dinode mode b)) s1 = Some (0, inum, s2)"
      "(if mode AND S_IFMT = S_IFDIR then xv6_dir_init b (i_ino (inodes s2 dir)) inum s2 else Some (0, s2)) = Some (0, s3)"
      "xv6_init_inode ino (new_dinode mode b) inum s3 = (0, s4)"
  obtains n where "inum = of_nat n" "prepared s ino (i_ino (inodes s dir)) mode b n s4"
proof -
  let ?dir = "mode AND S_IFMT = S_IFDIR" and ?p = "i_ino (inodes s dir)"
  have g: "wf_geom (info s)" using inv by (simp add: alloc_inv_def)
  have wd: "wf_dinode (new_dinode mode b)" by (simp add: new_dinode_def create_dinode_simps)
  obtain n where n: "inum = of_nat n" "2 \<le> n" "n < icap (info s)" "\<not> in_use s n" "b \<in> free_blocks s"
    "free_blocks s2 = free_blocks s - {b}" "cache s2 b = zero_block" "hint_ok s2" "iblk (info s) n \<noteq> b"
    "touches {b, bmblk (info s) b, iblk (info s) n} s s2"
    "\<forall>j < icap (info s). inode_at s2 j = (if j = n then new_dinode mode b else inode_at s j)"
    by (rule claim_and_store [OF inv w wd st(1-3)])
  note D2 = touchesD [OF n(10)]
  have D: "touches {b} s2 s3 \<and> cache s3 b = new_block mode inum ?p \<and> balloc_hint s3 = balloc_hint s2"
    using st(4) dir_init_ok [OF _ n(7), of ?p inum s3] D2(7) n(7) by (simp add: new_block_def split: if_splits)
  note T3 = conjunct1 [OF D] and D3 = touchesD [OF conjunct1 [OF D]]
  have T: "touches {b, bmblk (info s) b, iblk (info s) n} s s3"
    by (rule touches_trans [OF n(10) touches_mono [OF T3]]) auto
  obtain i where i: "s4 = s3\<lparr>now := now s4, inodes := (inodes s3)(ino := i)\<rparr>" "i_ino i = inum"
    "i_private i = Some (b # replicate 12 0)" "i_size i = (if ?dir then 32 else 0)" "i_rwsem i = Unlocked" "i_nlink i = 1"
    "?dir \<longrightarrow> i_mode i AND S_IFMT = S_IFDIR"
    by (rule init_inode_ok [OF st(5)]) (auto simp: new_dinode_def create_dinode_simps split: if_splits)
  have f4: "cache s4 = cache s3" "info s4 = info s3" "rdonly s4 = rdonly s3" "env s4 = env s3" "refs s4 = refs s3"
    "balloc_hint s4 = balloc_hint s3" "balloc_lock s4 = balloc_lock s3" "itable_lock s4 = itable_lock s3"
    "itree_lock s4 = itree_lock s3" "inode_tree s4 = inode_tree s3" "refcount s4 = refcount s3" "next_iref s4 = next_iref s3"
    "inodes s4 = (inodes s3)(ino := i)"
    by (subst i(1), simp)+
  note D4 = touchesD [OF T] and R4 = touches_tree [OF T]
  have bd: "data_block (info s) b" using n(5) by (auto simp: free_blocks_def data_block_def)
  have F3: "free_blocks s3 = free_blocks s2"
  proof (rule free_blocks_cong [OF D3(2)])
    fix x assume "x < fi_size (info s2)"
    then have "bmblk (info s2) x \<noteq> b" using data_not_bmblk [OF g] bd D2(2) by (simp add: data_block_def)
    then show "cache s3 (bmblk (info s2) x) = cache s2 (bmblk (info s2) x)" using touches_cache [OF T3] by simp
  qed
  have F4: "free_blocks s4 = free_blocks s3" by (rule free_blocks_cong) (simp_all add: f4)
  have H: "hint_ok s4" using n(8) D D3(2) by (simp add: hint_ok_def hint_of_def f4)
  have A: "inode_at s4 j = inode_at s2 j" if "j < icap (info s)" for j
  proof -
    have "iblk (info s) j \<noteq> b" using iblk_apart(1) [OF g w that] bd by auto
    then show ?thesis using touches_cache [OF T3, of "iblk (info s) j"] D2(2) D3(2) by (simp add: inode_at_def f4)
  qed
  have X: "cache s4 x = cache s x" if "x \<noteq> b" "x \<notin> bitmap_blocks (info s)" "x \<noteq> iblk (info s) n" for x
    using touches_cache [OF T, of x] that bitmap_blocksI [of b] n(5) by (auto simp: f4 free_blocks_def)
  have lk: "\<not> balloc_lock s" using inv by (simp add: alloc_inv_def)
  have "prepared s ino ?p mode b n s4"
    unfolding prepared_def
  proof (intro conjI exI [of _ i] allI impI)
    show "inode_at s4 j = (if j = n then new_dinode mode b else inode_at s j)" if "j < icap (info s)" for j
      using A [OF that] n(11) that by simp
    show "cache s4 b = new_block mode (of_nat n) ?p" using D n(1) f4(1) by simp
    show "free_blocks s4 = free_blocks s - {b}" using F3 F4 n(6) by simp
  qed (use D4 R4 f4 H X i(2-) n lk in simp_all)
  then show thesis using that n(1) by simp
qed

lemma create_prepared:
  assumes inv: "alloc_inv s" and w: "wf_itable (info s)"
    and run: "create_body ino dir name mode s = Some (0, t)"
  obtains b n u where "prepared s ino (i_ino (inodes s dir)) mode b n u"
    "xv6_dentry_insert dir name (of_nat n) u = Some (0, t)"
proof (rule create_steps [OF run])
  fix b inum s1 s2 s3 s4
  assume st: "xv6_balloc 0 s = Some (0, b, s1)" "b \<noteq> 0" "xv6_ialloc (Some (new_dinode mode b)) s1 = Some (0, inum, s2)"
      "(if mode AND S_IFMT = S_IFDIR then xv6_dir_init b (i_ino (inodes s2 dir)) inum s2 else Some (0, s2)) = Some (0, s3)"
      "xv6_init_inode ino (new_dinode mode b) inum s3 = (0, s4)" "xv6_dentry_insert dir name inum s4 = Some (0, t)"
  show thesis by (rule steps_prepared [OF inv w st(1-5)]) (use that st(6) in blast)
qed

text \<open>Without faults the steps up to the insertion succeed when there are a block and a slot.\<close>

lemma dir_init_runs:
  assumes "\<And>n b. env_bread (env s) n b" "\<And>n b. env_sync (env s) n b = 0"
  shows "\<exists>t. xv6_dir_init b p i s = Some (0, t) \<and> env t = env s"
  using assms by (simp add: xv6_dir_init_def sb_bread_def mark_buffer_dirty_def sync_dirty_buffer_def brelse_def b_store_def Let_def)

lemma init_inode_runs:
  assumes al: "\<And>n. env_alloc (env s) n" and ty: "di_type d = T_DIR \<or> di_type d = T_FILE"
  shows "\<exists>t. xv6_init_inode ino d inum s = (0, t)"
proof -
  have ty': "\<not> (di_type d \<noteq> T_DIR \<and> di_type d \<noteq> T_FILE \<and> di_type d \<noteq> T_DEVICE)" using ty by blast
  show ?thesis unfolding xv6_init_inode_def Let_def if_not_P [OF ty'] using al by (simp add: tick_def upd_inode_def)
qed

lemma create_body_run:
  assumes inv: "alloc_inv s" and w: "wf_itable (info s)" and free: "\<not> itable_lock s" "2 \<le> k" "k < icap (info s)" "\<not> in_use s k"
    and env: "\<And>n b. env_bread (env s) n b" "\<And>n b. env_sync (env s) n b = 0" "\<And>n. env_alloc (env s) n"
    and ba: "xv6_balloc 0 s = Some (0, b, s1)" "b \<noteq> 0"
  obtains n u where "prepared s ino (i_ino (inodes s dir)) mode b n u"
    "create_body ino dir name mode s = xv6_dentry_insert dir name (of_nat n) u"
proof -
  let ?d = "new_dinode mode b" and ?dir = "mode AND S_IFMT = S_IFDIR"
  have g: "wf_geom (info s)" using inv by (simp add: alloc_inv_def)
  note B = balloc_claims [OF inv ba]
  note C = claimedD [OF B(3)] and T1 = claimed_touches [OF B(3)]
  have bd: "data_block (info s) b" "b < fi_size (info s)" using B(2) by (auto simp: free_blocks_def data_block_def)
  have "iblk (info s) k \<noteq> b" "iblk (info s) k \<noteq> bmblk (info s) b"
    using iblk_apart [OF g w free(3)] bd bitmap_blocksI [OF bd(2)] by auto
  then have "\<not> in_use s1 k"
    using free(4) touches_cache [OF T1, of "iblk (info s) k"] C(1) by (simp add: in_use_def inode_at_def)
  then obtain inum s2 where ia: "xv6_ialloc (Some ?d) s1 = Some (0, inum, s2)"
    using ialloc_runs [of s1 k ?d] w free(1-3) env C by auto
  have wd: "wf_dinode ?d" by (simp add: new_dinode_def create_dinode_simps)
  obtain n where t2: "touches {b, bmblk (info s) b, iblk (info s) n} s s2"
    by (rule claim_and_store [OF inv w wd ba ia])
  have e2: "env s2 = env s" by (rule touchesD(4) [OF t2])
  have "\<exists>s3. (if ?dir then xv6_dir_init b (i_ino (inodes s2 dir)) inum s2 else Some (0, s2)) = Some (0, s3) \<and> env s3 = env s"
    using dir_init_runs [of s2 b "i_ino (inodes s2 dir)" inum] env e2 by simp
  then obtain s3 where di: "(if ?dir then xv6_dir_init b (i_ino (inodes s2 dir)) inum s2 else Some (0, s2)) = Some (0, s3)"
      and e3: "env s3 = env s" by blast
  have "di_type ?d = (if ?dir then T_DIR else T_FILE)" by (simp add: new_dinode_def create_dinode_simps)
  then obtain s4 where ii: "xv6_init_inode ino ?d inum s3 = (0, s4)"
    using init_inode_runs [of s3 ?d ino inum] env(3) e3 by (auto split: if_splits)
  obtain n where n: "inum = of_nat n" "prepared s ino (i_ino (inodes s dir)) mode b n s4"
    by (rule steps_prepared [OF inv w ba ia di ii])
  have "create_body ino dir name mode s = xv6_dentry_insert dir name (of_nat n) s4"
    unfolding create_body_eq [OF ba(1)] using ba(2) ia di ii unfolding n(1)
    by (cases ?dir) (simp_all add: Let_def)
  then show thesis using that n(2) by blast
qed
section \<open>What a creation leaves\<close>

text \<open>The state after \<open>new_inode\<close>: the unused object \<open>next_iref s\<close> is taken.\<close>

definition with_inode :: "fs \<Rightarrow> fs" where
  "with_inode s = s\<lparr>now := Suc (now s), next_iref := Suc (next_iref s), refcount := (refcount s)(next_iref s := 1),
     inodes := (inodes s)(next_iref s := sample_inode)\<rparr>"

lemma new_inode_Some: "new_inode s = (Some ino, s0) \<longleftrightarrow> env_alloc (env s) (now s) \<and> ino = next_iref s \<and> s0 = with_inode s"
  by (auto simp: new_inode_def xv6_alloc_inode_def upd_inode_def with_inode_def Let_def)

lemma with_inode_simps [simp]:
  "info (with_inode s) = info s" "rdonly (with_inode s) = rdonly s" "env (with_inode s) = env s" "refs (with_inode s) = refs s"
  "cache (with_inode s) = cache s" "balloc_hint (with_inode s) = balloc_hint s" "balloc_lock (with_inode s) = balloc_lock s"
  "itable_lock (with_inode s) = itable_lock s" "itree_lock (with_inode s) = itree_lock s"
  "inode_tree (with_inode s) = inode_tree s" "next_iref (with_inode s) = Suc (next_iref s)"
  "refcount (with_inode s) = (refcount s)(next_iref s := 1)"
  "inodes (with_inode s) = (inodes s)(next_iref s := sample_inode)"
  by (simp_all add: with_inode_def)

lemma with_inode_views [simp]:
  "free_blocks (with_inode s) = free_blocks s" "inode_at (with_inode s) = inode_at s" "in_use (with_inode s) = in_use s"
  "hint_ok (with_inode s) = hint_ok s" "meta_blocks (with_inode s) = meta_blocks s"
  by (auto simp: free_blocks_def bm_used_def inode_at_def in_use_def hint_ok_def hint_of_def meta_blocks_def fun_eq_iff)

text \<open>A file of one block.\<close>

lemma one_block:
  assumes "b \<noteq> 0"
  shows "bmap v (b # replicate 12 0) i = (if i = 0 then b else 0)" "owned v (b # replicate 12 0) = {b}"
    "file_wf v bad (b # replicate 12 0) \<longleftrightarrow> b \<notin> bad"
proof -
  show m: "bmap v (b # replicate 12 0) i = (if i = 0 then b else 0)" for i
    by (auto simp: bmap_def NDIRECT_def nth_Cons split: nat.split)
  show o: "owned v (b # replicate 12 0) = {b}"
    using assms by (auto simp: owned_def m NDIRECT_def split: if_splits)
  show "file_wf v bad (b # replicate 12 0) \<longleftrightarrow> b \<notin> bad"
    using assms by (auto simp: file_wf_def m o NDIRECT_def split: if_splits)
qed

lemma prepared_same:
  assumes pre: "prepared (with_inode s) ino p mode b n u" and ok: "file_ok s j" and w: "wf_itable (info s)"
    and x: "x \<in> file_owned s j"
  shows "cache u x = cache s x"
proof -
  note P = pre [unfolded prepared_def with_inode_simps with_inode_views]
  have "wf_geom (info s)" using ok by (simp add: file_ok_def kinv_def)
  then have "iblk (info s) n \<in> meta_blocks s" using iblk_apart(1) w P by (simp add: meta_blocks_def)
  then show ?thesis using file_owned_apart [OF ok x] P by metis
qed

lemma prepared_dir:
  assumes pre: "prepared (with_inode s) (next_iref s) p mode b n u" and inv: "dir_inv s dir" and w: "wf_itable (info s)"
    and dir: "dir < next_iref s"
  shows "dir_inv u dir" "dir_list u dir = dir_list s dir" "file_owned u dir = file_owned s dir"
proof -
  note P = pre [unfolded prepared_def with_inode_simps with_inode_views]
  have ok: "file_ok s dir" using inv dir_file_ok by (simp add: dir_inv_def)
  have "inodes u dir = inodes s dir" using P dir by auto
  note D = dir_inv_transfer [OF inv _ _ _ this _ prepared_same [OF pre ok w]]
  show "dir_inv u dir" "dir_list u dir = dir_list s dir" "file_owned u dir = file_owned s dir" using D P by auto
qed

lemma inum_word:
  assumes "2 \<le> n" "n < 65536"
  shows "(ucast (of_nat n :: u32) :: u16) = of_nat n" "(of_nat n :: u16) \<noteq> 0"
proof -
  have "\<not> 65536 dvd n" using assms by (auto dest: dvd_imp_le)
  then show "(of_nat n :: u16) \<noteq> 0" by (simp add: word_of_nat_eq_0_iff)
  show "(ucast (of_nat n :: u32) :: u16) = of_nat n"
    using assms by (simp add: unsigned_of_nat take_bit_nat_eq_self)
qed

lemma create_core:
  assumes inv: "dir_inv s dir" and ro: "\<not> rdonly s" and w: "wf_itable (info s)" and cap: "icap (info s) \<le> 65536"
    and small: "fi_size (info s) \<le> 8192" and dir: "dir < next_iref s" and nm: "cstr DIRSIZ name \<noteq> []"
    and fresh: "dir_map (dir_list s dir) (cstr DIRSIZ name) = None" and run: "xv6_create dir name mode s = Some (0, r, t)"
  obtains n b u v where "r = Some (next_iref s)"
    "prepared (with_inode s) (next_iref s) (i_ino (inodes s dir)) mode b n u" "dir_inv u dir" "file_owned u dir = file_owned s dir"
    "dir_inv v dir" "dir_grew u dir v" "dir_map (dir_list v dir) = (dir_map (dir_list s dir))(cstr DIRSIZ name \<mapsto> of_nat n)"
    "\<not> itree_lock v" "t = rb_add (next_iref s) v"
    "(\<forall>k < 2. de_inum (dir_list s dir ! k) \<noteq> 0) \<longrightarrow> erasable (dir_list v dir) (cstr DIRSIZ name)"
    "free_blocks u \<subseteq> free_blocks v \<union> file_owned v dir"
proof -
  let ?s = "with_inode s" and ?ino = "next_iref s"
  have k: "wf_geom (info s)" "hint_ok s" "\<not> balloc_lock s" using inv by (auto simp: dir_inv_def dir_ok_def)
  obtain ino s0 where ni: "new_inode s = (Some ino, s0)"
    using run by (cases "new_inode s"; cases "fst (new_inode s)") (auto simp: xv6_create_def split: if_splits)
  then have ino: "ino = ?ino" "s0 = ?s" by (auto simp: new_inode_Some)
  from run ni obtain v where body: "create_body ?ino dir name mode ?s = Some (0, v)"
      and r: "r = Some ?ino" "\<not> itree_lock v" "t = mutex_unlock_itree (rb_add ?ino (v\<lparr>itree_lock := True\<rparr>))"
    unfolding xv6_create_def ino by (auto simp: mutex_lock_itree_def elim!: bind_SomeE split: if_splits)
  have t: "t = rb_add ?ino v"
    using r(2) unfolding r(3) by (cases v) (simp add: rb_add_def mutex_unlock_itree_def xv6_rb_less_def)
  have ai: "alloc_inv ?s" using k ro by (simp add: alloc_inv_def)
  have w': "wf_itable (info ?s)" using w by simp
  obtain b n u where pre: "prepared ?s ?ino (i_ino (inodes s dir)) mode b n u"
      and ins: "xv6_dentry_insert dir name (of_nat n) u = Some (0, v)"
    using create_prepared [OF ai w' body] dir by auto
  note P = pre [unfolded prepared_def with_inode_simps with_inode_views]
  note du = prepared_dir [OF pre inv w dir]
  have c: "(ucast (of_nat n :: u32) :: u16) = of_nat n" "(ucast (of_nat n :: u32) :: u16) \<noteq> 0"
    using inum_word [of n] P cap by auto
  obtain e s' where "xv6_dentry_insert dir name (of_nat n) u = Some (e, s')"
    "e = 0 \<longrightarrow> dir_inv s' dir \<and> dir_grew u dir s'"
    "e = 0 \<longrightarrow> dir_map (dir_list s' dir) = (dir_map (dir_list u dir))(cstr DIRSIZ name \<mapsto> ucast (of_nat n :: u32))"
    "e = 0 \<longrightarrow> (\<forall>k < 2. de_inum (dir_list u dir ! k) \<noteq> 0) \<longrightarrow> erasable (dir_list s' dir) (cstr DIRSIZ name)"
    "e = 0 \<longrightarrow> free_blocks u \<subseteq> free_blocks s' \<union> file_owned s' dir"
    by (rule insert_map [OF du(1) _ nm c(2)]) (use small fresh du P in auto)
  then have "dir_inv v dir" "dir_grew u dir v"
      "dir_map (dir_list v dir) = (dir_map (dir_list s dir))(cstr DIRSIZ name \<mapsto> of_nat n)"
      "(\<forall>k < 2. de_inum (dir_list s dir ! k) \<noteq> 0) \<longrightarrow> erasable (dir_list v dir) (cstr DIRSIZ name)"
      "free_blocks u \<subseteq> free_blocks v \<union> file_owned v dir"
    using ins c(1) du(2) by auto
  then show thesis using that r(1) pre du(1,3) r(2) t by blast
qed
lemma rb_add_simps:
  "info (rb_add r s) = info s" "refs (rb_add r s) = refs s" "cache (rb_add r s) = cache s" "inodes (rb_add r s) = inodes s"
  "next_iref (rb_add r s) = next_iref s" "refcount (rb_add r s) = refcount s" "itree_lock (rb_add r s) = itree_lock s"
  "balloc_lock (rb_add r s) = balloc_lock s" "balloc_hint (rb_add r s) = balloc_hint s" "rdonly (rb_add r s) = rdonly s"
  by (simp_all add: rb_add_def)

lemma rb_add_views:
  "free_blocks (rb_add r s) = free_blocks s" "meta_blocks (rb_add r s) = meta_blocks s" "inode_at (rb_add r s) = inode_at s"
  "dir_addrs (rb_add r s) = dir_addrs s" "dir_list (rb_add r s) = dir_list s" "dir_inv (rb_add r s) = dir_inv s"
  "file_byte (rb_add r s) = file_byte s" "file_ok (rb_add r s) = file_ok s"
proof -
  show f: "free_blocks (rb_add r s) = free_blocks s" and m: "meta_blocks (rb_add r s) = meta_blocks s"
    by (auto simp: free_blocks_def bm_used_def meta_blocks_def rb_add_simps)
  show "inode_at (rb_add r s) = inode_at s" by (simp add: inode_at_def rb_add_simps fun_eq_iff)
  show a: "dir_addrs (rb_add r s) = dir_addrs s" by (simp add: dir_addrs_def rb_add_simps fun_eq_iff)
  have e: "dir_entry (rb_add r s) = dir_entry s" "dir_len (rb_add r s) = dir_len s"
    by (simp_all add: dir_entry_def dir_len_def rb_add_simps a fun_eq_iff)
  then show l: "dir_list (rb_add r s) = dir_list s" by (simp add: dir_list_def fun_eq_iff)
  have h: "hint_ok (rb_add r s) = hint_ok s" by (simp add: hint_ok_def hint_of_def rb_add_simps)
  show "dir_inv (rb_add r s) = dir_inv s"
    by (simp add: fun_eq_iff dir_inv_def dir_ok_def is_dir_def l e a f m h rb_add_simps)
  show "file_byte (rb_add r s) = file_byte s" by (intro ext) (simp add: file_byte_def a rb_add_simps Let_def)
  show "file_ok (rb_add r s) = file_ok s"
    by (simp add: fun_eq_iff file_ok_def kinv_self a f m h rb_add_simps)
qed

lemma create_new_file:
  assumes pre: "prepared (with_inode s) (next_iref s) p mode b n u" and g: "dir_grew u dir v" and du: "dir_inv u dir"
    and own: "file_owned u dir = file_owned s dir" and sok: "file_ok s dir" and dir: "dir < next_iref s"
    and w: "wf_itable (info s)"
  shows "file_ok v (next_iref s)" "file_owned v (next_iref s) = {b}" "cache v b = new_block mode (of_nat n) p"
    "info v = info s" "refs v = refs s" "free_blocks v \<subseteq> free_blocks s" "b \<in> free_blocks s - free_blocks v"
    "\<forall>j < icap (info s). inode_at v j = (if j = n then new_dinode mode b else inode_at s j)"
    "dir_addrs v (next_iref s) = b # replicate 12 0"
    "i_size (inodes v (next_iref s)) = (if mode AND S_IFMT = S_IFDIR then 32 else 0)"
    "mode AND S_IFMT = S_IFDIR \<longrightarrow> is_dir (next_iref s) v"
    "i_ino (inodes v (next_iref s)) = of_nat n" "i_nlink (inodes v (next_iref s)) = 1"
proof -
  let ?ino = "next_iref s"
  note P = pre [unfolded prepared_def with_inode_simps with_inode_views]
  note L = local_dir_grew [OF g]
  note LS = L [unfolded local_step_def]
  have ok: "file_ok u dir" using du dir_file_ok by (simp add: dir_inv_def)
  have wg: "wf_geom (info s)" using ok P by (simp add: file_ok_def kinv_def)
  have bd: "b \<in> free_blocks s" "data_block (info s) b" "b < fi_size (info s)"
    using P by (auto simp: free_blocks_def data_block_def)
  have b0: "b \<noteq> 0" using free_nonzero [OF wg bd(1)] .
  show i: "info v = info s" "refs v = refs s" using LS P by simp_all
  show f: "free_blocks v \<subseteq> free_blocks s" "b \<in> free_blocks s - free_blocks v" using LS P by auto
  have nb: "b \<notin> bitmap_blocks (info s)" using bitmap_blocks_meta [OF wg] bd(2) by (auto simp: meta_blocks_def)
  have "b \<notin> file_owned u dir" using file_owned_apart(1) [OF sok] own bd(1) by auto
  then show c: "cache v b = new_block mode (of_nat n) p" using LS P bd nb by auto
  show "\<forall>j < icap (info s). inode_at v j = (if j = n then new_dinode mode b else inode_at s j)"
    using local_inode_at [OF L ok] w P by simp
  obtain i where iu: "inodes u ?ino = i" "i_private i = Some (b # replicate 12 0)" "i_ino i = of_nat n" "i_nlink i = 1"
      "i_size i = (if mode AND S_IFMT = S_IFDIR then 32 else 0)" "mode AND S_IFMT = S_IFDIR \<longrightarrow> i_mode i AND S_IFMT = S_IFDIR"
    using P by auto
  have iv: "inodes v ?ino = i" using LS dir iu(1) by auto
  show a: "dir_addrs v ?ino = b # replicate 12 0" by (simp add: dir_addrs_def iv iu)
  show sz: "i_size (inodes v ?ino) = (if mode AND S_IFMT = S_IFDIR then 32 else 0)" by (simp add: iv iu)
  show "i_ino (inodes v ?ino) = of_nat n" "i_nlink (inodes v ?ino) = 1" by (simp_all add: iv iu)
  show "mode AND S_IFMT = S_IFDIR \<longrightarrow> is_dir ?ino v" by (simp add: is_dir_def iv iu)
  show o: "file_owned v ?ino = {b}" by (simp add: a one_block(2) [OF b0])
  have "b \<notin> meta_blocks v" using bd(2) i(1) by (simp add: meta_blocks_def)
  then show "file_ok v ?ino"
    using LS f(2) unfolding file_ok_def a one_block(3) [OF b0] by (simp add: iv iu layout_vals)
qed
lemma files_ok_insert:
  assumes "files_ok F s" "file_ok s i" "\<And>j. j \<in> F \<Longrightarrow> file_owned s i \<inter> file_owned s j = {}"
  shows "files_ok (insert i F) s"
  using assms by (auto simp: files_ok_def Int_commute)

lemma create_tree:
  assumes pre: "prepared (with_inode s) (next_iref s) p mode b n u" and g: "dir_grew u dir v" and inv: "tree_inv s"
    and dir: "dir < next_iref s" and w: "wf_itable (info s)" and none: "tree_map s (of_nat n) = None"
  shows "tree_inv (rb_add (next_iref s) v)" "tree_map (rb_add (next_iref s) v) = (tree_map s)(of_nat n \<mapsto> next_iref s)"
proof -
  let ?ino = "next_iref s"
  note P = pre [unfolded prepared_def with_inode_simps with_inode_views] and G = g [unfolded dir_grew_def]
  have lt: "r < ?ino" if "r \<in> set (inode_tree s)" for r using inv that by (simp add: tree_inv_def)
  obtain i where iu: "inodes u = (inodes s)(?ino := i)" "i_ino i = of_nat n" using P by auto
  obtain a z d where iv: "inodes v = (inodes u)(dir := (inodes u dir)\<lparr>i_private := Some a, i_size := z, i_dirty := d\<rparr>)"
    using G by auto
  have key: "tree_key v r = tree_key s r" if "r \<in> set (inode_tree s)" for r
    using lt [OF that] by (simp add: tree_key_def iv iu)
  have f: "inode_tree v = inode_tree s" "refcount v = (refcount s)(?ino := 1)" "next_iref v = Suc ?ino" "itree_lock v = itree_lock s"
    using P G by simp_all
  have tv: "tree_inv v"
    by (rule tree_inv_cong [OF f(1) key _ _ _ inv]) (use inv f in \<open>auto simp: tree_inv_def\<close>)
  have mp: "tree_map v = tree_map s" by (rule tree_map_cong [OF f(1) key])
  have k: "tree_key v ?ino = of_nat n" using dir by (simp add: tree_key_def iv iu)
  have "n < 2 ^ 32" using icap_bound [OF w] P by simp
  then have nz: "(of_nat n :: u32) \<noteq> 0" using P unat_of_nat32 [of n] by force
  have nin: "?ino \<notin> set (inode_tree v)" using lt f(1) by auto
  have rn: "rb_find (of_nat n) v = None" using none fun_cong [OF mp] by (simp add: tree_map_def)
  note A = tree_map_add [OF tv nin _ _ k nz rn]
  show "tree_inv (rb_add ?ino v)" by (rule A(1)) (simp_all add: f)
  show "tree_map (rb_add ?ino v) = (tree_map s)(of_nat n \<mapsto> ?ino)" using A(2) mp f by simp
qed

text \<open>Which blocks a creation takes, and which it leaves alone.\<close>

lemma create_blocks:
  assumes pre: "prepared (with_inode s) (next_iref s) p mode b n u" and g: "dir_grew u dir v"
    and own: "file_owned u dir = file_owned s dir" and ok: "dir_ok v dir"
    and exact: "free_blocks u \<subseteq> free_blocks v \<union> file_owned v dir"
  shows "free_blocks v = free_blocks s - insert b (file_owned v dir)" "b \<notin> file_owned v dir - file_owned s dir"
    "file_owned v dir \<subseteq> file_owned s dir \<union> free_blocks s"
    "\<And>x. x \<notin> free_blocks s \<Longrightarrow> x \<notin> bitmap_blocks (info s) \<Longrightarrow> x \<notin> file_owned s dir \<Longrightarrow> x \<noteq> iblk (info s) n \<Longrightarrow>
       cache v x = cache s x"
    "\<And>j. j \<noteq> dir \<Longrightarrow> j \<noteq> next_iref s \<Longrightarrow> inodes v j = inodes s j"
proof -
  note P = pre [unfolded prepared_def with_inode_simps with_inode_views] and G = g [unfolded dir_grew_def]
  have fu: "free_blocks u = free_blocks s - {b}" "b \<in> free_blocks s" using P by auto
  have gv: "free_blocks v \<subseteq> free_blocks u" "file_owned v dir \<subseteq> file_owned u dir \<union> (free_blocks u - free_blocks v)"
    using G by blast+
  have "file_owned v dir \<inter> free_blocks v = {}" using dir_okD(4) [OF ok] file_wfD(4) by blast
  then show "free_blocks v = free_blocks s - insert b (file_owned v dir)" using fu gv(1) exact by blast
  show "b \<notin> file_owned v dir - file_owned s dir" "file_owned v dir \<subseteq> file_owned s dir \<union> free_blocks s"
    using gv(2) fu own by auto
  show "cache v x = cache s x"
    if "x \<notin> free_blocks s" "x \<notin> bitmap_blocks (info s)" "x \<notin> file_owned s dir" "x \<noteq> iblk (info s) n" for x
  proof -
    have "info u = info s" "x \<noteq> b" "x \<notin> free_blocks u" using P fu that by auto
    then have "cache v x = cache u x" using G that own by auto
    then show ?thesis using P that \<open>x \<noteq> b\<close> by auto
  qed
  obtain a z d where "inodes v = (inodes u)(dir := (inodes u dir)\<lparr>i_private := Some a, i_size := z, i_dirty := d\<rparr>)"
    using G by auto
  moreover obtain i where "inodes u = (inodes s)(next_iref s := i)" using P by auto
  ultimately show "inodes v j = inodes s j" if "j \<noteq> dir" "j \<noteq> next_iref s" for j using that by simp
qed

lemma create_files:
  assumes "dir_inv s dir" "\<not> rdonly s" "wf_itable (info s)" "icap (info s) \<le> 65536" "fi_size (info s) \<le> 8192"
    and "files_ok F s" "dir \<in> F" "\<forall>j \<in> F. j < next_iref s"
    and "cstr DIRSIZ name \<noteq> []" "dir_map (dir_list s dir) (cstr DIRSIZ name) = None"
    and "xv6_create dir name mode s = Some (0, r, t)"
  shows "files_ok (insert (next_iref s) F) t
    \<and> (\<forall>j \<in> F - {dir}. inodes t j = inodes s j \<and> file_byte t j = file_byte s j)"
proof -
  let ?ino = "next_iref s"
  have dir: "dir < ?ino" and ok: "file_ok s dir" using assms(6-8) by (auto simp: files_ok_def)
  obtain n b u v where c: "r = Some ?ino"
      "prepared (with_inode s) ?ino (i_ino (inodes s dir)) mode b n u" "dir_inv u dir" "file_owned u dir = file_owned s dir"
      "dir_inv v dir" "dir_grew u dir v" "dir_map (dir_list v dir) = (dir_map (dir_list s dir))(cstr DIRSIZ name \<mapsto> of_nat n)"
      "t = rb_add ?ino v"
    by (rule create_core [OF assms(1-5) dir assms(9-11)])
  note N = create_new_file [OF c(2,6,3,4) ok dir assms(3)]
  note P = c(2) [unfolded prepared_def with_inode_simps with_inode_views] and L = local_dir_grew [OF c(6)]
  have iu: "inodes u j = inodes s j" if "j \<in> F" for j using P assms(8) that by auto
  have "file_ok u dir" using dir_file_ok c(3) by (simp add: dir_inv_def)
  then have ku: "kinv (frame_of u) u" by (simp add: file_ok_def)
  have oj: "file_ok s j" if "j \<in> F" for j using assms(6) that by (simp add: files_ok_def)
  have U: "file_ok u j \<and> file_owned u j = file_owned s j \<and> file_byte u j = file_byte s j" if "j \<in> F" for j
    using file_ok_transfer [OF oj [OF that] ku _ _ iu [OF that]] prepared_same [OF c(2) oj [OF that] assms(3)]
      file_owned_apart(1) [OF oj [OF that]] P by auto
  have Fu: "files_ok F u" using assms(6) U by (simp add: files_ok_def)
  have Fv: "files_ok F v" by (rule local_files_ok [OF Fu assms(7) L])
  have V: "file_owned v j = file_owned u j \<and> file_byte v j = file_byte u j \<and> inodes v j = inodes u j" if "j \<in> F" "j \<noteq> dir" for j
    using local_other [OF L _ that(2)] Fu that assms(7) by (simp add: files_ok_def)
  have nb: "b \<notin> file_owned v j" if "j \<in> F" for j
  proof -
    have "b \<notin> file_owned u j" using file_owned_apart(1) [OF oj [OF that]] U [OF that] P by auto
    moreover have "file_owned v dir \<subseteq> file_owned u dir \<union> free_blocks u" using L unfolding local_step_def by blast
    moreover have "b \<notin> free_blocks u" using P by simp
    ultimately show ?thesis using V [OF that] by (cases "j = dir") auto
  qed
  have "files_ok (insert ?ino F) v" by (rule files_ok_insert [OF Fv N(1)]) (use N(2) nb in simp)
  then have "files_ok (insert ?ino F) t" by (simp add: files_ok_def c(8) rb_add_simps rb_add_views)
  moreover have "inodes t j = inodes s j \<and> file_byte t j = file_byte s j" if "j \<in> F" "j \<noteq> dir" for j
    using V [OF that] U [OF that(1)] iu [OF that(1)] by (simp add: c(8) rb_add_simps rb_add_views)
  ultimately show ?thesis by simp
qed

section \<open>Properties\<close>

text \<open>
  C8. \<^verbatim>\<open>xv6_create\<close>, when it succeeds, has added one file: it returns a new inode object; a number \<open>n\<close>
  that was unused now has the new inode on disk and every other number the inode it had; a block \<open>b\<close> that was free
  belongs to the new file and holds its first content; the directory satisfies its invariant and maps the new name to
  \<open>n\<close>, every other name as before; the tree of active inodes maps \<open>n\<close> to the new object; and no buffer
  reference is left. The free blocks lost are exactly \<open>b\<close> and those the directory grew by, so that no block leaks;
  no other inode object changes, and of the blocks in use only the directory's, the bitmap and the inode's
  block of the table can have changed.
\<close>

theorem create_adds_file:
  assumes "dir_inv s dir" "\<not> rdonly s" "wf_itable (info s)" "icap (info s) \<le> 65536" "fi_size (info s) \<le> 8192"
    and "tree_inv s" "dir < next_iref s" "\<forall>n < icap (info s). \<not> in_use s n \<longrightarrow> tree_map s (of_nat n) = None"
    and "cstr DIRSIZ name \<noteq> []" "dir_map (dir_list s dir) (cstr DIRSIZ name) = None"
    and "xv6_create dir name mode s = Some (0, r, t)"
  shows "\<exists>n b. r = Some (next_iref s) \<and> 2 \<le> n \<and> n < icap (info s) \<and> \<not> in_use s n
    \<and> (\<forall>j < icap (info s). inode_at t j = (if j = n then new_dinode mode b else inode_at s j))
    \<and> b \<in> free_blocks s \<and> file_ok t (next_iref s) \<and> file_owned t (next_iref s) = {b}
    \<and> cache t b = new_block mode (of_nat n) (i_ino (inodes s dir))
    \<and> dir_inv t dir \<and> dir_map (dir_list t dir) = (dir_map (dir_list s dir))(cstr DIRSIZ name \<mapsto> of_nat n)
    \<and> tree_inv t \<and> tree_map t = (tree_map s)(of_nat n \<mapsto> next_iref s)
    \<and> info t = info s \<and> refs t = refs s
    \<and> b \<notin> file_owned t dir \<and> file_owned t dir \<subseteq> file_owned s dir \<union> free_blocks s
    \<and> free_blocks t = free_blocks s - ({b} \<union> file_owned t dir)
    \<and> (\<forall>j. j \<noteq> dir \<longrightarrow> j \<noteq> next_iref s \<longrightarrow> inodes t j = inodes s j)
    \<and> (\<forall>x. x \<notin> free_blocks s \<longrightarrow> x \<notin> bitmap_blocks (info s) \<longrightarrow> x \<notin> file_owned s dir \<longrightarrow> x \<noteq> iblk (info s) n \<longrightarrow>
         cache t x = cache s x)"
proof -
  have ok: "file_ok s dir" using assms(1) dir_file_ok by (simp add: dir_inv_def)
  obtain n b u v where c: "r = Some (next_iref s)"
      "prepared (with_inode s) (next_iref s) (i_ino (inodes s dir)) mode b n u" "dir_inv u dir" "file_owned u dir = file_owned s dir"
      "dir_inv v dir" "dir_grew u dir v" "dir_map (dir_list v dir) = (dir_map (dir_list s dir))(cstr DIRSIZ name \<mapsto> of_nat n)"
      "t = rb_add (next_iref s) v" "free_blocks u \<subseteq> free_blocks v \<union> file_owned v dir"
    by (rule create_core [OF assms(1-5,7,9,10,11)])
  note N = create_new_file [OF c(2,6,3,4) ok assms(7,3)]
  have n: "2 \<le> n" "n < icap (info s)" "\<not> in_use s n" using c(2) by (auto simp: prepared_def)
  have "tree_map s (of_nat n) = None" using assms(8) n by simp
  note T = create_tree [OF c(2,6) assms(6,7,3) this]
  have "dir_ok v dir" using c(5) by (simp add: dir_inv_def)
  note B = create_blocks [OF c(2,6,4) this c(9)]
  have nb: "b \<notin> file_owned v dir" using B(2) N(7) file_owned_apart(1) [OF ok] by blast
  show ?thesis
    by (intro exI [of _ n] exI [of _ b])
      (use c(1,5,7) N(1-8) n T nb B in \<open>simp add: c(8) rb_add_simps rb_add_views\<close>)
qed

text \<open>
  C9. A creation keeps the invariant of the open files and extends it to the new one: when the files of a
  set \<open>F\<close> with the directory in it satisfy \<open>files_ok\<close>, so do afterwards these and the new
  file, and the content and the inode of every file but the directory are unchanged.
\<close>

theorem create_keeps_files:
  assumes "dir_inv s dir" "\<not> rdonly s" "wf_itable (info s)" "icap (info s) \<le> 65536" "fi_size (info s) \<le> 8192"
    and "files_ok F s" "dir \<in> F" "\<forall>j \<in> F. j < next_iref s"
    and "cstr DIRSIZ name \<noteq> []" "dir_map (dir_list s dir) (cstr DIRSIZ name) = None"
    and "xv6_create dir name mode s = Some (0, r, t)"
  shows "files_ok (insert (next_iref s) F) t
    \<and> (\<forall>j \<in> F - {dir}. inodes t j = inodes s j \<and> file_byte t j = file_byte s j)"
  by (rule create_files [OF assms])

section \<open>New directories\<close>

lemma first_dirents_wf: "length (first_dirents this parent) = 2" "k < 2 \<Longrightarrow> wf_dirent (first_dirents this parent ! k)"
  "map ent_name (first_dirents this parent) = [[46], [46, 46]]"
  by (auto simp: first_dirents_def wf_dirent_def ent_name_def less_2_cases_iff)

lemma first_dirents_map:
  assumes "(ucast this :: u16) \<noteq> 0" "(ucast parent :: u16) \<noteq> 0"
  shows "tidy (first_dirents this parent)"
    "dir_map (first_dirents this parent) = [[46] \<mapsto> ucast this, [46, 46] \<mapsto> ucast parent]"
proof -
  have n: "ent_name (first_dirents this parent ! 0) = [46]" "ent_name (first_dirents this parent ! 1) = [46, 46]"
    by (simp_all add: first_dirents_def ent_name_def)
  have i: "de_inum (first_dirents this parent ! 0) = ucast this" "de_inum (first_dirents this parent ! 1) = ucast parent"
    by (simp_all add: first_dirents_def)
  have ex2: "(\<exists>k < 2. Q k) \<longleftrightarrow> Q 0 \<or> Q (1 :: nat)" for Q by (auto simp: less_2_cases_iff)
  show t: "tidy (first_dirents this parent)"
    using assms n i by (auto simp: tidy_def first_dirents_wf less_2_cases_iff)
  show "dir_map (first_dirents this parent) = [[46] \<mapsto> ucast this, [46, 46] \<mapsto> ucast parent]"
  proof
    fix nm
    have "dir_map (first_dirents this parent) nm = Some x \<longleftrightarrow> [[46] \<mapsto> ucast this, [46, 46] \<mapsto> ucast parent] nm = Some x" for x
      unfolding dir_map_Some [OF t] first_dirents_wf ex2 using n i assms by auto
    then show "dir_map (first_dirents this parent) nm = [[46] \<mapsto> ucast this, [46, 46] \<mapsto> ucast parent] nm"
      by (metis option.exhaust)
  qed
qed

text \<open>A directory of one block with the first two entries.\<close>

lemma first_dir_inv:
  assumes ok: "file_ok t i" and b: "b \<noteq> 0" "dir_addrs t i = b # replicate 12 0" "cache t b = first_block this parent"
    and sz: "i_size (inodes t i) = 32" "is_dir i t" and nz: "(ucast this :: u16) \<noteq> 0" "(ucast parent :: u16) \<noteq> 0"
  shows "dir_inv t i" "dir_list t i = first_dirents this parent"
proof -
  have l: "dir_len t i = 2" by (simp add: dir_len_def sz)
  have e: "dir_entry t i k = (if k < 2 then first_dirents this parent ! k else zero_dirent)" for k
  proof (cases "k div 64 = 0")
    case True
    then have "k mod 64 = k" by simp
    then show ?thesis using True b(1)
      by (simp add: dir_entry_def entry_def b(2) one_block(1) [OF b(1)] b(3) first_block_entries)
  next
    case False
    then have "\<not> k < 2" by auto
    with False show ?thesis by (simp add: dir_entry_def entry_def b(2) one_block(1) [OF b(1)])
  qed
  show li: "dir_list t i = first_dirents this parent"
    by (rule nth_equalityI) (simp_all add: l e first_dirents_wf dir_list_def)
  have "dir_ok t i" using ok sz by (auto simp: dir_ok_def file_ok_def kinv_self layout_vals)
  then show "dir_inv t i" using first_dirents_map(1) [OF nz] by (simp add: dir_inv_def li l e)
qed

text \<open>
  C10. \<^verbatim>\<open>xv6_mkdir\<close>, when it succeeds, has made a proper directory: the new inode is one, satisfies
  the directory invariant and holds exactly the names \<^verbatim>\<open>.\<close>, for its own number, and \<^verbatim>\<open>..\<close>,
  for the parent's; the parent has gained the new name for that number; and the new inode's size is that of
  two entries.
\<close>

theorem mkdir_makes_directory:
  assumes "dir_inv s dir" "\<not> rdonly s" "wf_itable (info s)" "icap (info s) \<le> 65536" "fi_size (info s) \<le> 8192"
    and "dir < next_iref s" "cstr DIRSIZ name \<noteq> []" "dir_map (dir_list s dir) (cstr DIRSIZ name) = None"
    and "(ucast (i_ino (inodes s dir)) :: u16) \<noteq> 0" "xv6_mkdir dir name s = Some (0, r, t)"
  shows "\<exists>ino n. r = Some ino \<and> dir_inv t ino \<and> i_ino (inodes t ino) = of_nat n \<and> i_size (inodes t ino) = 32
    \<and> dir_map (dir_list t ino) = [[46] \<mapsto> of_nat n, [46, 46] \<mapsto> ucast (i_ino (inodes s dir))]
    \<and> dir_inv t dir \<and> dir_map (dir_list t dir) = (dir_map (dir_list s dir))(cstr DIRSIZ name \<mapsto> of_nat n)"
proof -
  let ?ino = "next_iref s" and ?p = "i_ino (inodes s dir)"
  have m: "(S_IFDIR OR 0x1ff) AND S_IFMT = S_IFDIR" by (simp add: S_IFDIR_def S_IFMT_def)
  have ok: "file_ok s dir" using assms(1) dir_file_ok by (simp add: dir_inv_def)
  obtain n b u v where c: "r = Some ?ino" "prepared (with_inode s) ?ino ?p (S_IFDIR OR 0x1ff) b n u" "dir_inv u dir"
      "file_owned u dir = file_owned s dir" "dir_inv v dir" "dir_grew u dir v"
      "dir_map (dir_list v dir) = (dir_map (dir_list s dir))(cstr DIRSIZ name \<mapsto> of_nat n)" "t = rb_add ?ino v"
    by (rule create_core [OF assms(1-8) assms(10) [unfolded xv6_mkdir_def]])
  note N = create_new_file [OF c(2,6,3,4) ok assms(6,3)]
  have b0: "b \<noteq> 0" using N(7) free_nonzero ok by (auto simp: file_ok_def kinv_def)
  have n: "(ucast (of_nat n :: u32) :: u16) = of_nat n" "(ucast (of_nat n :: u32) :: u16) \<noteq> 0"
    using inum_word [of n] c(2) assms(4) by (auto simp: prepared_def)
  have f: "cache v b = first_block (of_nat n) ?p" using N(3) m by (simp add: new_block_def)
  have sz: "i_size (inodes v ?ino) = 32" "is_dir ?ino v" using N(10,11) m by simp_all
  note F = first_dir_inv [OF N(1) b0 N(9) f sz n(2) assms(9)]
  have "i_ino (inodes v ?ino) = of_nat n"
    using c(2,6) assms(6) by (auto simp: prepared_def dir_grew_def)
  then show ?thesis
    using c(1,5,7) F sz first_dirents_map(2) [OF n(2) assms(9)] n(1) unfolding c(8)
    by (intro exI [of _ ?ino] exI [of _ n]) (simp add: rb_add_simps rb_add_views)
qed

section \<open>A sample root directory\<close>

lemma sample_insert:
  assumes ok: "dir_ok u 0" and c: "dctx u 0 = \<lparr>ic_addrs = 46 # replicate 12 0, ic_size = 32, ic_dirty = False\<rparr>"
    and e: "env u = env dir_fs" and b: "cache u 46 = cache dir_fs 46"
  shows "\<exists>v. xv6_dentry_insert 0 [97] inum u = Some (0, v)"
proof -
  have p: "i_private (inodes u 0) \<noteq> None" using ok by (auto simp: dir_ok_def)
  have "\<exists>c s1. xv6_dir_iterate modcheck (dctx u 0) de_insert_callback (new_dirent [97] inum) 0 True u
      = Some (0, \<lparr>ic_addrs = 46 # replicate 12 0, ic_size = 48, ic_dirty = True\<rparr>, c, s1) \<and> inodes s1 = inodes u"
    unfolding c
    by (simp add: xv6_dir_iterate_def panic_unless_def nents_val dir_loop.simps [of _ _ _ 0] xv6_inode_addr_def
        NDIRECT_def MAXFILE_val dir_block_def dir_scan.simps [of _ _ _ _ 0] dir_scan.simps [of _ _ _ _ 1]
        dir_scan.simps [of _ _ _ _ 2] eval_defs dir_fs_block callback_defs dir_extend_def xv6_assert_def rd_dirent_wr e b)
      (simp add: zero_dirent_def DIRSIZ_def dir_fs_block(1) [symmetric] dir_fs_block(2) [symmetric])
  then show ?thesis
    using insert_unfold [OF ok, of "[97]" inum] p by (auto simp: cstrlen_def strcmp0_def DIRSIZ_def)
qed

text \<open>A mounted disk with its root directory open.\<close>

definition root_dinode :: dinode where
  "root_dinode = zero_dinode\<lparr>di_type := T_DIR, di_nlink := 1, di_size := 32, di_addrs := 46 # replicate 12 0\<rparr>"

definition root_fs :: fs where
  "root_fs = dir_fs\<lparr>cache := (cache dir_fs)(32 := wr_dinode (cache dir_fs 32) 1 root_dinode),
     next_iref := 1, inode_tree := [0], refcount := (\<lambda>_. 0)(0 := 1)\<rparr>"

lemma root_fs_simps [simp]: "info root_fs = info dir_fs" "inodes root_fs = inodes dir_fs" "env root_fs = env dir_fs"
  "rdonly root_fs = rdonly dir_fs" "next_iref root_fs = 1" "inode_tree root_fs = [0]" "itree_lock root_fs = itree_lock dir_fs"
  "itable_lock root_fs = itable_lock dir_fs" "balloc_lock root_fs = balloc_lock dir_fs" "balloc_hint root_fs = balloc_hint dir_fs"
  "cache root_fs = (cache dir_fs)(32 := wr_dinode (cache dir_fs 32) 1 root_dinode)"
  by (simp_all add: root_fs_def)

lemma dir_fs_fields: "fi_inodestart (info dir_fs) = 32" "fi_bmapstart (info dir_fs) = 45" "fi_size (info dir_fs) = 2000"
  "\<not> rdonly dir_fs" "\<not> itree_lock dir_fs" "\<not> itable_lock dir_fs" "env_alloc (env dir_fs) k" "i_ino (inodes dir_fs 0) = 1"
  by (simp_all add: dir_fs_def sample_defs)

lemma root_fs_kinv: "wf_geom (info dir_fs)" "hint_ok root_fs" "\<not> balloc_lock dir_fs" "wf_itable (info dir_fs)" "icap (info dir_fs) = 208"
proof -
  show "wf_geom (info dir_fs)" "\<not> balloc_lock dir_fs" using dir_fs_inv by (auto simp: dir_inv_def dir_ok_def)
  show "hint_ok root_fs" using dir_fs_inv by (auto simp: dir_inv_def dir_ok_def hint_ok_def hint_of_def)
  show "wf_itable (info dir_fs)" "icap (info dir_fs) = 208" by (simp_all add: wf_itable_def icap_def dir_fs_fields)
qed

lemma root_fs_free: "free_blocks root_fs = free_blocks dir_fs"
proof (rule free_blocks_cong)
  fix x assume "x < fi_size (info dir_fs)"
  then have "unat x < 8192" using dir_fs_fields(3) by (simp add: word_less_unat)
  then have "x div BPB = 0" by (simp add: word_eq_unat unat_div BPB_val)
  then have "bmblk (info dir_fs) x = 45" by (simp add: bmblk_def dir_fs_fields)
  then show "cache root_fs (bmblk (info dir_fs) x) = cache dir_fs (bmblk (info dir_fs) x)" by simp
qed simp

lemma root_fs_dir: "dir_inv root_fs 0" "dir_list root_fs 0 = [dot_dirent, dotdot_dirent]"
proof -
  have "owned (cache dir_fs) (dir_addrs dir_fs 0) = {46}" by (simp add: one_block)
  then have same: "cache root_fs x = cache dir_fs x" if "x \<in> owned (cache dir_fs) (dir_addrs dir_fs 0)" for x
    using that by auto
  note D = dir_inv_transfer [OF dir_fs_inv _ _ _ _ _ same]
  show "dir_inv root_fs 0" "dir_list root_fs 0 = [dot_dirent, dotdot_dirent]"
    using D(1,2) root_fs_kinv root_fs_free dir_fs_list by simp_all
qed

lemma root_fs_in_use: "n < 208 \<Longrightarrow> in_use root_fs n \<longleftrightarrow> n = 1"
proof -
  assume n: "n < 208"
  have z: "inode_at dir_fs j = rd_dinode zero_block (j mod 16)" if "j < 208" for j
  proof -
    have "iblk (info dir_fs) j \<noteq> 45" "iblk (info dir_fs) j \<noteq> 46"
      using iblk_below [OF root_fs_kinv(4), of j] that by (auto simp: root_fs_kinv(5) dir_fs_fields)
    then show ?thesis by (simp add: inode_at_def) (simp add: dir_fs_def)
  qed
  have wd: "wf_dinode root_dinode" by (simp add: root_dinode_def wf_dinode_def zero_dinode_def NDIRECT_def)
  have "inode_at root_fs n = (if n = 1 then root_dinode else inode_at dir_fs n)"
    using inode_at_store [OF root_fs_kinv(4) _ wd, of 1 root_fs n] n
    by (simp add: root_fs_kinv(5) iblk_def dir_fs_fields)
  then show "in_use root_fs n \<longleftrightarrow> n = 1"
    using z [OF n] by (simp add: in_use_def root_dinode_def T_DIR_def zero_dinode_def)
qed

lemma root_fs_tree: "tree_inv root_fs" "tree_map root_fs k = (if k = 1 then Some 0 else None)"
  by (simp_all add: tree_inv_def tree_key_def tree_map_def rb_find_def dir_fs_fields) (simp add: root_fs_def)

lemma root_fs_balloc: "\<exists>s1. xv6_balloc 0 (with_inode root_fs) = Some (0, 47, s1)"
  apply (simp add: balloc_unfold with_inode_def root_fs_def dir_fs_def sample_defs)
  apply (simp add: xv6_balloc_unsafe_def BPB_val BITMAP_BLOCKS_def)
  apply (subst xv6_balloc_rng.simps)
  apply (simp add: Let_def BPB_val sb_bread_def)
  apply (subst balloc_while.simps)
  apply (simp add: alloc_eval bit_mask_def rd32_wr32 del: xv6_balloc_rng.simps balloc_while.simps)
  apply (subst balloc_while.simps)
  apply (simp add: alloc_eval bit_mask_def rd32_wr32 del: xv6_balloc_rng.simps balloc_while.simps)
  done
lemma sample_create: "\<exists>t. xv6_create 0 [97] mode root_fs = Some (0, Some 1, t)"
proof -
  let ?s = "with_inode root_fs"
  have ai: "alloc_inv ?s" using root_fs_kinv dir_fs_fields by (simp add: alloc_inv_def)
  obtain s1 where ba: "xv6_balloc 0 ?s = Some (0, 47, s1)" using root_fs_balloc by blast
  obtain n u where pre: "prepared ?s 1 (i_ino (inodes ?s 0)) mode 47 n u"
      and body: "create_body 1 0 [97] mode ?s = xv6_dentry_insert 0 [97] (of_nat n) u"
    by (rule create_body_run [OF ai, of 2 47 s1 1 0 mode "[97]"])
      (use root_fs_kinv dir_fs_fields root_fs_in_use [of 2] ba in simp_all)
  note P = pre [unfolded prepared_def with_inode_simps with_inode_views]
  have w: "wf_itable (info root_fs)" using root_fs_kinv by simp
  have pre': "prepared ?s (next_iref root_fs) (i_ino (inodes root_fs 0)) mode 47 n u" using pre by simp
  note du = prepared_dir [OF pre' root_fs_dir(1) w]
  have di: "dir_inv u 0" and dl: "dir_list u 0 = [dot_dirent, dotdot_dirent]" using du root_fs_dir(2) by simp_all
  have ok: "dir_ok u 0" using di by (simp add: dir_inv_def)
  have i0: "inodes u 0 = inodes dir_fs 0" using P by auto
  have c: "dctx u 0 = \<lparr>ic_addrs = 46 # replicate 12 0, ic_size = 32, ic_dirty = False\<rparr>"
    using dir_fs_ctx by (simp add: dctx_def dir_addrs_def i0)
  have a: "dir_addrs root_fs 0 = 46 # replicate 12 0" using dir_fs_addrs(1) by (simp add: dir_addrs_def)
  have "file_ok root_fs 0" using root_fs_dir(1) dir_file_ok by (simp add: dir_inv_def)
  from prepared_same [OF pre' this w, of 46] have b: "cache u 46 = cache dir_fs 46" by (simp add: a one_block)
  have e: "env u = env dir_fs" using P by simp
  obtain v where ins: "xv6_dentry_insert 0 [97] (of_nat n) u = Some (0, v)" using sample_insert [OF ok c e b] by blast
  have "(ucast (of_nat n :: u32) :: u16) \<noteq> 0" using inum_word [of n] P root_fs_kinv(5) by auto
  moreover have "dir_map (dir_list u 0) (cstr DIRSIZ [97]) = None" using dir_fs_map by (simp add: dl dir_fs_list)
  moreover have "fi_size (info u) \<le> 8192" using P dir_fs_small by simp
  ultimately have "dir_grew u 0 v" using ins by (auto elim!: insert_map [OF di, of "[97]" "of_nat n"])
  then have l: "\<not> itree_lock v" using P dir_fs_fields by (simp add: dir_grew_def)
  have "new_inode root_fs = (Some 1, ?s)" by (simp add: new_inode_Some dir_fs_fields)
  then show ?thesis
    using body ins l by (simp add: xv6_create_def cstrlen_def DIRSIZ_def mutex_lock_itree_def)
qed

section \<open>Witnesses\<close>

lemma root_fs_limits: "wf_itable (info root_fs)" "icap (info root_fs) \<le> 65536" "fi_size (info root_fs) \<le> 8192" "\<not> rdonly root_fs"
  "dir_map (dir_list root_fs 0) (cstr DIRSIZ [97]) = None" "\<forall>n < icap (info root_fs). \<not> in_use root_fs n \<longrightarrow> tree_map root_fs (of_nat n) = None"
proof -
  show "wf_itable (info root_fs)" "icap (info root_fs) \<le> 65536" "fi_size (info root_fs) \<le> 8192" "\<not> rdonly root_fs"
    using root_fs_kinv dir_fs_fields by simp_all
  show "dir_map (dir_list root_fs 0) (cstr DIRSIZ [97]) = None" using dir_fs_map by (simp add: root_fs_dir dir_fs_list)
  have "(of_nat n :: u32) \<noteq> 1" if "n < 208" "n \<noteq> 1" for n
    using that unat_of_nat32 [of n] by auto
  then show "\<forall>n < icap (info root_fs). \<not> in_use root_fs n \<longrightarrow> tree_map root_fs (of_nat n) = None"
    by (simp add: root_fs_kinv root_fs_in_use root_fs_tree)
qed

theorem create_adds_file_witness:
  "\<exists>t. xv6_create 0 [97] 0x1ff root_fs = Some (0, Some 1, t) \<and> dir_inv t 0 \<and> dir_map (dir_list t 0) [97] \<noteq> None \<and> file_ok t 1"
proof -
  obtain t where r: "xv6_create 0 [97] 0x1ff root_fs = Some (0, Some 1, t)" using sample_create by blast
  have "0 < next_iref root_fs" "cstr DIRSIZ [97] \<noteq> []" by simp_all
  from create_adds_file [OF root_fs_dir(1) root_fs_limits(4,1,2,3) root_fs_tree(1) this(1) root_fs_limits(6) this(2) root_fs_limits(5) r]
  have "dir_inv t 0 \<and> dir_map (dir_list t 0) [97] \<noteq> None \<and> file_ok t 1" by auto
  then show ?thesis using r by blast
qed

theorem create_keeps_files_witness:
  "\<exists>t. xv6_create 0 [97] 0x1ff root_fs = Some (0, Some 1, t) \<and> files_ok {1, 0} t"
proof -
  obtain t where r: "xv6_create 0 [97] 0x1ff root_fs = Some (0, Some 1, t)" using sample_create by blast
  have "file_ok root_fs 0" using root_fs_dir(1) dir_file_ok by (simp add: dir_inv_def)
  then have F: "files_ok {0} root_fs" "0 \<in> {0 :: iref}" "\<forall>j \<in> {0}. j < next_iref root_fs" "cstr DIRSIZ [97] \<noteq> []"
    by (simp_all add: files_ok_def)
  from create_keeps_files [OF root_fs_dir(1) root_fs_limits(4,1,2,3) F root_fs_limits(5) r]
  have "files_ok {1, 0} t" by simp
  then show ?thesis using r by blast
qed

theorem mkdir_makes_directory_witness:
  "\<exists>t. xv6_mkdir 0 [97] root_fs = Some (0, Some 1, t) \<and> dir_inv t 1 \<and> dir_map (dir_list t 1) [46, 46] = Some 1"
proof -
  obtain t where r: "xv6_mkdir 0 [97] root_fs = Some (0, Some 1, t)" unfolding xv6_mkdir_def using sample_create by blast
  have p: "0 < next_iref root_fs" "cstr DIRSIZ [97] \<noteq> []" "i_ino (inodes root_fs 0) = 1" by (simp_all add: dir_fs_fields)
  have nz: "(ucast (i_ino (inodes root_fs 0)) :: u16) \<noteq> 0" unfolding p(3) by simp
  from mkdir_makes_directory [OF root_fs_dir(1) root_fs_limits(4,1,2,3) p(1,2) root_fs_limits(5) nz r]
  have "dir_inv t 1 \<and> dir_map (dir_list t 1) [46, 46] = Some 1" unfolding p(3) by auto
  then show ?thesis using r by blast
qed

end
