(* ===== verification/Dir_Complete.thy ===== *)
theory Dir_Complete
  imports File_Spec
begin

text \<open>
  Directories without faults: when every service call succeeds, a walk over the blocks of a directory ends without
  an error, whatever the callback does, so lookups and erasures give the answer of the map of names. And directories on
  the disk: a walk whose callback marks what it changes has written it to the disk when it ends without an error, so an
  erasure is deletion from the map of names, stored.
\<close>

section \<open>Walks without faults\<close>

lemma fault_freeD: "fault_free s \<Longrightarrow> env_bread (env s) n b \<and> env_sync (env s) n b = 0"
  by (simp add: fault_free_def)

lemma no_extD: "no_ext cb \<Longrightarrow> cb k e c = Some (a, e', c') \<Longrightarrow> \<not> act_dir_ext a"
  unfolding no_ext_def by metis

lemma addr_runs:
  assumes "fault_free s" "unat i < MAXFILE" "xv6_inode_addr modcheck d i False s = Some (e, b, d', t)"
  shows "e = 0 \<and> env t = env s"
  using assms by (auto simp: fault_free_def xv6_inode_addr_def inode_addr_indirect_def modcheck_def checker_bread_def sb_bread_def
      checker_data_def checker_brelse_def brelse_def Let_def split: if_splits option.splits)

lemma scan_runs:
  assumes nx: "no_ext cb" shows "dir_scan modcheck cb h i k lim act fl c s = Some (act', fl', c', t) \<Longrightarrow> \<not> act_dir_ext act \<Longrightarrow>
    env t = env s \<and> \<not> act_dir_ext act'"
proof (induction "unat lim - unat k" arbitrary: k act fl c s rule: less_induct)
  case less
  show ?case
  proof (cases "k < lim")
    case True
    have m: "unat lim - unat (k + 1) < unat lim - unat k" by (rule measure_Suc) (use True in simp)
    from less.prems(1) obtain a de c1 where cb: "cb (i * nents + k) (rd_dirent (ck_bdata modcheck h s) (unat k)) c = Some (a, de, c1)"
      and r: "(if \<not> act_cont a then Some (a, fl \<or> act_de_dirty a, c1, ck_bstore modcheck h (wr_dirent (ck_bdata modcheck h s) (unat k) de) s)
        else dir_scan modcheck cb h i (k + 1) lim a (fl \<or> act_de_dirty a) c1
          (ck_bstore modcheck h (wr_dirent (ck_bdata modcheck h s) (unat k) de) s)) = Some (act', fl', c', t)"
      using True by (subst (asm) dir_scan.simps) (auto simp: Let_def elim!: bind_SomeE)
    have e: "env (ck_bstore modcheck h x s) = env s" for x by (simp add: modcheck_def b_store_def)
    have "\<not> act_dir_ext a" by (rule no_extD [OF nx cb])
    then show ?thesis using r less.hyps [OF m] e by (auto split: if_splits)
  next
    case False
    then show ?thesis using less.prems by (subst (asm) dir_scan.simps) simp
  qed
qed

lemma block_runs:
  assumes nx: "no_ext cb" and ff: "fault_free s" and r: "dir_block modcheck cb b i off lim act c s = Some (e, act', c', t)"
    and na: "\<not> act_dir_ext act"
  shows "e = 0 \<and> env t = env s \<and> \<not> act_dir_ext act'"
proof (cases "b = 0")
  case True
  then show ?thesis using r by (auto simp: dir_block_def dest: no_extD [OF nx] elim!: bind_SomeE)
next
  case False
  obtain s1 where s1: "ck_bread modcheck b s = (Some b, s1)" "env s1 = env s"
    using ff by (simp add: fault_free_def modcheck_def checker_bread_def sb_bread_def)
  from r obtain a fl c1 s2 where sc: "dir_scan modcheck cb b i off lim act False c s1 = Some (a, fl, c1, s2)"
    and q: "(let (error, s) = (if fl then ck_bflush modcheck b s2 else (0, s2)) in Some (error, a, c1, ck_brelse modcheck b s)) = Some (e, act', c', t)"
    using False s1(1) by (auto simp: dir_block_def elim!: bind_SomeE)
  have e2: "env s2 = env s" "\<not> act_dir_ext a" using scan_runs [OF nx sc na] s1(2) by simp_all
  then have "\<And>n b. env_sync (env s2) n b = 0" using ff by (simp add: fault_free_def)
  then show ?thesis
    using q e2 by (auto simp: modcheck_def checker_bflush_def mark_buffer_dirty_def sync_dirty_buffer_def checker_brelse_def brelse_def
        Let_def split: if_splits)
qed

lemma loop_runs:
  assumes nx: "no_ext cb"
    and "fault_free s" "unat off < 64" "unat sz + 64 < 2 ^ 32" "64 * unat i + unat off + unat sz \<le> 64 * MAXFILE"
      "0 < unat off + unat sz" "dir_loop modcheck cb False i off sz act d c s = Some (e, act', d', c', t)" "\<not> act_dir_ext act"
  shows "e = 0 \<and> env t = env s \<and> \<not> act_dir_ext act'"
  using assms(2-)
proof (induction "unat sz" arbitrary: i off sz act d c s rule: less_induct)
  case less
  let ?lim = "if nents > sz + off then sz + off else nents"
  define sz' where "sz' = sz - (?lim - off)"
  note l = kdev.loop_lim [OF less.prems(2,3)]
  have z: "unat sz' = unat sz - (min 64 (unat sz + unat off) - unat off)"
    unfolding sz'_def by (rule kdev.loop_rest [OF less.prems(2) l])
  have i: "unat i < MAXFILE" using less.prems(4,5) by linarith
  from less.prems(6) [unfolded dir_loop.simps [of modcheck cb False i off sz act d c s] Let_def, folded sz'_def] obtain e1 b d1 s1 where a: "xv6_inode_addr modcheck d i False s = Some (e1, b, d1, s1)"
    and r1: "(if e1 \<noteq> 0 then Some (e1, act, d1, c, s1) else do {
       (error, act, ctx, s) \<leftarrow> dir_block modcheck cb b i off ?lim act c s1;
       if \<not> act_cont act \<or> error \<noteq> 0 then Some (error, act, d1, ctx, s)
       else if sz' = 0 then Some (error, act, d1, ctx, s)
            else dir_loop modcheck cb False (i + 1) 0 sz' act d1 ctx s }) = Some (e, act', d', c', t)"
    by (auto elim!: bind_SomeE)
  have A: "e1 = 0" "env s1 = env s" using addr_runs [OF less.prems(1) i a] by simp_all
  have ff1: "fault_free s1" using less.prems(1) A(2) by (simp add: fault_free_def)
  from r1 A(1) obtain e2 a2 c2 s2 where b: "dir_block modcheck cb b i off ?lim act c s1 = Some (e2, a2, c2, s2)"
    and r2: "(if \<not> act_cont a2 \<or> e2 \<noteq> 0 then Some (e2, a2, d1, c2, s2) else if sz' = 0 then Some (e2, a2, d1, c2, s2)
            else dir_loop modcheck cb False (i + 1) 0 sz' a2 d1 c2 s2) = Some (e, act', d', c', t)"
    by (auto elim!: bind_SomeE)
  have B: "e2 = 0" "env s2 = env s" "\<not> act_dir_ext a2" using block_runs [OF nx ff1 b less.prems(7)] A(2) by simp_all
  show ?case
  proof (cases "act_cont a2 \<and> sz' \<noteq> 0")
    case True
    have ff2: "fault_free s2" using less.prems(1) B(2) by (simp add: fault_free_def)
    have p: "0 < unat sz'" using True by (simp add: word_eq_unat)
    then have lt: "unat sz' < unat sz" "unat sz' = unat sz - (64 - unat off)" using z less.prems(2) by linarith+
    have i1: "unat (i + 1) = unat i + 1"
    proof -
      have "unat i + 1 < 2 ^ 32" using i by (simp add: MAXFILE_val)
      then show ?thesis by (simp add: unat_word_ariths)
    qed
    have u0: "unat (0 :: u32) = 0" by simp
    have "e = 0 \<and> env t = env s2 \<and> \<not> act_dir_ext act'"
      by (rule less.hyps [OF lt(1) ff2, of 0 "i + 1" a2 d1 c2])
        (use u0 less.prems(3,4) lt p i1 r2 True B(1,3) in \<open>simp_all add: word_eq_unat\<close>)
    then show ?thesis using B(2) by simp
  next
    case False
    then show ?thesis using r2 B by (auto split: if_splits)
  qed
qed

lemma iterate_runs:
  assumes ff: "fault_free s" and noext: "no_ext cb" and sz: "unat (ic_size d) \<le> MAXFILE * BSIZE" "off < 64"
    and r: "xv6_dir_iterate modcheck d cb c off False s = Some (e, d', c', t)"
  shows "e = 0"
proof (cases "off > ic_size d div 16")
  case True
  then show ?thesis using r by (auto simp: xv6_dir_iterate_def panic_unless_def split: if_splits)
next
  case False
  let ?n = "ic_size d div 16"
  from r False obtain e1 a d1 c1 s1 where pre: "ic_size d mod 16 = 0" "32 \<le> ic_size d"
    and l: "dir_loop modcheck cb False (off div nents) (off mod nents) (?n - off) xv6_diter_action_init d c s = Some (e1, a, d1, c1, s1)"
    and q: "(if e1 = 0 \<and> act_cont a \<and> act_dir_ext a then dir_extend modcheck cb False d1 c1 s1 else Some (e1, d1, c1, s1)) = Some (e, d', c', t)"
    by (auto simp: xv6_dir_iterate_def panic_unless_def Let_def elim!: bind_SomeE split: if_splits)
  have o: "off div nents = 0" "off mod nents = off" "unat off < 64"
    using sz(2) by (simp_all add: nents_val word_eq_unat word_less_unat unat_div unat_mod)
  have n: "unat ?n \<le> 64 * MAXFILE" "unat off \<le> unat ?n" "2 \<le> unat ?n"
    using sz(1) False pre(2) by (simp_all add: unat_div layout_vals word_le_unat not_less)
  have m: "unat (?n - off) = unat ?n - unat off" using n(2) by (intro unat_sub) (simp add: word_le_unat)
  have "e1 = 0 \<and> env s1 = env s \<and> \<not> act_dir_ext a"
    by (rule loop_runs [OF noext ff _ _ _ _ l]) (use o n m in \<open>simp_all add: MAXFILE_val xv6_diter_action_init_def\<close>)
  then show ?thesis using q by (auto split: if_splits)
qed
lemma dir_iterate_runs:
  assumes ok: "dir_ok s dir" and "fault_free s" "no_ext cb" "off < 64"
    and "xv6_dir_iterate modcheck (dctx s dir) cb c off False s = Some (e, d', c', t)"
  shows "e = 0"
proof -
  have "unat (ic_size (dctx s dir)) \<le> MAXFILE * BSIZE"
    using dir_ok_size(1) [OF ok] ok by (simp add: dir_ok_def)
  then show ?thesis using iterate_runs [of s cb "dctx s dir" off] assms by blast
qed

section \<open>Lookups and erasures without faults\<close>

lemma find_runs_ok:
  assumes ok: "dir_ok s dir" and ff: "fault_free s" and r: "xv6_find_inum dir name d0 o0 s = Some (e, n, de, t)"
  shows "e = 0"
  using r dir_okD(2) [OF ok] init_dctx [OF ok] dir_iterate_runs [OF ok ff noext_callbacks(1), of 0]
  by (auto simp: xv6_find_inum_def Let_def elim!: bind_SomeE split: if_splits)

lemma erase_complete:
  assumes inv: "dir_inv s dir" and ff: "fault_free s" and nm: "cstr DIRSIZ name \<noteq> []"
  shows "\<exists>t. xv6_dir_erase dir name s = Some (if erasable (dir_list s dir) (cstr DIRSIZ name) then 0 else - ENOENT, t)
    \<and> (if erasable (dir_list s dir) (cstr DIRSIZ name)
       then dir_map (dir_list t dir) = (dir_map (dir_list s dir))(cstr DIRSIZ name := None) else dir_list t dir = dir_list s dir)"
proof -
  have ok: "dir_ok s dir" using inv by (simp add: dir_inv_def)
  have d: "is_dir dir s" using dir_okD(2) [OF ok] .
  have z: "\<forall>k :: nat. \<not> name_is name zero_dirent" using name_is_zero [OF nm] by simp
  have two: "unat (2 :: u32) \<le> dir_len s dir" using dir_ok_size(5) [OF ok] by simp
  show ?thesis
  proof (cases rule: dir_search [OF ok good_callbacks(2) two noext_callbacks(2) search_erase z, of False])
    case (1 k)
    then show ?thesis by (simp add: callback_defs split: if_splits)
  next
    case (2 e d' s')
    have "e = 0" by (rule dir_iterate_runs [OF ok ff noext_callbacks(2) _ 2(1)]) simp
    then have "\<not> erasable (dir_list s dir) (cstr DIRSIZ name)"
      using 2(6) by (auto simp: erasable_def name_is_ent dir_list_def)
    moreover have "dir_list s' dir = dir_list s dir"
      using 2(5) dir_stepD(4,5) [OF 2(4)] by (simp add: dir_list_def dir_entry_def)
    ultimately show ?thesis using 2 d init_dctx [OF ok] by (simp add: xv6_dir_erase_def)
  next
    case (3 m e d' a x c' s')
    have e: "e = 0" by (rule dir_iterate_runs [OF ok ff noext_callbacks(2) _ 3(1)]) simp
    have c: "c' = (name, True)"
      using 3(7,9) by (auto simp: callback_defs name_is_def strncmp0_cstr split: if_splits)
    have "erasable (dir_list s dir) (cstr DIRSIZ name)"
      using 3(5-7) by (auto simp: erasable_def name_is_ent)
    moreover have r: "xv6_dir_erase dir name s = Some (0, s')"
      using 3(1-3) c e d init_dctx [OF ok] by (simp add: xv6_dir_erase_def)
    moreover have "dir_map (dir_list s' dir) = (dir_map (dir_list s dir))(cstr DIRSIZ name := None)"
      using erase_map [OF inv nm] r by auto
    ultimately show ?thesis by simp
  qed
qed

section \<open>Walks leave what they change on the disk\<close>

text \<open>The blocks whose buffers changed are on the disk, the others are as they were.\<close>

definition flushed :: "fs \<Rightarrow> fs \<Rightarrow> bool" where
  "flushed s t \<longleftrightarrow> (\<forall>b. disk t b = cache t b \<or> cache t b = cache s b \<and> disk t b = disk s b)"

lemma flushed_trans: "flushed s t \<Longrightarrow> flushed t u \<Longrightarrow> flushed s u"
  unfolding flushed_def by metis

lemma flushed_same: "cache t = cache s \<Longrightarrow> disk t = disk s \<Longrightarrow> flushed s t"
  by (simp add: flushed_def)

text \<open>A callback that changes an entry says so.\<close>

definition marks_dirty :: "'c xv6_diter_callback \<Rightarrow> bool" where
  "marks_dirty cb \<longleftrightarrow> (\<forall>k e c a e' c'. cb k e c = Some (a, e', c') \<longrightarrow> act_de_dirty a \<or> e' = e)"

lemma erase_marks_dirty: "marks_dirty de_erase_callback"
  by (auto simp: marks_dirty_def callback_defs split: if_splits)

lemma scan_flush:
  assumes nx: "no_ext cb" and md: "marks_dirty cb"
  shows "dir_scan modcheck cb h i k lim act fl c s = Some (act', fl', c', t) \<Longrightarrow>
    disk t = disk s \<and> (\<forall>b. b \<noteq> h \<longrightarrow> cache t b = cache s b) \<and> (\<not> fl' \<longrightarrow> \<not> fl \<and> cache t = cache s)
    \<and> (act_dir_ext act' \<longrightarrow> act_dir_ext act)"
proof (induction "unat lim - unat k" arbitrary: k act fl c s rule: less_induct)
  case less
  show ?case
  proof (cases "k < lim")
    case True
    have m: "unat lim - unat (k + 1) < unat lim - unat k" by (rule measure_Suc) (use True in simp)
    let ?w = "\<lambda>de. b_store h (wr_dirent (cache s h) (unat k) de) s"
    from less.prems obtain a de c1 where cb: "cb (i * nents + k) (rd_dirent (cache s h) (unat k)) c = Some (a, de, c1)"
      and r: "(if \<not> act_cont a then Some (a, fl \<or> act_de_dirty a, c1, ?w de)
        else dir_scan modcheck cb h i (k + 1) lim a (fl \<or> act_de_dirty a) c1 (?w de)) = Some (act', fl', c', t)"
      using True by (subst (asm) dir_scan.simps)
        (auto simp: Let_def modcheck_def checker_data_def b_data_def elim!: bind_SomeE)
    have x: "\<not> act_dir_ext a" by (rule no_extD [OF nx cb])
    have same: "cache (?w de) = cache s" if "\<not> act_de_dirty a"
    proof -
      have "de = rd_dirent (cache s h) (unat k)" using md cb that unfolding marks_dirty_def by blast
      then show ?thesis by (simp add: b_store_def)
    qed
    have w: "disk (?w de) = disk s" "\<forall>b. b \<noteq> h \<longrightarrow> cache (?w de) b = cache s b" by (simp_all add: b_store_def)
    show ?thesis
    proof (cases "act_cont a")
      case True
      then have "dir_scan modcheck cb h i (k + 1) lim a (fl \<or> act_de_dirty a) c1 (?w de) = Some (act', fl', c', t)"
        using r by simp
      from less.hyps [OF m this] show ?thesis using w same x by auto
    qed (use r w same x in auto)
  next
    case False
    then show ?thesis using less.prems by (subst (asm) dir_scan.simps) simp
  qed
qed

lemma block_flush:
  assumes "no_ext cb" "marks_dirty cb" and r: "dir_block modcheck cb b i off lim act c s = Some (e, act', c', t)"
  shows "(e = 0 \<longrightarrow> flushed s t) \<and> (act_dir_ext act' \<longrightarrow> act_dir_ext act)"
proof (cases "b = 0")
  case True
  then show ?thesis using r
    by (auto simp: dir_block_def flushed_same dest: no_extD [OF assms(1)] elim!: bind_SomeE)
next
  case False
  obtain h s1 where br: "ck_bread modcheck b s = (h, s1)" by force
  show ?thesis
  proof (cases h)
    case None
    then show ?thesis using r False br by (simp add: dir_block_def)
  next
    case (Some h')
    then have h: "h = Some b" "cache s1 = cache s" "disk s1 = disk s"
      using br by (auto simp: modcheck_def checker_bread_def sb_bread_def split: if_splits)
    from r obtain a fl c1 s2 where sc: "dir_scan modcheck cb b i off lim act False c s1 = Some (a, fl, c1, s2)"
      and q: "(let (error, s) = (if fl then ck_bflush modcheck b s2 else (0, s2)) in Some (error, a, c1, ck_brelse modcheck b s)) = Some (e, act', c', t)"
      using False br h(1) by (auto simp: dir_block_def elim!: bind_SomeE)
    note S = scan_flush [OF assms(1,2) sc]
    have "flushed s t" if "e = 0"
    proof (cases fl)
      case True
      then have "cache t = cache s2" "disk t = (disk s2)(b := cache s2 b)"
        using q that by (auto simp: modcheck_def checker_bflush_def mark_buffer_dirty_def sync_dirty_buffer_def
            checker_brelse_def brelse_def Let_def split: if_splits)
      then show ?thesis using S h by (auto simp: flushed_def)
    next
      case False
      then show ?thesis using q S h by (auto simp: modcheck_def checker_brelse_def brelse_def flushed_def)
    qed
    moreover have "act' = a" using q by (auto simp: Let_def split: prod.splits)
    ultimately show ?thesis using S by blast
  qed
qed

lemma addr_flush:
  assumes "xv6_inode_addr modcheck d i False s = Some (e, b, d', t)"
  shows "cache t = cache s" "disk t = disk s"
  using assms by (auto simp: xv6_inode_addr_def inode_addr_indirect_def modcheck_def checker_bread_def sb_bread_def
      checker_data_def checker_brelse_def brelse_def Let_def split: if_splits option.splits)

definition loop_flushed :: "fs \<Rightarrow> xv6_diter_action \<Rightarrow> int \<times> xv6_diter_action \<times> xv6_inode_ctx \<times> 'c \<times> fs \<Rightarrow> bool" where
  "loop_flushed s act r = (case r of (e, act', d', c', t) \<Rightarrow>
     (e = 0 \<longrightarrow> flushed s t) \<and> (act_dir_ext act' \<longrightarrow> act_dir_ext act))"

lemma loop_flush:
  fixes cb :: "'a xv6_diter_callback"
  assumes cb: "no_ext cb" "marks_dirty cb" and run: "dir_loop modcheck cb False i off sz act d c s = Some r"
  shows "loop_flushed s act r"
proof -
  define P where "P = (\<lambda>ck' cb' rw (i :: u32) (off :: u32) (sz :: u32) act (d :: xv6_inode_ctx) (c :: 'a) s
    (r :: int \<times> xv6_diter_action \<times> xv6_inode_ctx \<times> 'a \<times> fs).
    ck' = modcheck \<longrightarrow> cb' = cb \<longrightarrow> \<not> rw \<longrightarrow> loop_flushed s act r)"
  have "P modcheck cb False i off sz act d c s r"
  proof (rule dir_loop.raw_induct [of P, OF _ run], unfold P_def, intro impI)
    fix F :: "fs checker \<Rightarrow> 'a xv6_diter_callback \<Rightarrow> bool \<Rightarrow> u32 \<Rightarrow> u32 \<Rightarrow> u32 \<Rightarrow> xv6_diter_action \<Rightarrow>
      xv6_inode_ctx \<Rightarrow> 'a \<Rightarrow> fs \<Rightarrow> (int \<times> xv6_diter_action \<times> xv6_inode_ctx \<times> 'a \<times> fs) option"
      and ck' cb' rw i off sz act d c s r
    assume IH: "\<And>ck' cb' rw i off sz act d c s r. F ck' cb' rw i off sz act d c s = Some r \<Longrightarrow>
        ck' = modcheck \<longrightarrow> cb' = cb \<longrightarrow> \<not> rw \<longrightarrow> loop_flushed s act r"
    assume body: "do {
     (error, blockno, dir, s) \<leftarrow> xv6_inode_addr ck' d i rw s;
     if error \<noteq> 0 then Some (error, act, dir, c, s)
     else do {
       let lim = (if nents > sz + off then sz + off else nents);
       (error, act, ctx, s) \<leftarrow> dir_block ck' cb' blockno i off lim act c s;
       if \<not> act_cont act \<or> error \<noteq> 0 then Some (error, act, dir, ctx, s)
       else
         (let sz = sz - (lim - off)
          in if sz = 0 then Some (error, act, dir, ctx, s)
             else F ck' cb' rw (i + 1) 0 sz act dir ctx s)
     }
   } = Some r" and "ck' = modcheck" "cb' = cb" "\<not> rw"
    then have k: "ck' = modcheck" "cb' = cb" "rw = False" by simp_all
    from body [unfolded k Let_def] obtain e1 b d1 s1 where a: "xv6_inode_addr modcheck d i False s = Some (e1, b, d1, s1)"
      and r1: "(if e1 \<noteq> 0 then Some (e1, act, d1, c, s1) else do {
        (error, act, ctx, s) \<leftarrow> dir_block modcheck cb b i off (if nents > sz + off then sz + off else nents) act c s1;
        if \<not> act_cont act \<or> error \<noteq> 0 then Some (error, act, d1, ctx, s)
        else if sz - ((if nents > sz + off then sz + off else nents) - off) = 0 then Some (error, act, d1, ctx, s)
        else F modcheck cb False (i + 1) 0 (sz - ((if nents > sz + off then sz + off else nents) - off)) act d1 ctx s }) = Some r"
      by (auto elim!: bind_SomeE)
    have A: "flushed s s1" by (rule flushed_same [OF addr_flush [OF a]])
    show "loop_flushed s act r"
    proof (cases "e1 = 0")
      case True
      with r1 obtain e2 a2 c2 s2 where b: "dir_block modcheck cb b i off (if nents > sz + off then sz + off else nents) act c s1
            = Some (e2, a2, c2, s2)"
        and r2: "r = (e2, a2, d1, c2, s2) \<or> e2 = 0 \<and>
          F modcheck cb False (i + 1) 0 (sz - ((if nents > sz + off then sz + off else nents) - off)) a2 d1 c2 s2 = Some r"
        by (auto elim!: bind_SomeE split: if_splits)
      note B = block_flush [OF cb b]
      from r2 show ?thesis
      proof
        assume "r = (e2, a2, d1, c2, s2)"
        then show ?thesis using B flushed_trans [OF A] by (simp add: loop_flushed_def)
      next
        assume F: "e2 = 0 \<and> F modcheck cb False (i + 1) 0 (sz - ((if nents > sz + off then sz + off else nents) - off)) a2 d1 c2 s2 = Some r"
        then have "loop_flushed s2 a2 r" using IH by blast
        moreover have "flushed s s2" using F B flushed_trans [OF A] by blast
        ultimately show ?thesis using B flushed_trans [of s s2] by (cases r) (auto simp: loop_flushed_def)
      qed
    next
      case False
      then show ?thesis using r1 by (auto simp: loop_flushed_def)
    qed
  qed
  then show ?thesis by (simp add: P_def)
qed

lemma iterate_flush:
  assumes cb: "no_ext cb" "marks_dirty cb" and run: "xv6_dir_iterate modcheck d cb c off False s = Some (0, d', c', t)"
  shows "flushed s t"
proof (cases "off > ic_size d div 16")
  case True
  then show ?thesis using run by (auto simp: xv6_dir_iterate_def panic_unless_def flushed_same split: if_splits)
next
  case False
  from run False obtain e1 a d1 c1 s1 where
      l: "dir_loop modcheck cb False (off div nents) (off mod nents) (ic_size d div 16 - off) xv6_diter_action_init d c s = Some (e1, a, d1, c1, s1)"
    and q: "(if e1 = 0 \<and> act_cont a \<and> act_dir_ext a then dir_extend modcheck cb False d1 c1 s1 else Some (e1, d1, c1, s1)) = Some (0, d', c', t)"
    by (auto simp: xv6_dir_iterate_def panic_unless_def Let_def elim!: bind_SomeE split: if_splits)
  show ?thesis
    using loop_flush [OF cb l] q by (auto simp: loop_flushed_def xv6_diter_action_init_def split: if_splits)
qed

lemma erase_flush:
  assumes ok: "dir_ok s dir" and run: "xv6_dir_erase dir name s = Some (0, t)"
  shows "flushed s t"
proof -
  from run obtain e d' nm su s1 where i: "xv6_dir_iterate modcheck (dctx s dir) de_erase_callback (name, False) 2 False s = Some (e, d', (nm, su), s1)"
    and r: "(if su then e else - ENOENT) = 0" "t = ictx_alias dir d' s1"
    using dir_okD(2) [OF ok] init_dctx [OF ok] by (auto simp: xv6_dir_erase_def Let_def elim!: bind_SomeE split: if_splits)
  then have "flushed s s1" using iterate_flush [OF noext_callbacks(2) erase_marks_dirty] by (auto split: if_splits)
  moreover have "cache t = cache s1" "disk t = disk s1" using r(2) by (auto simp: ictx_alias_def upd_inode_def split: option.splits)
  ultimately show ?thesis by (simp add: flushed_def)
qed

section \<open>Properties\<close>

text \<open>
  C14. Without faults the directory answers exactly as its list of entries says: \<^verbatim>\<open>xv6_find_inum\<close> returns 0 and the
  first entry with the name, or nothing when no entry has it, and changes nothing; \<^verbatim>\<open>xv6_dir_erase\<close> returns 0 and
  has deleted the name when an entry behind the first two has it, and otherwise returns \<^verbatim>\<open>-ENOENT\<close> with the
  directory unchanged. No walk gives up early.
\<close>

theorem dir_without_faults:
  assumes "dir_inv s dir" "fault_free s" "cstr DIRSIZ name \<noteq> []"
  shows "(\<exists>n de t. xv6_find_inum dir name d0 o0 s = Some (0, n, de, t)
      \<and> (n, de) = (case name_index (dir_list s dir) (cstr DIRSIZ name) of
           None \<Rightarrow> (0, o0) | Some k \<Rightarrow> (of_nat k, dir_list s dir ! k))
      \<and> cache t = cache s \<and> inodes t = inodes s \<and> refs t = refs s)
    \<and> (\<exists>t. if erasable (dir_list s dir) (cstr DIRSIZ name)
         then xv6_dir_erase dir name s = Some (0, t)
           \<and> dir_map (dir_list t dir) = (dir_map (dir_list s dir))(cstr DIRSIZ name := None)
         else xv6_dir_erase dir name s = Some (- ENOENT, t) \<and> dir_list t dir = dir_list s dir)"
proof
  have ok: "dir_ok s dir" using assms(1) by (simp add: dir_inv_def)
  obtain e n de t where r: "xv6_find_inum dir name d0 o0 s = Some (e, n, de, t)"
    by (cases rule: find_inum_cases [OF ok assms(3), of d0 o0]) auto
  have "e = 0" by (rule find_runs_ok [OF ok assms(2) r])
  then have r0: "xv6_find_inum dir name d0 o0 s = Some (0, n, de, t)" using r by simp
  note F = find_run [OF assms(1,3) r0]
  show "\<exists>n de t. xv6_find_inum dir name d0 o0 s = Some (0, n, de, t)
      \<and> (n, de) = (case name_index (dir_list s dir) (cstr DIRSIZ name) of
           None \<Rightarrow> (0, o0) | Some k \<Rightarrow> (of_nat k, dir_list s dir ! k))
      \<and> cache t = cache s \<and> inodes t = inodes s \<and> refs t = refs s"
    using r0 F(2,5) dir_stepD(2) [OF F(1)] F(1) [unfolded dir_step_def] by blast
  show "\<exists>t. if erasable (dir_list s dir) (cstr DIRSIZ name)
         then xv6_dir_erase dir name s = Some (0, t)
           \<and> dir_map (dir_list t dir) = (dir_map (dir_list s dir))(cstr DIRSIZ name := None)
         else xv6_dir_erase dir name s = Some (- ENOENT, t) \<and> dir_list t dir = dir_list s dir"
    using erase_complete [OF assms] by (auto split: if_splits)
qed

theorem dir_without_faults_witness:
  "\<exists>t. xv6_dir_erase 0 [97] dir3_fs = Some (0, t) \<and> dir_map (dir_list t 0) [97] = None"
proof -
  have ff: "fault_free dir3_fs" by (simp add: fault_free_def dir3_fs_def dir_fs_def sample_defs)
  have "erasable (dir_list dir3_fs 0) [97]" by (auto simp: erasable_def dir3_list intro!: exI [of _ 2])
  with dir_without_faults [OF dir3_inv ff, of "[97]" 0 zero_dirent] show ?thesis by auto
qed

text \<open>
  C3. \<^verbatim>\<open>xv6_dir_erase\<close> implements deletion from the map of names: it always returns; on
  success the name was there, the entry that had it, behind the first two, is overwritten and no other entry
  changes, and the directory's blocks that changed have been written to the disk; whatever error occurs the
  directory is afterwards the old one or the one without the name, still satisfies the
  invariant, and no other inode, reference or free block changed.
\<close>

theorem dir_erase_refines_delete:
  assumes "dir_inv s dir" and "cstr DIRSIZ name \<noteq> []"
  shows "\<exists>e s'. xv6_dir_erase dir name s = Some (e, s') \<and> dir_inv s' dir \<and> dir_step s dir s'
    \<and> dir_map (dir_list s' dir) \<in> {dir_map (dir_list s dir), (dir_map (dir_list s dir))(cstr DIRSIZ name := None)}
    \<and> (e = 0 \<longrightarrow> dir_map (dir_list s dir) (cstr DIRSIZ name) \<noteq> None
         \<and> dir_map (dir_list s' dir) = (dir_map (dir_list s dir))(cstr DIRSIZ name := None)
         \<and> (\<exists>m < dir_len s dir. 2 \<le> m \<and> ent_name (dir_list s dir ! m) = cstr DIRSIZ name
              \<and> dir_list s' dir = (dir_list s dir)[m := erased_dirent])
         \<and> (\<forall>b. disk s' b = cache s' b \<or> cache s' b = cache s b \<and> disk s' b = disk s b))"
proof -
  obtain e s' where E: "xv6_dir_erase dir name s = Some (e, s')" "dir_inv s' dir" "dir_step s dir s'"
      "dir_map (dir_list s' dir) \<in> {dir_map (dir_list s dir), (dir_map (dir_list s dir))(cstr DIRSIZ name := None)}"
      "e = 0 \<longrightarrow> dir_map (dir_list s dir) (cstr DIRSIZ name) \<noteq> None
         \<and> dir_map (dir_list s' dir) = (dir_map (dir_list s dir))(cstr DIRSIZ name := None)
         \<and> (\<exists>m < dir_len s dir. 2 \<le> m \<and> ent_name (dir_list s dir ! m) = cstr DIRSIZ name
              \<and> dir_list s' dir = (dir_list s dir)[m := erased_dirent])"
    using erase_map [OF assms] by blast
  have "dir_ok s dir" using assms(1) by (simp add: dir_inv_def)
  then have "e = 0 \<longrightarrow> flushed s s'" using erase_flush E(1) by blast
  then show ?thesis using E unfolding flushed_def by blast
qed

theorem dir_erase_refines_delete_witness:
  "\<exists>t. xv6_dir_erase 0 [97] dir3_fs = Some (0, t) \<and> dir_map (dir_list dir3_fs 0) [97] \<noteq> None
     \<and> dir_map (dir_list t 0) [97] = None \<and> disk t 46 = cache t 46"
proof -
  have ff: "fault_free dir3_fs" by (simp add: fault_free_def dir3_fs_def dir_fs_def sample_defs)
  have "erasable (dir_list dir3_fs 0) [97]" by (auto simp: erasable_def dir3_list intro!: exI [of _ 2])
  then obtain t where t: "xv6_dir_erase 0 [97] dir3_fs = Some (0, t)"
    using erase_complete [OF dir3_inv ff, of "[97]"] by auto
  have E: "dir_step dir3_fs 0 t" "dir_map (dir_list dir3_fs 0) [97] \<noteq> None" "dir_map (dir_list t 0) [97] = None"
      "disk t 46 = cache t 46 \<or> cache t 46 = cache dir3_fs 46 \<and> disk t 46 = disk dir3_fs 46"
    using dir_erase_refines_delete [OF dir3_inv, of "[97]"] t by auto
  have "cache t 46 \<noteq> cache dir3_fs 46"
  proof
    assume c: "cache t 46 = cache dir3_fs 46"
    have "dir_entry t 0 = dir_entry dir3_fs 0"
      using dir_stepD(5) [OF E(1)] c by (intro ext) (simp add: dir_entry_def entry_def dir_fs_bmap)
    then have "dir_list t 0 = dir_list dir3_fs 0" using dir_stepD(4) [OF E(1)] by (simp add: dir_list_def)
    then show False using E(2,3) by simp
  qed
  then show ?thesis using t E by blast
qed

end
