(* ===== verification/Unlink_Spec.thy ===== *)
theory Unlink_Spec
  imports Create_Spec Dir_Complete
begin

text \<open>
  Removal: \<^verbatim>\<open>xv6_inode_clear\<close> gives the blocks of a file back to the pool, \<^verbatim>\<open>xv6_unlink\<close> removes
  a name and, with the last link, the file. \<open>freed B\<close> is the abstract step of releasing the blocks \<open>B\<close>; the
  loops over the direct and the indirect addresses implement it.
\<close>

section \<open>Releasing blocks\<close>

definition freed :: "u32 set \<Rightarrow> fs \<Rightarrow> fs \<Rightarrow> bool" where
  "freed B s t \<longleftrightarrow> alloc_inv t \<and> touches (bitmap_blocks (info s)) s t \<and> free_blocks s \<subseteq> free_blocks t
     \<and> free_blocks t \<subseteq> free_blocks s \<union> B \<and> (fault_free s \<longrightarrow> free_blocks t = free_blocks s \<union> B)"

lemma freed_none: "alloc_inv s \<Longrightarrow> freed {} s s"
  by (simp add: freed_def)

lemma freedD:
  assumes "freed B s t"
  shows "alloc_inv t" "touches (bitmap_blocks (info s)) s t" "info t = info s" "inodes t = inodes s" "refs t = refs s"
    "fault_free t = fault_free s" "x \<notin> bitmap_blocks (info s) \<Longrightarrow> cache t x = cache s x" "env t = env s"
proof -
  show t: "touches (bitmap_blocks (info s)) s t" and "alloc_inv t" using assms by (simp_all add: freed_def)
  note T = touchesD [OF t]
  show "info t = info s" "inodes t = inodes s" "refs t = refs s" "fault_free t = fault_free s" "env t = env s"
    using T by (simp_all add: fault_free_def)
  show "x \<notin> bitmap_blocks (info s) \<Longrightarrow> cache t x = cache s x" by (rule touches_cache [OF t])
qed

lemma freed_trans:
  assumes "freed A s t" "freed B t u" shows "freed (A \<union> B) s u"
proof -
  note D = freedD [OF assms(1)] and E = freedD [OF assms(2)]
  have "touches (bitmap_blocks (info s)) s u" using touches_trans [OF D(2)] E(2) D(3) by simp
  then show ?thesis using assms D(6) E(1) by (auto simp: freed_def)
qed

lemma bfree_fault_free:
  assumes "fault_free s" "xv6_bfree b s = Some (e, t)" "\<not> rdonly s"
  shows "e = 0"
  using assms by (auto simp: fault_free_def xv6_bfree_def xv6_bfree_unsafe_def mutex_lock_balloc_def sb_bread_def
      sync_dirty_buffer_def mark_buffer_dirty_def b_store_def xv6_assert_def Let_def elim!: bind_SomeE split: if_splits)

lemma bfree_freed:
  assumes inv: "alloc_inv s" and b: "data_block (info s) b"
  shows "\<exists>e t. xv6_bfree b s = Some (e, t) \<and> freed {b} s t"
proof -
  have k: "wf_geom (info s)" "\<not> rdonly s" "\<not> balloc_lock s" using inv by (auto simp: alloc_inv_def)
  obtain e t where r: "xv6_bfree b s = Some (e, t)"
    using k b by (cases rule: bfree_cases [of s b]) auto
  note P = bfree_pool [OF inv b r]
  have "bmblk (info s) b \<in> bitmap_blocks (info s)" using b by (intro bitmap_blocksI) (simp add: data_block_def)
  then have "touches (bitmap_blocks (info s)) s t" using touches_mono [OF P(6)] by simp
  then have "freed {b} s t"
    using P(1,4,5) bfree_fault_free [OF _ r k(2)] by (auto simp: freed_def)
  then show ?thesis using r by blast
qed

lemma ex_from: "i < n \<Longrightarrow> (\<exists>j. i \<le> j \<and> j < n \<and> Q j) \<longleftrightarrow> Q i \<or> (\<exists>j. Suc i \<le> j \<and> j < (n :: nat) \<and> Q j)"
  by (metis Suc_leD Suc_le_eq le_neq_implies_less order_refl)

text \<open>The loop over the direct addresses.\<close>

lemma clear_direct_freed:
  assumes "alloc_inv s" "n \<le> 12" "length a = 13"
    and "\<And>j. 12 - n \<le> j \<Longrightarrow> j < 12 \<Longrightarrow> a ! j \<noteq> 0 \<Longrightarrow> data_block (info s) (a ! j)"
  shows "\<exists>t. clear_direct n a s = Some (take (12 - n) a @ replicate n 0 @ [a ! 12], t)
    \<and> freed {b. b \<noteq> 0 \<and> (\<exists>j. 12 - n \<le> j \<and> j < 12 \<and> a ! j = b)} s t"
  using assms
proof (induction n arbitrary: a s)
  case 0
  then have t: "take 12 a @ [a ! 12] = a" by (intro nth_equalityI) (auto simp: nth_append less_Suc_eq numeral_eq_Suc)
  have E: "{b. b \<noteq> 0 \<and> (\<exists>j. 12 - 0 \<le> j \<and> j < 12 \<and> a ! j = b)} = {}" by auto
  show ?case unfolding E using t freed_none [OF 0(1)] by simp
next
  case (Suc n)
  define i where "i = 12 - Suc n"
  have i: "i < 12" "12 - n = Suc i" using Suc.prems(2) by (simp_all add: i_def)
  have ix: "NDIRECT - Suc n = i" by (simp add: i_def NDIRECT_def)
  let ?B = "\<lambda>k a. {b. b \<noteq> 0 \<and> (\<exists>j. k \<le> j \<and> j < 12 \<and> a ! j = b)}"
  have up: "take (Suc i) (a[i := 0]) @ replicate n 0 @ [a[i := 0] ! 12] = take i a @ replicate (Suc n) 0 @ [a ! 12]"
    using i Suc.prems(3) by (simp add: take_Suc_conv_app_nth)
  show ?case
  proof (cases "a ! i = 0")
    case True
    then have [simp]: "a[i := 0] = a" by (metis list_update_id)
    have B: "?B (Suc i) a = ?B i a" using True unfolding ex_from [OF i(1)] by auto
    obtain t where "clear_direct n a s = Some (take (12 - n) a @ replicate n 0 @ [a ! 12], t)" "freed (?B (12 - n) a) s t"
      using Suc.IH [OF Suc.prems(1) _ Suc.prems(3)] Suc.prems(2,4) by auto
    then show ?thesis using True up unfolding i(2) B i_def [symmetric] by (simp add: ix)
  next
    case False
    obtain e u where u: "xv6_bfree (a ! i) s = Some (e, u)" "freed {a ! i} s u"
      using bfree_freed [OF Suc.prems(1), of "a ! i"] Suc.prems(4) [of i] False i by (auto simp: i_def)
    have B: "{a ! i} \<union> ?B (Suc i) (a[i := 0]) = ?B i a"
      using False unfolding ex_from [OF i(1)] by (auto simp: Suc_le_eq)
    have "\<exists>t. clear_direct n (a[i := 0]) u = Some (take (12 - n) (a[i := 0]) @ replicate n 0 @ [a[i := 0] ! 12], t)
        \<and> freed (?B (12 - n) (a[i := 0])) u t"
    proof (rule Suc.IH [OF freedD(1) [OF u(2)]])
      show "data_block (info u) (a[i := 0] ! j)" if "12 - n \<le> j" "j < 12" "a[i := 0] ! j \<noteq> 0" for j
        using Suc.prems(4) [of j] that i freedD(3) [OF u(2)] by (simp add: i_def split: if_splits)
    qed (use Suc.prems in simp_all)
    then obtain t where t: "clear_direct n (a[i := 0]) u = Some (take i a @ replicate (Suc n) 0 @ [a ! 12], t)"
        "freed (?B (Suc i) (a[i := 0])) u t"
      unfolding i(2) up by blast
    from freed_trans [OF u(2) t(2)] show ?thesis
      unfolding B i_def [symmetric] using t(1) u(1) False by (simp add: ix)
  qed
qed

text \<open>The loop over the indirect addresses; \<open>bh\<close> is the buffer of the indirect block.\<close>

lemma clear_indirect_freed:
  assumes "alloc_inv s" "n \<le> 256" "bh \<notin> bitmap_blocks (info s)"
    and "\<And>j. 256 - n \<le> j \<Longrightarrow> j < 256 \<Longrightarrow> rd32 (cache s bh) (4 * j) \<noteq> 0 \<Longrightarrow> data_block (info s) (rd32 (cache s bh) (4 * j))"
  shows "\<exists>t. clear_indirect n bh s = Some t
    \<and> freed {b. b \<noteq> 0 \<and> (\<exists>j. 256 - n \<le> j \<and> j < 256 \<and> rd32 (cache s bh) (4 * j) = b)} s t"
  using assms
proof (induction n arbitrary: s)
  case 0
  have E: "{b. b \<noteq> 0 \<and> (\<exists>j. 256 - 0 \<le> j \<and> j < 256 \<and> rd32 (cache s bh) (4 * j) = b)} = {}" by auto
  show ?case unfolding E using freed_none [OF 0(1)] by simp
next
  case (Suc n)
  define i where "i = 256 - Suc n"
  define v where "v = cache s bh"
  have i: "i < 256" "256 - n = Suc i" using Suc.prems(2) by (simp_all add: i_def)
  have ix: "NINDIRECT - Suc n = i" by (simp add: i_def layout_vals)
  let ?B = "\<lambda>k. {b. b \<noteq> 0 \<and> (\<exists>j. k \<le> j \<and> j < 256 \<and> rd32 v (4 * j) = b)}"
  have db: "data_block (info s) (rd32 v (4 * j))" if "i \<le> j" "j < 256" "rd32 v (4 * j) \<noteq> 0" for j
    using Suc.prems(4) [of j] that by (simp add: i_def v_def)
  show ?case
  proof (cases "rd32 v (4 * i) = 0")
    case True
    have B: "?B (Suc i) = ?B i" using True unfolding ex_from [OF i(1)] by auto
    obtain t where "clear_indirect n bh s = Some t" "freed (?B (Suc i)) s t"
      using Suc.IH [OF Suc.prems(1) _ Suc.prems(3)] Suc.prems(2) db unfolding i(2) v_def [symmetric] by auto
    then show ?thesis using True unfolding B i_def [symmetric] v_def [symmetric] by (simp add: ix b_data_def v_def)
  next
    case False
    obtain e u where u: "xv6_bfree (rd32 v (4 * i)) s = Some (e, u)" "freed {rd32 v (4 * i)} s u"
      using bfree_freed [OF Suc.prems(1) db [OF order_refl i(1) False]] by blast
    note U = freedD [OF u(2)]
    have vu: "cache u bh = v" using U(7) [OF Suc.prems(3)] by (simp add: v_def)
    have B: "{rd32 v (4 * i)} \<union> ?B (Suc i) = ?B i" using False unfolding ex_from [OF i(1)] by auto
    obtain t where t: "clear_indirect n bh u = Some t" "freed (?B (Suc i)) u t"
      using Suc.IH [OF U(1)] Suc.prems(2,3) db U(3) unfolding i(2) vu by auto
    from freed_trans [OF u(2) t(2)] show ?thesis
      unfolding B i_def [symmetric] v_def [symmetric] using t(1) u(1) False by (simp add: ix b_data_def v_def [symmetric])
  qed
qed

text \<open>The blocks of a file, direct and indirect.\<close>

lemma owned_parts:
  "owned v a = {b. b \<noteq> 0 \<and> (\<exists>j. 0 \<le> j \<and> j < 12 \<and> a ! j = b)}
     \<union> (if a ! 12 = 0 then {} else {a ! 12} \<union> {b. b \<noteq> 0 \<and> (\<exists>j. 0 \<le> j \<and> j < 256 \<and> rd32 (v (a ! 12)) (4 * j) = b)})"
proof -
  have ind: "bmap v a (12 + j) = (if j < 256 \<and> a ! 12 \<noteq> 0 then rd32 (v (a ! 12)) (4 * j) else 0)" for j
    by (simp add: bmap_def layout_vals)
  have dir: "bmap v a i = a ! i" if "i < 12" for i using that by (simp add: bmap_def NDIRECT_def)
  have E: "(\<exists>i. bmap v a i = b) \<longleftrightarrow> (\<exists>i < 12. a ! i = b) \<or> (\<exists>j < 256. a ! 12 \<noteq> 0 \<and> rd32 (v (a ! 12)) (4 * j) = b)" if "b \<noteq> 0" for b
  proof
    assume "\<exists>i. bmap v a i = b"
    then obtain i where i: "bmap v a i = b" by blast
    show "(\<exists>i < 12. a ! i = b) \<or> (\<exists>j < 256. a ! 12 \<noteq> 0 \<and> rd32 (v (a ! 12)) (4 * j) = b)"
    proof (cases "i < 12")
      case True
      then show ?thesis using i dir by auto
    next
      case False
      then have "i = 12 + (i - 12)" by simp
      then show ?thesis using i ind [of "i - 12"] that by (metis (full_types))
    qed
  next
    assume "(\<exists>i < 12. a ! i = b) \<or> (\<exists>j < 256. a ! 12 \<noteq> 0 \<and> rd32 (v (a ! 12)) (4 * j) = b)"
    then show "\<exists>i. bmap v a i = b" using dir ind by metis
  qed
  show ?thesis
  proof (rule set_eqI)
    fix b
    show "b \<in> owned v a \<longleftrightarrow> b \<in> {b. b \<noteq> 0 \<and> (\<exists>j. 0 \<le> j \<and> j < 12 \<and> a ! j = b)}
     \<union> (if a ! 12 = 0 then {} else {a ! 12} \<union> {b. b \<noteq> 0 \<and> (\<exists>j. 0 \<le> j \<and> j < 256 \<and> rd32 (v (a ! 12)) (4 * j) = b)})"
    proof (cases "b = 0")
      case False
      then show ?thesis using E [OF False] by (auto simp: owned_def NDIRECT_def)
    qed (simp add: owned_def)
  qed
qed
section \<open>Clearing an inode\<close>

text \<open>The state of a removal under way: some of the blocks \<open>B\<close> are released, only the inode \<open>ino\<close> and the
  bitmap have changed.\<close>

definition inode_body :: "vinode \<Rightarrow> vinode" where
  "inode_body i = i\<lparr>i_private := None, i_size := 0, i_dirty := False\<rparr>"

lemma inode_body_fields:
  assumes "inode_body i = inode_body k"
  shows "i_ino i = i_ino k" "i_mode i = i_mode k" "i_nlink i = i_nlink k" "i_rwsem i = i_rwsem k"
  using assms by (cases i; cases k; simp add: inode_body_def)+

definition cleared :: "u32 set \<Rightarrow> iref \<Rightarrow> fs \<Rightarrow> fs \<Rightarrow> bool" where
  "cleared B ino s t \<longleftrightarrow> alloc_inv t \<and> info t = info s \<and> env t = env s \<and> refs t = refs s
     \<and> itable_lock t = itable_lock s \<and> itree_lock t = itree_lock s \<and> inode_tree t = inode_tree s
     \<and> refcount t = refcount s \<and> next_iref t = next_iref s
     \<and> (\<forall>x. x \<notin> bitmap_blocks (info s) \<longrightarrow> cache t x = cache s x)
     \<and> free_blocks s \<subseteq> free_blocks t \<and> free_blocks t \<subseteq> free_blocks s \<union> B
     \<and> (fault_free s \<longrightarrow> free_blocks t = free_blocks s \<union> B)
     \<and> (\<forall>j. j \<noteq> ino \<longrightarrow> inodes t j = inodes s j) \<and> inode_body (inodes t ino) = inode_body (inodes s ino)"

lemma fault_free_env: "env t = env s \<Longrightarrow> fault_free t = fault_free s"
  by (simp add: fault_free_def)

lemma cleared_trans:
  assumes c: "cleared A ino s t" "cleared B ino t u" shows "cleared (A \<union> B) ino s u"
proof -
  note C = c(1) [unfolded cleared_def] and D = c(2) [unfolded cleared_def]
  have ff: "fault_free t = fault_free s" by (rule fault_free_env) (use C in simp)
  have p: "free_blocks s \<subseteq> free_blocks t" "free_blocks t \<subseteq> free_blocks s \<union> A" "free_blocks t \<subseteq> free_blocks u"
      "free_blocks u \<subseteq> free_blocks t \<union> B" and q: "fault_free s \<Longrightarrow> free_blocks t = free_blocks s \<union> A"
      "fault_free s \<Longrightarrow> free_blocks u = free_blocks t \<union> B"
    using C D ff by simp_all
  have "free_blocks s \<subseteq> free_blocks u" "free_blocks u \<subseteq> free_blocks s \<union> (A \<union> B)"
    "fault_free s \<Longrightarrow> free_blocks u = free_blocks s \<union> (A \<union> B)"
    using p q by (blast, blast, simp add: Un_assoc)
  then show ?thesis using C D unfolding cleared_def by (intro conjI impI) simp_all
qed

lemma freed_cleared:
  assumes f: "freed B s t" shows "cleared B ino s t"
proof -
  note D = freedD [OF f] touches_tree [OF freedD(2) [OF f]] touchesD [OF freedD(2) [OF f]]
  show ?thesis using f D(7) unfolding cleared_def freed_def by (simp add: D)
qed

lemma upd_inode_views: "alloc_inv (upd_inode ino f s) = alloc_inv s" "free_blocks (upd_inode ino f s) = free_blocks s"
  by (simp_all add: alloc_inv_def hint_ok_def hint_of_def free_blocks_def bm_used_def upd_inode_def)

lemma cleared_upd: "alloc_inv s \<Longrightarrow> inode_body (f (inodes s ino)) = inode_body (inodes s ino) \<Longrightarrow> cleared {} ino s (upd_inode ino f s)"
  by (simp add: cleared_def upd_inode_views)

lemma freed_bracket:
  assumes "freed B s1 t" "s1 = s\<lparr>now := n, refs := (refs s)(b := refs s b + 1)\<rparr>"
  shows "freed B s (brelse b t)"
proof -
  have t: "touches (bitmap_blocks (info s)) s1 t" using assms by (simp add: freed_def)
  have "free_blocks s1 = free_blocks s" "fault_free s1 = fault_free s" "free_blocks (brelse b t) = free_blocks t"
    "alloc_inv (brelse b t) = alloc_inv t"
    by (simp_all add: assms(2) free_blocks_def bm_used_def fault_free_def brelse_def alloc_inv_def hint_ok_def hint_of_def)
  moreover have "touches (bitmap_blocks (info s)) s (brelse b t)"
    using t unfolding assms(2) by (cases s; cases t) (auto simp: touches_def brelse_def fun_eq_iff)
  ultimately show ?thesis using assms(1) by (simp add: freed_def)
qed
lemma freed_quiet: "quiet s t \<Longrightarrow> alloc_inv s \<Longrightarrow> freed {} s t"
  by (simp add: freed_def quiet_touches alloc_inv_def hint_ok_quiet quietD free_blocks_def quiet_used)

text \<open>Clearing up to the final \<^verbatim>\<open>xv6_sync_inode\<close>; \<open>direct a\<close> are the blocks mapped by the inode itself.\<close>

definition direct :: "u32 list \<Rightarrow> u32 set" where
  "direct a = {b. b \<noteq> 0 \<and> (\<exists>j. 0 \<le> j \<and> j < 12 \<and> a ! j = b)}"

definition clear_end :: "iref \<Rightarrow> u32 list \<Rightarrow> fs \<Rightarrow> fs" where
  "clear_end ino a s = mark_inode_dirty ino (upd_inode ino (\<lambda>i. i\<lparr>i_size := 0\<rparr>) (set_private ino (Some (a[NDIRECT := 0])) s))"

lemma clear_end_props:
  assumes "alloc_inv s"
  shows "cleared {} ino s (clear_end ino a s)" "i_private (inodes (clear_end ino a s) ino) = Some (a[12 := 0])"
    "i_size (inodes (clear_end ino a s) ino) = 0" "cache (clear_end ino a s) = cache s"
proof -
  have e: "clear_end ino a s = upd_inode ino (\<lambda>i. i\<lparr>i_private := Some (a[12 := 0]), i_size := 0, i_dirty := True\<rparr>) s"
    by (simp add: clear_end_def mark_inode_dirty_def set_private_def upd_inode_def NDIRECT_def)
  show "cleared {} ino s (clear_end ino a s)"
    unfolding e by (rule cleared_upd [OF assms]) (simp add: inode_body_def)
  show "i_private (inodes (clear_end ino a s) ino) = Some (a[12 := 0])" "i_size (inodes (clear_end ino a s) ino) = 0"
    "cache (clear_end ino a s) = cache s" by (simp_all add: e)
qed

lemma inode_clear_unfold:
  assumes p: "i_private (inodes s ino) = Some a" and d: "clear_direct 12 a s = Some (a', s1)"
  defines "s2 \<equiv> set_private ino (Some a') s1"
  shows "xv6_inode_clear ino s = (if a' ! 12 = 0 then xv6_sync_inode ino (clear_end ino a' s2)
     else case sb_bread (a' ! 12) s2 of
       (None, s) \<Rightarrow> Some (- EIO, s)
     | (Some bh, s) \<Rightarrow> do {
         s \<leftarrow> clear_indirect 256 bh s;
         (_, s) \<leftarrow> xv6_bfree (a' ! 12) (brelse bh s);
         xv6_sync_inode ino (clear_end ino a' s)
       })"
proof -
  have n: "NDIRECT = 12" "NINDIRECT = 256" by (simp_all add: layout_vals)
  show ?thesis
    unfolding xv6_inode_clear_def Let_def p n
    by (simp add: d s2_def [symmetric] clear_end_def n split_def split: option.split cong: if_cong)
qed
lemma owned_data:
  assumes "file_ok s ino" "b \<in> file_owned s ino" shows "data_block (info s) b"
  using file_owned_apart(2) [OF assms] by (simp add: meta_blocks_def)

lemma clear_run:
  assumes ok: "file_ok s ino" and inv: "alloc_inv s"
  defines "a \<equiv> dir_addrs s ino"
  obtains (io) t where "xv6_inode_clear ino s = Some (- EIO, t)" "cleared (direct a) ino s t" "\<not> fault_free s" "a ! 12 \<noteq> 0"
      "i_private (inodes t ino) = Some (replicate 12 0 @ [a ! 12])" "i_size (inodes t ino) = i_size (inodes s ino)"
  | (sync) u where "xv6_inode_clear ino s = xv6_sync_inode ino u" "cleared (file_owned s ino) ino s u"
      "i_private (inodes u ino) = Some (replicate 13 0)" "i_size (inodes u ino) = 0"
proof -
  let ?a' = "replicate 12 0 @ [a ! 12]"
  have wf: "file_wf (cache s) (free_blocks s \<union> meta_blocks s) a" and p: "i_private (inodes s ino) = Some a"
    using ok by (simp_all add: file_ok_def a_def)
  have len: "length a = 13" by (rule file_wfD(1) [OF wf])
  note parts = owned_parts [of "cache s" a, folded direct_def]
  have db: "data_block (info s) b" if "b \<in> owned (cache s) a" for b using owned_data [OF ok] that by (simp add: a_def)
  obtain s1 where s1: "clear_direct 12 a s = Some (?a', s1)" "freed (direct a) s s1"
    using clear_direct_freed [OF inv, of 12 a] len db parts by (auto simp: direct_def)
  define s2 where "s2 = set_private ino (Some ?a') s1"
  note F1 = freedD [OF s1(2)] and U = inode_clear_unfold [OF p s1(1), folded s2_def]
  have c2: "cleared (direct a) ino s s2"
    using cleared_trans [OF freed_cleared [OF s1(2)] cleared_upd [OF F1(1)], of "\<lambda>i. i\<lparr>i_private := Some ?a'\<rparr>" ino]
    by (simp add: s2_def set_private_def inode_body_def)
  then have i2: "alloc_inv s2" "info s2 = info s" "fault_free s2 = fault_free s"
    using fault_free_env [of s2 s] by (simp_all add: cleared_def)
  have p2: "i_private (inodes s2 ino) = Some ?a'" "i_size (inodes s2 ino) = i_size (inodes s ino)"
    using F1(4) by (simp_all add: s2_def set_private_def)
  have fin: "?a'[12 := 0] = replicate 13 0" by (simp add: numeral_eq_Suc)
  have nth: "?a' ! 12 = a ! 12" by (simp add: nth_append)
  show thesis
  proof (cases "a ! 12 = 0")
    case True
    note E = clear_end_props [OF i2(1), of ino ?a', unfolded fin]
    have "cleared (owned (cache s) a) ino s (clear_end ino ?a' s2)"
      using cleared_trans [OF c2 E(1)] parts True by simp
    then show ?thesis using sync E(2,3) U True nth by (simp add: a_def)
  next
    case False
    note own = parts [unfolded if_not_P [OF False]]
    have nb: "a ! 12 \<notin> bitmap_blocks (info s)"
      using file_owned_apart(3) [OF ok, of "a ! 12"] own by (simp add: a_def)
    let ?I = "{b. b \<noteq> 0 \<and> (\<exists>j. 0 \<le> j \<and> j < 256 \<and> rd32 (cache s (a ! 12)) (4 * j) = b)}"
    show ?thesis
    proof (cases rule: sb_bread_cases [of "a ! 12" s2])
      case (fail s3)
      have q: "inodes s3 = inodes s2" using quietD [OF fail(2)] by simp
      have "cleared (direct a) ino s s3"
        using cleared_trans [OF c2 freed_cleared [OF freed_quiet [OF fail(2) i2(1)]]] by simp
      moreover have "\<not> fault_free s" using fail(1) i2(3) by (auto simp: fault_free_def sb_bread_def split: if_splits)
      ultimately show ?thesis using io [of s3] U fail(1) False nth p2 q by simp
    next
      case (ok s3)
      have v: "cache s3 (a ! 12) = cache s (a ! 12)" using c2 nb by (simp add: ok(2) cleared_def)
      have i3: "alloc_inv s3" "info s3 = info s"
        using i2 by (simp_all add: ok(2) alloc_inv_def hint_ok_def hint_of_def)
      obtain s4 where s4: "clear_indirect 256 (a ! 12) s3 = Some s4" "freed ?I s3 s4"
        using clear_indirect_freed [OF i3(1), of 256 "a ! 12"] nb db own v i3(2) by (auto simp: direct_def)
      have f5: "freed ?I s2 (brelse (a ! 12) s4)" by (rule freed_bracket [OF s4(2) ok(2)])
      note F5 = freedD [OF f5]
      have "data_block (info (brelse (a ! 12) s4)) (a ! 12)" using db [of "a ! 12"] own i2(2) F5(3) by simp
      then obtain e s6 where s6: "xv6_bfree (a ! 12) (brelse (a ! 12) s4) = Some (e, s6)" "freed {a ! 12} (brelse (a ! 12) s4) s6"
        using bfree_freed [OF F5(1)] by blast
      have c6: "cleared (owned (cache s) a) ino s s6"
        using cleared_trans [OF c2 freed_cleared [OF freed_trans [OF f5 s6(2)]]] own by (simp add: Un_commute Un_left_commute)
      note E = clear_end_props [OF freedD(1) [OF s6(2)], of ino ?a', unfolded fin]
      have "xv6_inode_clear ino s = xv6_sync_inode ino (clear_end ino ?a' s6)"
        using U False nth ok(1) s4(1) s6(1) by simp
      then show ?thesis using sync E(2,3) cleared_trans [OF c6 E(1)] by (simp add: a_def)
    qed
  qed
qed
text \<open>A file whose direct blocks are gone.\<close>

lemma no_direct:
  assumes len: "length a = 13"
  shows "bmap v (replicate 12 0 @ [a ! 12]) i = (if i < 12 then 0 else bmap v a i)"
    "owned v (replicate 12 0 @ [a ! 12]) \<subseteq> owned v a"
    "file_wf v bad a \<Longrightarrow> direct a \<inter> owned v (replicate 12 0 @ [a ! 12]) = {}"
    "file_wf v bad a \<Longrightarrow> owned v (replicate 12 0 @ [a ! 12]) \<inter> bad' = {} \<Longrightarrow> file_wf v bad' (replicate 12 0 @ [a ! 12])"
proof -
  let ?a' = "replicate 12 0 @ [a ! 12]"
  have nth: "?a' ! NDIRECT = a ! NDIRECT" "j < 12 \<Longrightarrow> ?a' ! j = 0" for j by (simp_all add: nth_append NDIRECT_def)
  show b: "bmap v ?a' i = (if i < 12 then 0 else bmap v a i)" for i
    using nth by (simp add: bmap_def NDIRECT_def)
  show o: "owned v ?a' \<subseteq> owned v a" by (auto simp: owned_def nth b split: if_splits)
  show "direct a \<inter> owned v ?a' = {}" if wf: "file_wf v bad a"
  proof (rule ccontr)
    assume "direct a \<inter> owned v ?a' \<noteq> {}"
    then obtain j where j: "j < 12" "a ! j \<noteq> 0" "a ! j \<in> owned v ?a'" by (auto simp: direct_def)
    have m: "bmap v a j = a ! j" using j(1) by (simp add: bmap_def NDIRECT_def)
    from j(3) consider "a ! j = a ! NDIRECT" | i where "\<not> i < 12" "bmap v a i = a ! j"
      using j(2) by (auto simp: owned_def nth b split: if_splits)
    then show False
    proof cases
      case 1
      then show ?thesis using file_wfD(3) [OF wf] m j(2) by metis
    next
      case 2
      then show ?thesis using file_wfD(2) [OF wf] m j(1,2) by metis
    qed
  qed
  show "file_wf v bad' ?a'" if wf: "file_wf v bad a" and d: "owned v ?a' \<inter> bad' = {}"
    unfolding file_wf_def nth(1) b using d file_wfD(2,3) [OF wf] by (auto simp: NDIRECT_def)
qed

lemma no_blocks: "bmap v (replicate 13 0) i = 0" "owned v (replicate 13 0) = {}" "file_wf v bad (replicate 13 0)"
proof -
  show b: "bmap v (replicate 13 0) i = 0" for i by (simp add: bmap_def NDIRECT_def)
  show o: "owned v (replicate 13 0) = {}" by (auto simp: owned_def b NDIRECT_def)
  show "file_wf v bad (replicate 13 0)" by (simp add: file_wf_def o b NDIRECT_def)
qed

lemma sync_fault_free: "fault_free s \<Longrightarrow> xv6_sync_inode ino s = Some (e, t) \<Longrightarrow> e = 0"
  by (auto simp: fault_free_def xv6_sync_inode_def sb_bread_def sync_dirty_buffer_def mark_buffer_dirty_def b_store_def
      xv6_assert_def Let_def elim!: bind_SomeE split: if_splits)

text \<open>What \<^verbatim>\<open>xv6_inode_clear\<close> promises.\<close>

definition clear_post :: "fs \<Rightarrow> iref \<Rightarrow> int \<Rightarrow> fs \<Rightarrow> bool" where
  "clear_post s ino e t \<longleftrightarrow> (let n = unat (i_ino (inodes s ino)) in
     alloc_inv t \<and> info t = info s \<and> env t = env s \<and> refs t = refs s \<and> itable_lock t = itable_lock s
     \<and> itree_lock t = itree_lock s \<and> inode_tree t = inode_tree s \<and> refcount t = refcount s \<and> next_iref t = next_iref s
     \<and> (\<forall>x. x \<notin> bitmap_blocks (info s) \<longrightarrow> x \<noteq> iblk (info s) n \<longrightarrow> cache t x = cache s x)
     \<and> free_blocks s \<subseteq> free_blocks t \<and> free_blocks t \<subseteq> free_blocks s \<union> (file_owned s ino - file_owned t ino)
     \<and> (fault_free s \<longrightarrow> e = 0 \<and> free_blocks t = free_blocks s \<union> file_owned s ino)
     \<and> (\<forall>j. j \<noteq> ino \<longrightarrow> inodes t j = inodes s j) \<and> inode_body (inodes t ino) = inode_body (inodes s ino)
     \<and> file_ok t ino \<and> file_owned t ino \<subseteq> file_owned s ino
     \<and> (e = 0 \<longrightarrow> i_private (inodes t ino) = Some (replicate 13 0) \<and> i_size (inodes t ino) = 0
          \<and> di_addrs (inode_at t n) = replicate 13 0 \<and> di_size (inode_at t n) = 0)
     \<and> (\<forall>j < icap (info s). j \<noteq> n \<longrightarrow> inode_at t j = inode_at s j))"

text \<open>The error in the middle: the direct blocks are gone, the others still there.\<close>

lemma clear_post_io:
  assumes ok: "file_ok s ino" and w: "wf_itable (info s)" and c: "cleared (direct (dir_addrs s ino)) ino s t"
    and p: "i_private (inodes t ino) = Some (replicate 12 0 @ [dir_addrs s ino ! 12])" "i_size (inodes t ino) = i_size (inodes s ino)"
    and nf: "\<not> fault_free s" "e \<noteq> 0"
  shows "clear_post s ino e t"
proof -
  let ?a = "dir_addrs s ino" and ?a' = "replicate 12 0 @ [dir_addrs s ino ! 12]"
  note C = c [unfolded cleared_def]
  have wf: "file_wf (cache s) (free_blocks s \<union> meta_blocks s) ?a" and g: "wf_geom (info s)"
    and sz: "unat (i_size (inodes s ino)) \<le> MAXFILE * BSIZE"
    using ok by (simp_all add: file_ok_def kinv_def)
  note N = no_direct [OF file_wfD(1) [OF wf]]
  have a: "dir_addrs t ino = ?a'" by (simp add: dir_addrs_def p)
  have bm: "bmap (cache t) ?a' = bmap (cache s) ?a'"
  proof (rule bmap_view_cong)
    assume "?a' ! NDIRECT \<noteq> 0"
    then have "?a ! NDIRECT \<in> file_owned s ino" by (intro ownedI(2)) (simp add: nth_append NDIRECT_def)
    then show "cache t (?a' ! NDIRECT) = cache s (?a' ! NDIRECT)"
      using file_owned_apart(3) [OF ok] C by (simp add: nth_append NDIRECT_def)
  qed
  have o: "file_owned t ino = owned (cache s) ?a'" unfolding a by (simp add: owned_def bm)
  have "owned (cache s) ?a' \<inter> (free_blocks t \<union> meta_blocks t) = {}"
  proof -
    have "meta_blocks t = meta_blocks s" "free_blocks t \<subseteq> free_blocks s \<union> direct ?a" using C by (simp_all add: meta_blocks_def)
    then show ?thesis using file_wfD(4) [OF wf] N(2) [of "cache s"] N(3) [OF wf] by blast
  qed
  then have "file_wf (cache s) (free_blocks t \<union> meta_blocks t) ?a'" by (rule N(4) [OF wf])
  then have "file_wf (cache t) (free_blocks t \<union> meta_blocks t) ?a'"
    unfolding file_wf_def bm o [unfolded a] .
  moreover have "kinv (frame_of t) t" using C kinv_alloc by simp
  ultimately have fo: "file_ok t ino" unfolding file_ok_def a using p sz by simp
  have "direct ?a \<subseteq> file_owned s ino" using owned_parts [of "cache s" ?a] by (auto simp: direct_def)
  then have fb: "free_blocks t \<subseteq> free_blocks s \<union> (file_owned s ino - file_owned t ino)"
    unfolding o using C N(3) [OF wf] by blast
  have at: "inode_at t j = inode_at s j" if "j < icap (info s)" for j
    using iblk_apart(2) [OF g w that] C by (simp add: inode_at_def)
  show ?thesis
    unfolding clear_post_def Let_def using C fo fb at nf N(2) [of "cache s"] unfolding o by simp
qed
text \<open>The end: the empty inode is in memory, and on disk unless its block cannot be read.\<close>

lemma clear_post_sync:
  assumes ok: "file_ok s ino" and w: "wf_itable (info s)" and n: "i_ino (inodes s ino) \<noteq> 0" "unat (i_ino (inodes s ino)) < icap (info s)"
    and c: "cleared (file_owned s ino) ino s u"
    and p: "i_private (inodes u ino) = Some (replicate 13 0)" "i_size (inodes u ino) = 0"
  shows "\<exists>e t. xv6_sync_inode ino u = Some (e, t) \<and> clear_post s ino e t"
proof -
  let ?n = "unat (i_ino (inodes s ino))"
  note C = c [unfolded cleared_def]
  have g: "wf_geom (info s)" using ok by (simp add: file_ok_def kinv_def)
  have nu: "i_ino (inodes u ino) = i_ino (inodes s ino)" using C inode_body_fields(1) by blast
  have ro: "\<not> rdonly u" using C by (simp add: alloc_inv_def)
  have nz: "i_ino (inodes u ino) \<noteq> 0" using n(1) nu by simp
  have atu: "inode_at u j = inode_at s j" if "j < icap (info s)" for j
    using iblk_apart(2) [OF g w that] C by (simp add: inode_at_def)
  have ff: "fault_free u = fault_free s" by (rule fault_free_env) (use C in simp)
  have post: "clear_post s ino e t"
    if t: "info t = info u" "env t = env u" "refs t = refs u" "rdonly t = rdonly u" "balloc_lock t = balloc_lock u"
        "itable_lock t = itable_lock u" "balloc_hint t = balloc_hint u" "inodes t = inodes u"
        "itree_lock t = itree_lock u" "inode_tree t = inode_tree u" "refcount t = refcount u" "next_iref t = next_iref u"
      and ch: "\<And>x. x \<noteq> iblk (info s) ?n \<Longrightarrow> cache t x = cache u x"
      and e: "fault_free s \<longrightarrow> e = 0" "e = 0 \<longrightarrow> di_addrs (inode_at t ?n) = replicate 13 0 \<and> di_size (inode_at t ?n) = 0"
      and at: "\<And>j. j < icap (info s) \<Longrightarrow> j \<noteq> ?n \<Longrightarrow> inode_at t j = inode_at u j" for e t
  proof -
    note A = iblk_apart [OF g w n(2)]
    have fb: "free_blocks t = free_blocks u"
    proof (rule free_blocks_cong [OF t(1)])
      fix x assume "x < fi_size (info u)"
      then have "bmblk (info u) x \<noteq> iblk (info s) ?n" using A(2) bitmap_blocksI C by metis
      then show "cache t (bmblk (info u) x) = cache u (bmblk (info u) x)" by (rule ch)
    qed
    have "alloc_inv u" using C by simp
    then have ai: "alloc_inv t" by (simp add: alloc_inv_def hint_ok_def hint_of_def t)
    have a: "dir_addrs t ino = replicate 13 0" by (simp add: dir_addrs_def t p)
    have o: "file_owned t ino = {}" unfolding a by (rule no_blocks)
    have "kinv (frame_of t) t" using ai kinv_alloc by simp
    then have "file_ok t ino" unfolding file_ok_def a using no_blocks(3) by (simp add: t p)
    then show ?thesis
      unfolding clear_post_def Let_def o using C t fb ai e at atu ch p by simp
  qed
  show ?thesis
  proof (cases rule: sync_inode_cases [OF ro nz])
    case io: (1 t)
    note q = quietD [OF io(2)]
    have "itree_lock t = itree_lock u" "inode_tree t = inode_tree u" "refcount t = refcount u" "next_iref t = next_iref u"
      using touches_tree [OF quiet_touches [OF io(2)]] by simp_all
    moreover have "\<not> fault_free s" using sync_fault_free [OF _ io(1)] ff by auto
    moreover have "balloc_hint t = balloc_hint u" using io(2) by (cases t; cases u; simp add: quiet_def)
    ultimately have "clear_post s ino (- EIO) t" by (intro post) (use q in \<open>simp_all add: inode_at_def\<close>)
    then show ?thesis using io(1) by blast
  next
    case done': (2 e t)
    have wd: "wf_dinode (synced_dinode u ino)" by (rule synced_wf [OF _ p(1)]) simp
    have st: "dinode_stored u ?n (synced_dinode u ino) (e = 0) t" using done'(2) nu by simp
    have w': "wf_itable (info u)" "?n < icap (info u)" using w n C by simp_all
    note S = stored_inode_at [OF w' wd st] stored_parts [OF st]
    note T = touchesD [OF S(3)] touches_tree [OF S(3)]
    have iu: "info u = info s" using C by simp
    have "inode_at t ?n = synced_dinode u ino" using S(4) [OF w'(2)] by simp
    then have z: "di_addrs (inode_at t ?n) = replicate 13 0 \<and> di_size (inode_at t ?n) = 0"
      using p by (simp add: synced_dinode_def Let_def)
    have "clear_post s ino e t"
      by (rule post) (use T S(4-) sync_fault_free [OF _ done'(1)] ff iu z in simp_all)
    then show ?thesis using done'(1) by blast
  qed
qed

lemma inode_clear_ok:
  assumes ok: "file_ok s ino" and ro: "\<not> rdonly s" and w: "wf_itable (info s)"
    and n: "i_ino (inodes s ino) \<noteq> 0" "unat (i_ino (inodes s ino)) < icap (info s)"
  shows "\<exists>e t. xv6_inode_clear ino s = Some (e, t) \<and> clear_post s ino e t"
proof -
  have inv: "alloc_inv s" using ok ro by (simp add: file_ok_def kinv_alloc)
  show ?thesis
  proof (cases rule: clear_run [OF ok inv])
    case (1 t)
    then show ?thesis using clear_post_io [OF ok w 1(2,5,6,3)] by simp
  next
    case (2 u)
    then show ?thesis using clear_post_sync [OF ok w n 2(2-4)] by simp
  qed
qed
text \<open>The other files do not notice.\<close>

lemma clear_others:
  assumes c: "clear_post s ino e t" and F: "files_ok F s" "ino \<in> F" and w: "wf_itable (info s)"
    and n: "unat (i_ino (inodes s ino)) < icap (info s)"
  shows "files_ok F t"
    "\<forall>j \<in> F - {ino}. inodes t j = inodes s j \<and> file_owned t j = file_owned s j \<and> file_byte t j = file_byte s j"
proof -
  note C = c [unfolded clear_post_def Let_def]
  have fi: "file_ok s ino" using F by (simp add: files_ok_def)
  then have g: "wf_geom (info s)" by (simp add: file_ok_def kinv_def)
  have kt: "kinv (frame_of t) t" using C kinv_alloc by simp
  have oth: "file_ok t j \<and> file_owned t j = file_owned s j \<and> file_byte t j = file_byte s j" if "j \<in> F" "j \<noteq> ino" for j
  proof -
    have ok: "file_ok s j" and dis: "file_owned s ino \<inter> file_owned s j = {}" using F that by (auto simp: files_ok_def)
    have "free_blocks t \<subseteq> free_blocks s \<union> file_owned s ino" using C by auto
    then have "file_owned s j \<inter> free_blocks t = {}" using file_owned_apart(1) [OF ok] dis by blast
    moreover have "cache t x = cache s x" if "x \<in> file_owned s j" for x
    proof -
      have "iblk (info s) (unat (i_ino (inodes s ino))) \<in> meta_blocks s" using iblk_apart(1) [OF g w n] by (simp add: meta_blocks_def)
      then show ?thesis using file_owned_apart(2,3) [OF ok that] C by metis
    qed
    ultimately show ?thesis using file_ok_transfer [OF ok kt] C that by simp
  qed
  show "\<forall>j \<in> F - {ino}. inodes t j = inodes s j \<and> file_owned t j = file_owned s j \<and> file_byte t j = file_byte s j"
    using oth C by simp
  have "files_ok (F - {ino}) t" using F(1) oth by (simp add: files_ok_def)
  moreover have "file_ok t ino" "file_owned t ino \<subseteq> file_owned s ino" using C by simp_all
  moreover have "file_owned s ino \<inter> file_owned t j = {}" if "j \<in> F - {ino}" for j
    using F oth that by (auto simp: files_ok_def)
  ultimately have "files_ok (insert ino (F - {ino})) t" by (intro files_ok_insert) auto
  then show "files_ok F t" using F(2) by (simp add: insert_absorb)
qed

section \<open>Freeing the number\<close>

lemma ifree_fault_free: "fault_free s \<Longrightarrow> xv6_ifree inum s = Some (e, t) \<Longrightarrow> e = 0"
  by (auto simp: fault_free_def xv6_ifree_def xv6_lock_itable_def sb_bread_def sync_dirty_buffer_def mark_buffer_dirty_def
      b_store_def Let_def elim!: bind_SomeE split: if_splits)

text \<open>What \<^verbatim>\<open>xv6_ifree\<close> changes: one entry of the inode table.\<close>

definition ifree_post :: "fs \<Rightarrow> nat \<Rightarrow> int \<Rightarrow> fs \<Rightarrow> bool" where
  "ifree_post s n e t \<longleftrightarrow> touches {iblk (info s) n} s t \<and> hint_ok t \<and> free_blocks t = free_blocks s
     \<and> (fault_free s \<longrightarrow> e = 0) \<and> (e = 0 \<longrightarrow> \<not> in_use t n) \<and> (\<forall>j < icap (info s). j \<noteq> n \<longrightarrow> inode_at t j = inode_at s j)"

lemma ifree_ok_post:
  assumes inv: "wf_geom (info s)" "hint_ok s" and w: "wf_itable (info s)" and l: "\<not> itable_lock s" and n: "unat inum < icap (info s)"
  shows "\<exists>e t. xv6_ifree inum s = Some (e, t) \<and> ifree_post s (unat inum) e t"
  using l
proof (cases rule: ifree_cases [where inum = inum])
  case 1: (io t)
  note q = quietD [OF 1(2)]
  have "\<not> fault_free s" using ifree_fault_free [OF _ 1(1)] by auto
  then have "ifree_post s (unat inum) (- EIO) t"
    using inv(2) q 1(2) by (simp add: ifree_post_def quiet_touches hint_ok_quiet free_blocks_def quiet_used inode_at_def)
  then show ?thesis using 1(1) by blast
next
  case 2: (done' e t)
  have wd: "wf_dinode zero_dinode" by (simp add: wf_dinode_def zero_dinode_def NDIRECT_def)
  note S = stored_inode_at [OF w n wd 2(2)] stored_parts [OF 2(2)]
  have "inode_at t (unat inum) = zero_dinode" using S(4) [OF n] by simp
  then have "\<not> in_use t (unat inum)" by (simp add: in_use_def zero_dinode_def)
  moreover have "free_blocks t = free_blocks s"
  proof (rule free_blocks_cong [OF S(1)])
    fix x assume "x < fi_size (info s)"
    then have "bmblk (info s) x \<noteq> iblk (info s) (unat inum)" using iblk_apart(2) [OF inv(1) w n] bitmap_blocksI by metis
    then show "cache t (bmblk (info s) x) = cache s (bmblk (info s) x)" using touches_cache [OF S(3)] by simp
  qed
  moreover have "hint_ok t" using inv(2) S(1,7) by (simp add: hint_ok_def hint_of_def)
  ultimately have "ifree_post s (unat inum) e t"
    using S(3,4) ifree_fault_free [OF _ 2(1)] by (simp add: ifree_post_def)
  then show ?thesis using 2(1) by blast
qed

lemma ifree_files:
  assumes p: "ifree_post s n e t" and F: "files_ok F s" and w: "wf_itable (info s)" "n < icap (info s)" and j: "j \<in> F"
  shows "file_ok t j" "file_owned t j = file_owned s j" "file_byte t j = file_byte s j" "inodes t = inodes s"
proof -
  have t: "touches {iblk (info s) n} s t" and P: "hint_ok t" "free_blocks t = free_blocks s" using p by (simp_all add: ifree_post_def)
  note T = touchesD [OF t]
  have ok: "file_ok s j" using F j by (simp add: files_ok_def)
  then have g: "wf_geom (info s)" "\<not> balloc_lock s" by (simp_all add: file_ok_def kinv_def)
  have "iblk (info s) n \<in> meta_blocks s" using iblk_apart(1) [OF g(1) w] by (simp add: meta_blocks_def)
  then have c: "cache t x = cache s x" if "x \<in> file_owned s j" for x
    using file_owned_apart(2) [OF ok that] touches_cache [OF t, of x] by auto
  have "kinv (frame_of t) t" using P(1) g T by (simp add: kinv_def)
  note X = file_ok_transfer [OF ok this T(2) _ _ c]
  have "file_owned s j \<inter> free_blocks t = {}" using file_owned_apart(1) [OF ok] P(2) by auto
  then show "file_ok t j" "file_owned t j = file_owned s j" "file_byte t j = file_byte s j" using X T(7) by auto
  show "inodes t = inodes s" by (rule T(7))
qed
section \<open>Unlink\<close>

text \<open>The link count is no part of what makes a file well formed.\<close>

lemma dec_link:
  fixes s ino defines "t \<equiv> inode_dec_link_count ino s"
  shows "file_ok t j = file_ok s j" "dir_addrs t j = dir_addrs s j" "file_byte t j = file_byte s j" "cache t = cache s"
    "free_blocks t = free_blocks s" "info t = info s" "env t = env s" "rdonly t = rdonly s" "refs t = refs s"
    "itable_lock t = itable_lock s" "inode_at t = inode_at s" "i_nlink (inodes t ino) = i_nlink (inodes s ino) - 1"
    "i_ino (inodes t j) = i_ino (inodes s j)" "j \<noteq> ino \<Longrightarrow> inodes t j = inodes s j" "hint_ok t = hint_ok s"
    "balloc_lock t = balloc_lock s" "fault_free t = fault_free s"
proof -
  have t: "t = upd_inode ino (\<lambda>i. i\<lparr>i_nlink := i_nlink i - 1, i_dirty := True\<rparr>) s" by (simp add: t_def inode_dec_link_count_def)
  show c: "cache t = cache s" "info t = info s" "env t = env s" "rdonly t = rdonly s" "refs t = refs s"
    "itable_lock t = itable_lock s" "balloc_lock t = balloc_lock s" by (simp_all add: t)
  have i: "i_private (inodes t j) = i_private (inodes s j)" "i_size (inodes t j) = i_size (inodes s j)" for j by (simp_all add: t)
  show a: "dir_addrs t j = dir_addrs s j" for j by (simp add: dir_addrs_def i)
  show f: "free_blocks t = free_blocks s" unfolding t by (rule upd_inode_views)
  show h: "hint_ok t = hint_ok s" by (simp add: hint_ok_def hint_of_def t upd_inode_def)
  have m: "meta_blocks t = meta_blocks s" by (simp add: meta_blocks_def c)
  show "file_ok t j = file_ok s j" unfolding file_ok_def kinv_self a f m c i h by simp
  show "file_byte t j = file_byte s j" by (intro ext) (simp add: file_byte_def a c Let_def)
  show "inode_at t = inode_at s" by (simp add: inode_at_def c fun_eq_iff)
  show "fault_free t = fault_free s" by (rule fault_free_env) (rule c)
  show "i_nlink (inodes t ino) = i_nlink (inodes s ino) - 1" "i_ino (inodes t j) = i_ino (inodes s j)"
    "j \<noteq> ino \<Longrightarrow> inodes t j = inodes s j" by (simp_all add: t)
qed

lemma dec_link_files: "files_ok F (inode_dec_link_count ino s) = files_ok F s"
  by (simp add: files_ok_def dec_link)

lemma unlink_unfold:
  assumes "i_nlink (inodes s ino) = 1" "i_ino (inodes s ino) \<notin> {0, ROOTINO, i_ino (inodes s dir)}"
  shows "xv6_unlink dir ino name s = do {
     (error, s1) \<leftarrow> xv6_inode_clear ino (inode_dec_link_count ino s);
     if error \<noteq> 0 then Some (error, s1)
     else do {
       (error, s1) \<leftarrow> xv6_dir_erase dir name s1;
       (error, s1) \<leftarrow> xv6_ifree (i_ino (inodes s ino)) s1;
       Some (error, s1)
     } }"
  using assms by (simp add: xv6_unlink_def Let_def dec_link xv6_assert_def)
lemma ifree_dir:
  assumes p: "ifree_post s n e t" and d: "dir_inv s dir" and w: "wf_itable (info s)" "n < icap (info s)"
  shows "dir_inv t dir" "dir_list t dir = dir_list s dir"
proof -
  have t: "touches {iblk (info s) n} s t" and P: "hint_ok t" "free_blocks t = free_blocks s" using p by (simp_all add: ifree_post_def)
  note T = touchesD [OF t]
  have ok: "file_ok s dir" using d dir_file_ok by (simp add: dir_inv_def)
  then have g: "wf_geom (info s)" "\<not> balloc_lock s" by (simp_all add: file_ok_def kinv_def)
  have "iblk (info s) n \<in> meta_blocks s" using iblk_apart(1) [OF g(1) w] by (simp add: meta_blocks_def)
  then have c: "cache t x = cache s x" if "x \<in> file_owned s dir" for x
    using file_owned_apart(2) [OF ok that] touches_cache [OF t, of x] by auto
  note D = dir_inv_cong [OF d T(2) P(1) _ _ _ c]
  have "file_owned s dir \<inter> free_blocks t = {}" using file_owned_apart(1) [OF ok] P(2) by auto
  then show "dir_inv t dir" "dir_list t dir = dir_list s dir" using D T g by auto
qed

text \<open>The rest of an unlink, once the inode is clear: the name and the number.\<close>

lemma erase_ifree:
  assumes F: "files_ok F s" "dir \<in> F" and d: "dir_inv s dir" and l: "\<not> itable_lock s" and w: "wf_itable (info s)"
    and n: "unat inum < icap (info s)" and nm: "cstr DIRSIZ name \<noteq> []"
  obtains e u e' t where "xv6_dir_erase dir name s = Some (e, u)" "xv6_ifree inum u = Some (e', t)" "files_ok F t" "dir_inv t dir"
    "free_blocks t = free_blocks s" "refs t = refs s" "fault_free s \<longrightarrow> e' = 0" "e' = 0 \<longrightarrow> \<not> in_use t (unat inum)"
    "dir_map (dir_list t dir) \<in> {dir_map (dir_list s dir), (dir_map (dir_list s dir))(cstr DIRSIZ name := None)}"
    "fault_free s \<longrightarrow> erasable (dir_list s dir) (cstr DIRSIZ name) \<longrightarrow>
       dir_map (dir_list t dir) = (dir_map (dir_list s dir))(cstr DIRSIZ name := None)"
    "\<And>j. j < icap (info s) \<Longrightarrow> j \<noteq> unat inum \<Longrightarrow> inode_at t j = inode_at s j"
    "\<And>j. j \<in> F \<Longrightarrow> j \<noteq> dir \<Longrightarrow> inodes t j = inodes s j \<and> file_byte t j = file_byte s j"
proof -
  obtain e u where r: "xv6_dir_erase dir name s = Some (e, u)" and du: "dir_inv u dir" "dir_step s dir u"
      and m: "dir_map (dir_list u dir) \<in> {dir_map (dir_list s dir), (dir_map (dir_list s dir))(cstr DIRSIZ name := None)}"
    using erase_map [OF d nm] by auto
  have er: "dir_map (dir_list u dir) = (dir_map (dir_list s dir))(cstr DIRSIZ name := None)"
    if "fault_free s" "erasable (dir_list s dir) (cstr DIRSIZ name)"
    using erase_complete [OF d that(1) nm] that(2) r by auto
  note L = local_dir_step [OF du(2)]
  have Fu: "files_ok F u" by (rule local_files_ok [OF F L])
  have fr: "frame_of u = frame_of s" "refs u = refs s" "free_blocks u = free_blocks s" using du(2) by (simp_all add: dir_step_def)
  then have f: "info u = info s" "env u = env s" "itable_lock u = itable_lock s" by (simp_all add: frame_of_def)
  have g: "wf_geom (info u)" "hint_ok u" using du(1) by (auto simp: dir_inv_def dir_ok_def)
  have ff: "fault_free u = fault_free s" by (rule fault_free_env) (rule f)
  have nu: "wf_itable (info u)" "unat inum < icap (info u)" using w n f(1) by simp_all
  have lu: "\<not> itable_lock u" using l f(3) by simp
  obtain e' t where r': "xv6_ifree inum u = Some (e', t)" and p: "ifree_post u (unat inum) e' t"
    using ifree_ok_post [OF g nu(1) lu nu(2)] by blast
  note I = ifree_files [OF p Fu nu] and D = ifree_dir [OF p du(1) nu] and P = p [unfolded ifree_post_def]
  have ok: "file_ok s dir" using F by (simp add: files_ok_def)
  show thesis
  proof (rule that [OF r r'])
    show "files_ok F t" using Fu I by (simp add: files_ok_def)
    show "inode_at t j = inode_at s j" if "j < icap (info s)" "j \<noteq> unat inum" for j
      using P local_inode_at [OF L ok w] that f(1) by simp
    show "inodes t j = inodes s j \<and> file_byte t j = file_byte s j" if "j \<in> F" "j \<noteq> dir" for j
    proof -
      have "file_ok s j" "file_owned s dir \<inter> file_owned s j = {}" using F that by (auto simp: files_ok_def)
      then show ?thesis using local_other(3,4) [OF L _ that(2)] I(3,4) [OF that(1)] by simp
    qed
    show "refs t = refs s" using P fr(2) touchesD(1) by metis
  qed (use D m er P fr ff in simp_all)
qed

lemma unlink_last:
  assumes "files_ok F s" "ino \<in> F" "dir \<in> F" "dir_inv s dir" "\<not> rdonly s" "\<not> itable_lock s" "wf_itable (info s)"
    and "i_nlink (inodes s ino) = 1" "i_ino (inodes s ino) \<notin> {0, ROOTINO, i_ino (inodes s dir)}"
    and "unat (i_ino (inodes s ino)) < icap (info s)" "cstr DIRSIZ name \<noteq> []"
  shows "\<exists>e t. xv6_unlink dir ino name s = Some (e, t) \<and> files_ok F t \<and> dir_inv t dir
    \<and> free_blocks s \<subseteq> free_blocks t \<and> free_blocks t \<subseteq> free_blocks s \<union> file_owned s ino
    \<and> (fault_free s \<longrightarrow> e = 0 \<and> free_blocks t = free_blocks s \<union> file_owned s ino)
    \<and> dir_map (dir_list t dir) \<in> {dir_map (dir_list s dir), (dir_map (dir_list s dir))(cstr DIRSIZ name := None)}
    \<and> (fault_free s \<longrightarrow> erasable (dir_list s dir) (cstr DIRSIZ name) \<longrightarrow>
         dir_map (dir_list t dir) = (dir_map (dir_list s dir))(cstr DIRSIZ name := None))
    \<and> (let n = unat (i_ino (inodes s ino))
       in (e = 0 \<longrightarrow> \<not> in_use t n) \<and> (\<forall>j < icap (info s). j \<noteq> n \<longrightarrow> inode_at t j = inode_at s j))
    \<and> (\<forall>j \<in> F - {ino, dir}. inodes t j = inodes s j \<and> file_byte t j = file_byte s j) \<and> refs t = refs s"
proof -
  let ?s = "inode_dec_link_count ino s" and ?n = "unat (i_ino (inodes s ino))"
  let ?old = "dir_map (dir_list s dir)"
  have ne: "ino \<noteq> dir" using assms(9) by auto
  have F0: "files_ok F ?s" using assms(1) by (simp add: dec_link_files)
  have ok0: "file_ok ?s ino" using F0 assms(2) by (simp add: files_ok_def)
  have own0: "file_owned ?s j = file_owned s j" for j by (simp add: dec_link)
  obtain e1 s1 where r1: "xv6_inode_clear ino ?s = Some (e1, s1)" and c: "clear_post ?s ino e1 s1"
    using inode_clear_ok [OF ok0] assms(5,7,9,10) by (auto simp: dec_link)
  have w0: "wf_itable (info ?s)" "unat (i_ino (inodes ?s ino)) < icap (info ?s)" using assms(7,10) by (simp_all add: dec_link)
  note O = clear_others [OF c F0 assms(2) w0] and C = c [unfolded clear_post_def Let_def dec_link own0]
  have pool1: "free_blocks s \<subseteq> free_blocks s1" "free_blocks s1 \<subseteq> free_blocks s \<union> file_owned s ino" using C by auto
  have oth1: "inodes s1 j = inodes s j \<and> file_byte s1 j = file_byte s j" if "j \<in> F" "j \<noteq> ino" for j
    using O(2) that by (simp add: dec_link)
  have D1: "dir_inv s1 dir \<and> dir_list s1 dir = dir_list s dir"
  proof -
    have od: "file_ok s dir" "file_owned s ino \<inter> file_owned s dir = {}" using assms(1-3) ne by (auto simp: files_ok_def)
    then have g: "wf_geom (info s)" by (simp add: file_ok_def kinv_def)
    have "iblk (info s) ?n \<in> meta_blocks s" using iblk_apart(1) [OF g assms(7,10)] by (simp add: meta_blocks_def)
    then have same: "cache s1 x = cache s x" if "x \<in> file_owned s dir" for x
      using file_owned_apart(2,3) [OF od(1) that] C by metis
    have "file_owned s dir \<inter> free_blocks s1 = {}" using pool1(2) od(2) file_owned_apart(1) [OF od(1)] by blast
    then show ?thesis
      using dir_inv_cong [OF assms(4) _ _ _ _ _ same] C oth1 [OF assms(3)] ne by (simp add: alloc_inv_def)
  qed
  show ?thesis
  proof (cases "e1 = 0")
    case False
    then have "xv6_unlink dir ino name s = Some (e1, s1)" by (simp add: unlink_unfold [OF assms(8,9)] r1)
    then show ?thesis using False O(1) C D1 pool1 oth1 by (simp add: Let_def)
  next
    case True
    have l1: "\<not> itable_lock s1" "wf_itable (info s1)" "?n < icap (info s1)" using C assms(6,7,10) by simp_all
    obtain e2 s2 e3 t where r: "xv6_dir_erase dir name s1 = Some (e2, s2)" "xv6_ifree (i_ino (inodes s ino)) s2 = Some (e3, t)"
      and T: "files_ok F t" "dir_inv t dir" "free_blocks t = free_blocks s1" "refs t = refs s1" "fault_free s1 \<longrightarrow> e3 = 0"
        "e3 = 0 \<longrightarrow> \<not> in_use t ?n"
        "dir_map (dir_list t dir) \<in> {dir_map (dir_list s1 dir), (dir_map (dir_list s1 dir))(cstr DIRSIZ name := None)}"
        "fault_free s1 \<longrightarrow> erasable (dir_list s1 dir) (cstr DIRSIZ name) \<longrightarrow>
           dir_map (dir_list t dir) = (dir_map (dir_list s1 dir))(cstr DIRSIZ name := None)"
      and at: "\<And>j. j < icap (info s1) \<Longrightarrow> j \<noteq> ?n \<Longrightarrow> inode_at t j = inode_at s1 j"
      and oth: "\<And>j. j \<in> F \<Longrightarrow> j \<noteq> dir \<Longrightarrow> inodes t j = inodes s1 j \<and> file_byte t j = file_byte s1 j"
      by (rule erase_ifree [OF O(1) assms(3) conjunct1 [OF D1] l1 assms(11)]) blast
    have "xv6_unlink dir ino name s = Some (e3, t)"
      using r1 r True by (simp add: unlink_unfold [OF assms(8,9)])
    moreover have "fault_free s1 = fault_free s" by (rule fault_free_env) (use C in simp)
    ultimately show ?thesis
      using T D1 pool1 C at oth oth1 unfolding Let_def by simp
  qed
qed
section \<open>Properties\<close>

text \<open>
  C11. \<^verbatim>\<open>xv6_inode_clear\<close> gives the blocks of a file back: on files that satisfy the invariant it always
  returns (no release panics, since no block of a file is metadata); every block released is one of the file and
  the file has lost it, without faults all of them are; on success the inode is empty, in memory and on disk;
  other files, other inodes and all buffer references are as before, and the invariant of the files holds again.
\<close>

theorem inode_clear_releases:
  assumes "files_ok F s" "ino \<in> F" "\<not> rdonly s" "wf_itable (info s)"
    and "i_ino (inodes s ino) \<noteq> 0" "unat (i_ino (inodes s ino)) < icap (info s)"
  shows "\<exists>e t. xv6_inode_clear ino s = Some (e, t) \<and> files_ok F t
    \<and> free_blocks s \<subseteq> free_blocks t \<and> free_blocks t \<subseteq> free_blocks s \<union> (file_owned s ino - file_owned t ino)
    \<and> (fault_free s \<longrightarrow> e = 0 \<and> free_blocks t = free_blocks s \<union> file_owned s ino)
    \<and> (let n = unat (i_ino (inodes s ino))
       in (e = 0 \<longrightarrow> file_owned t ino = {} \<and> i_size (inodes t ino) = 0
            \<and> di_addrs (inode_at t n) = replicate 13 0 \<and> di_size (inode_at t n) = 0)
        \<and> (\<forall>j < icap (info s). j \<noteq> n \<longrightarrow> inode_at t j = inode_at s j))
    \<and> (\<forall>j \<in> F - {ino}. inodes t j = inodes s j \<and> file_byte t j = file_byte s j) \<and> refs t = refs s"
proof -
  have ok: "file_ok s ino" using assms(1,2) by (simp add: files_ok_def)
  obtain e t where r: "xv6_inode_clear ino s = Some (e, t)" "clear_post s ino e t"
    using inode_clear_ok [OF ok assms(3-6)] by blast
  note O = clear_others [OF r(2) assms(1,2,4,6)] and C = r(2) [unfolded clear_post_def Let_def]
  have "e = 0 \<longrightarrow> file_owned t ino = {}"
  proof
    assume "e = 0"
    then have "dir_addrs t ino = replicate 13 0" using C by (simp add: dir_addrs_def)
    then show "file_owned t ino = {}" by (simp add: no_blocks)
  qed
  with r(1) O C show ?thesis unfolding Let_def by simp
qed

text \<open>
  C12. \<^verbatim>\<open>xv6_unlink\<close> of the last link always returns and removes the file: on success its inode
  number is unused, and every block released was one of the file; without faults the call succeeds and all of them
  are, and the name, if an entry behind the first two has it, is gone; with faults the name may remain; either way the directory and all files
  satisfy their invariants, and the contents of the other files and the other inodes are unchanged.
\<close>

theorem unlink_removes_file:
  assumes "files_ok F s" "ino \<in> F" "dir \<in> F" "dir_inv s dir" "\<not> rdonly s" "\<not> itable_lock s" "wf_itable (info s)"
    and "i_nlink (inodes s ino) = 1" "i_ino (inodes s ino) \<notin> {0, ROOTINO, i_ino (inodes s dir)}"
    and "unat (i_ino (inodes s ino)) < icap (info s)" "cstr DIRSIZ name \<noteq> []"
  shows "\<exists>e t. xv6_unlink dir ino name s = Some (e, t) \<and> files_ok F t \<and> dir_inv t dir
    \<and> free_blocks s \<subseteq> free_blocks t \<and> free_blocks t \<subseteq> free_blocks s \<union> file_owned s ino
    \<and> (fault_free s \<longrightarrow> e = 0 \<and> free_blocks t = free_blocks s \<union> file_owned s ino)
    \<and> dir_map (dir_list t dir) \<in> {dir_map (dir_list s dir), (dir_map (dir_list s dir))(cstr DIRSIZ name := None)}
    \<and> (fault_free s \<longrightarrow> erasable (dir_list s dir) (cstr DIRSIZ name) \<longrightarrow>
         dir_map (dir_list t dir) = (dir_map (dir_list s dir))(cstr DIRSIZ name := None))
    \<and> (let n = unat (i_ino (inodes s ino))
       in (e = 0 \<longrightarrow> \<not> in_use t n) \<and> (\<forall>j < icap (info s). j \<noteq> n \<longrightarrow> inode_at t j = inode_at s j))
    \<and> (\<forall>j \<in> F - {ino, dir}. inodes t j = inodes s j \<and> file_byte t j = file_byte s j) \<and> refs t = refs s"
  by (rule unlink_last [OF assms])

section \<open>Creation undone\<close>

lemma created_frame:
  assumes "prepared (with_inode s) (next_iref s) p mode b n u" "dir_grew u dir v" "dir < next_iref s"
  shows "env v = env s" "rdonly v = rdonly s" "itable_lock v = itable_lock s" "i_ino (inodes v dir) = i_ino (inodes s dir)"
  using assms by (auto simp: prepared_def dir_grew_def)

text \<open>
  C13. \<^verbatim>\<open>xv6_unlink\<close> undoes \<^verbatim>\<open>xv6_create\<close>: without faults, removing the file just created (in a
  directory whose first two entries are in use) succeeds; the directory maps the names it mapped before, the same inode numbers are in use with the same contents, and the
  block of the file is free again.
\<close>

theorem create_unlink_roundtrip:
  assumes "dir_inv s dir" "\<not> rdonly s" "\<not> itable_lock s" "wf_itable (info s)" "icap (info s) \<le> 65536" "fi_size (info s) \<le> 8192"
    and "dir < next_iref s" "fault_free s" "in_use s (unat (i_ino (inodes s dir)))"
    and "cstr DIRSIZ name \<noteq> []" "dir_map (dir_list s dir) (cstr DIRSIZ name) = None"
    and "xv6_create dir name mode s = Some (0, r, t)" "\<forall>k < 2. de_inum (dir_list s dir ! k) \<noteq> 0"
  shows "\<exists>u b. xv6_unlink dir (next_iref s) name t = Some (0, u) \<and> dir_inv u dir
    \<and> dir_map (dir_list u dir) = dir_map (dir_list s dir)
    \<and> (\<forall>j < icap (info s). in_use u j = in_use s j \<and> (in_use s j \<longrightarrow> inode_at u j = inode_at s j))
    \<and> b \<in> free_blocks s - free_blocks t \<and> free_blocks u = insert b (free_blocks t) \<and> refs u = refs s"
proof -
  let ?ino = "next_iref s" and ?nm = "cstr DIRSIZ name"
  have ok: "file_ok s dir" using assms(1) dir_file_ok by (simp add: dir_inv_def)
  then have F0: "files_ok {dir} s" "dir \<in> {dir}" "\<forall>j \<in> {dir}. j < ?ino" using assms(7) by (simp_all add: files_ok_def)
  have Ft: "files_ok {?ino, dir} t"
    using create_files [OF assms(1,2,4,5,6) F0 assms(10,11,12)] by simp
  obtain n b u v where c: "prepared (with_inode s) ?ino (i_ino (inodes s dir)) mode b n u" "dir_inv u dir"
      "file_owned u dir = file_owned s dir" "dir_inv v dir" "dir_grew u dir v"
      "dir_map (dir_list v dir) = (dir_map (dir_list s dir))(?nm \<mapsto> of_nat n)" "t = rb_add ?ino v"
      "(\<forall>k < 2. de_inum (dir_list s dir ! k) \<noteq> 0) \<longrightarrow> erasable (dir_list v dir) ?nm"
    by (rule create_core [OF assms(1,2,4,5,6,7,10,11,12)])
  note N = create_new_file [OF c(1,5,2,3) ok assms(7,4)] and K = created_frame [OF c(1,5) assms(7)]
  have n: "2 \<le> n" "n < icap (info s)" "\<not> in_use s n" using c(1) by (auto simp: prepared_def)
  have un: "unat (of_nat n :: u32) = n" using n(2) assms(5) by (intro unat_of_nat32) simp
  have T: "dir_inv t dir" "\<not> rdonly t" "\<not> itable_lock t" "wf_itable (info t)" "i_nlink (inodes t ?ino) = 1" "info t = info s"
      "i_ino (inodes t ?ino) = of_nat n" "fault_free t" "i_ino (inodes t dir) = i_ino (inodes s dir)" "file_owned t ?ino = {b}"
      "refs t = refs s"
    using c(4) K assms(2-4,8) N by (simp_all add: c(7) rb_add_views rb_add_simps) (simp_all add: rb_add_def fault_free_def)
  have ni: "i_ino (inodes t ?ino) \<notin> {0, ROOTINO, i_ino (inodes t dir)}"
    using un n assms(9) T(7,9) by (auto simp: ROOTINO_def)
  have cap: "unat (i_ino (inodes t ?ino)) < icap (info t)" using T(6,7) un n(2) by simp
  have mt: "dir_map (dir_list t dir) = (dir_map (dir_list s dir))(?nm \<mapsto> of_nat n)" using c(6,7) by (simp add: rb_add_views)
  have er: "erasable (dir_list t dir) ?nm" using c(8) assms(13) by (simp add: c(7) rb_add_views)
  obtain e w where w: "xv6_unlink dir ?ino name t = Some (e, w)" "dir_inv w dir" "e = 0" "free_blocks w = free_blocks t \<union> {b}"
      "dir_map (dir_list w dir) = (dir_map (dir_list t dir))(?nm := None)" "refs w = refs t" "\<not> in_use w n"
      "\<And>j. j < icap (info s) \<Longrightarrow> j \<noteq> n \<Longrightarrow> inode_at w j = inode_at t j"
    using unlink_last [OF Ft _ _ T(1-4) T(5) ni cap assms(10), simplified T(6,7,10) un Let_def] T(8) er by auto
  have fin: "in_use w j = in_use s j \<and> (in_use s j \<longrightarrow> inode_at w j = inode_at s j)" if j: "j < icap (info s)" for j
  proof (cases "j = n")
    case False
    then have "inode_at w j = inode_at s j" using w(8) [OF j] N(8) j by (simp add: c(7) rb_add_views)
    then show ?thesis by (simp add: in_use_def)
  qed (use w(7) n(3) in simp)
  have "dir_map (dir_list w dir) = dir_map (dir_list s dir)"
    using w(5) mt assms(11) by (auto simp: fun_eq_iff)
  moreover have "b \<in> free_blocks s - free_blocks t" using N(7) by (simp add: c(7) rb_add_views)
  ultimately show ?thesis using w fin T(11) by (intro exI [of _ w] exI [of _ b]) simp
qed

section \<open>A sample file\<close>

text \<open>The directory with the entry \<^verbatim>\<open>a\<close> for inode 2, and this inode open, with block 47.\<close>

definition file2_fs :: fs where
  "file2_fs = dir3_fs\<lparr>cache := (cache dir3_fs)(45 := wr32 zero_block 4 0xC000),
     inodes := (inodes dir3_fs)(1 := sample_inode\<lparr>i_ino := 2, i_nlink := 1, i_size := 5, i_private := Some (47 # replicate 12 0)\<rparr>)\<rparr>"

lemma file2_simps [simp]: "info file2_fs = info dir3_fs" "rdonly file2_fs = rdonly dir3_fs" "env file2_fs = env dir3_fs"
  "balloc_lock file2_fs = balloc_lock dir3_fs" "balloc_hint file2_fs = balloc_hint dir3_fs" "itable_lock file2_fs = itable_lock dir3_fs"
  "cache file2_fs = (cache dir3_fs)(45 := wr32 zero_block 4 0xC000)"
  "inodes file2_fs = (inodes dir3_fs)(1 := sample_inode\<lparr>i_ino := 2, i_nlink := 1, i_size := 5, i_private := Some (47 # replicate 12 0)\<rparr>)"
  by (simp_all add: file2_fs_def)

lemma dir3_fields: "info dir3_fs = info dir_fs" "\<not> rdonly dir3_fs" "\<not> itable_lock dir3_fs" "fault_free dir3_fs"
  "i_ino (inodes dir3_fs 0) = 1" "hint_ok file2_fs = hint_ok dir3_fs"
  by (simp_all add: dir3_fs_def dir_fs_def sample_defs fault_free_def hint_ok_def hint_of_def)

lemma file2_used: "46 \<notin> free_blocks file2_fs" "47 \<notin> free_blocks file2_fs"
proof -
  have r: "rd32 (wr32 zero_block 4 0xC000) 4 = 0xC000" by (simp add: rd32_wr32)
  have b: "bmblk (info dir_fs) 46 = 45" "bmblk (info dir_fs) 47 = 45" by (simp_all add: bmblk_def BPB_val dir_fs_fields)
  have "bm_used file2_fs 46" "bm_used file2_fs 47"
    by (simp_all add: bm_used_def blk_bit_def b dir3_fields bit_index_def BPB_val r bit_simps)
  then show "46 \<notin> free_blocks file2_fs" "47 \<notin> free_blocks file2_fs" by (simp_all add: free_blocks_def)
qed

lemma file2_ok: "dir_inv file2_fs 0" "files_ok {0, 1} file2_fs"
proof -
  have o: "owned (cache dir3_fs) (dir_addrs dir3_fs 0) = {46}" by (simp add: one_block)
  have k: "wf_geom (info dir3_fs)" "hint_ok dir3_fs" "\<not> balloc_lock dir3_fs" using dir3_inv by (auto simp: dir_inv_def dir_ok_def)
  show d: "dir_inv file2_fs 0"
    by (rule dir_inv_cong(1) [OF dir3_inv]) (use o file2_used k in \<open>auto simp: dir3_fields(6)\<close>)
  have a: "dir_addrs file2_fs 1 = 47 # replicate 12 0" "dir_addrs file2_fs 0 = dir_addrs dir3_fs 0" by (simp_all add: dir_addrs_def)
  have "47 \<notin> meta_blocks file2_fs" by (simp add: meta_blocks_def dir3_fields data_block_def data_start_def BITMAP_BLOCKS_def BPB_val dir_fs_fields)
  then have "file_ok file2_fs 1"
    using file2_used(2) k unfolding file_ok_def a kinv_self by (simp add: one_block dir3_fields(6) layout_vals)
  moreover have "file_ok file2_fs 0" using d dir_file_ok by (simp add: dir_inv_def)
  moreover have "file_owned file2_fs 1 = {47}" "file_owned file2_fs 0 = {46}" unfolding a by (simp_all add: one_block)
  ultimately show "files_ok {0, 1} file2_fs" by (simp add: files_ok_def)
qed

lemma file2_table: "wf_itable (info file2_fs)" "icap (info file2_fs) = 208"
  using root_fs_kinv by (simp_all add: dir3_fields)
lemma file2_inode: "i_ino (inodes file2_fs 1) = 2" "i_nlink (inodes file2_fs 1) = 1" "i_ino (inodes file2_fs 0) = 1"
  "\<not> rdonly file2_fs" "\<not> itable_lock file2_fs" "fault_free file2_fs" "file_owned file2_fs 1 = {47}"
proof -
  show "fault_free file2_fs" using dir3_fields(4) by (simp add: fault_free_def)
  have "dir_addrs file2_fs 1 = 47 # replicate 12 0" by (simp add: dir_addrs_def)
  then show "file_owned file2_fs 1 = {47}" by (simp add: one_block)
qed (use dir3_fields in simp_all)

theorem inode_clear_releases_witness:
  "\<exists>t. xv6_inode_clear 1 file2_fs = Some (0, t) \<and> free_blocks t = free_blocks file2_fs \<union> {47} \<and> i_size (inodes t 1) = 0"
proof -
  have h: "(1 :: iref) \<in> {0, 1}" "i_ino (inodes file2_fs 1) \<noteq> 0" "unat (i_ino (inodes file2_fs 1)) < icap (info file2_fs)"
    unfolding file2_inode file2_table by simp_all
  from inode_clear_releases [OF file2_ok(2) h(1) file2_inode(4) file2_table(1) h(2,3)] show ?thesis
    using file2_inode(6,7) unfolding Let_def by metis
qed

theorem unlink_removes_file_witness:
  "\<exists>t. xv6_unlink 0 1 [97] file2_fs = Some (0, t) \<and> free_blocks t = free_blocks file2_fs \<union> {47} \<and> \<not> in_use t 2"
proof -
  have h: "(1 :: iref) \<in> {0, 1}" "(0 :: iref) \<in> {0, 1}" "unat (i_ino (inodes file2_fs 1)) < icap (info file2_fs)"
      "i_ino (inodes file2_fs 1) \<notin> {0, ROOTINO, i_ino (inodes file2_fs 0)}" "cstr DIRSIZ [97] \<noteq> []"
    unfolding file2_inode file2_table by (simp_all add: ROOTINO_def)
  have u: "unat (i_ino (inodes file2_fs 1)) = 2" unfolding file2_inode by simp
  from unlink_removes_file [OF file2_ok(2) h(1,2) file2_ok(1) file2_inode(4,5) file2_table(1) file2_inode(2) h(4,3,5)]
  show ?thesis
    using file2_inode(6,7) unfolding Let_def u by metis
qed

theorem create_unlink_roundtrip_witness:
  "\<exists>t u. xv6_create 0 [97] 0x1ff root_fs = Some (0, Some 1, t) \<and> xv6_unlink 0 1 [97] t = Some (0, u)
     \<and> dir_map (dir_list u 0) = dir_map (dir_list root_fs 0)"
proof -
  obtain t where r: "xv6_create 0 [97] 0x1ff root_fs = Some (0, Some 1, t)" using sample_create by blast
  have h: "\<not> itable_lock root_fs" "0 < next_iref root_fs" "fault_free root_fs" "cstr DIRSIZ [97] \<noteq> []"
    by (simp_all add: dir_fs_fields fault_free_def) (simp add: dir_fs_def sample_defs)
  have i: "i_ino (inodes root_fs 0) = 1" by (simp add: dir_fs_fields)
  have "in_use root_fs (unat (i_ino (inodes root_fs 0)))" unfolding i by (simp add: root_fs_in_use)
  moreover have "\<forall>k < 2. de_inum (dir_list root_fs 0 ! k) \<noteq> 0" by (auto simp: root_fs_dir less_2_cases_iff)
  ultimately obtain u where "xv6_unlink 0 (next_iref root_fs) [97] t = Some (0, u)"
      "dir_map (dir_list u 0) = dir_map (dir_list root_fs 0)"
    using create_unlink_roundtrip [OF root_fs_dir(1) root_fs_limits(4) h(1) root_fs_limits(1,2,3) h(2,3) _ h(4) root_fs_limits(5) r]
    by blast
  then show ?thesis using r by auto
qed

section \<open>A run on three files\<close>

text \<open>As before, with a third, empty file open.\<close>

definition file3_fs :: fs where
  "file3_fs = file2_fs\<lparr>inodes := (inodes file2_fs)(2 := sample_inode\<lparr>i_ino := 3, i_nlink := 1, i_private := Some (replicate 13 0)\<rparr>)\<rparr>"

lemma file3_run_ok: "run_ok {0, 1, 2} {0} file3_fs"
proof -
  have f: "info file3_fs = info file2_fs" "cache file3_fs = cache file2_fs" "balloc_lock file3_fs = balloc_lock file2_fs"
      "balloc_hint file3_fs = balloc_hint file2_fs"
      "\<And>j. j \<noteq> 2 \<Longrightarrow> inodes file3_fs j = inodes file2_fs j"
    unfolding file3_fs_def by (cases file2_fs; simp)+
  have v: "free_blocks file3_fs = free_blocks file2_fs" "meta_blocks file3_fs = meta_blocks file2_fs"
      "hint_ok file3_fs = hint_ok file2_fs"
    by (simp_all add: free_blocks_def bm_used_def meta_blocks_def hint_ok_def hint_of_def f)
  have a: "dir_addrs file3_fs j = dir_addrs file2_fs j" if "j \<noteq> 2" for j using f(5) [OF that] by (simp add: dir_addrs_def)
  have fo: "file_ok file3_fs j = file_ok file2_fs j" if "j \<noteq> 2" for j
    unfolding file_ok_def kinv_self a [OF that] f(1-4) f(5) [OF that] v ..
  have i2: "inodes file3_fs 2 = sample_inode\<lparr>i_ino := 3, i_nlink := 1, i_private := Some (replicate 13 0)\<rparr>"
    by (simp add: file3_fs_def)
  have a2: "dir_addrs file3_fs 2 = replicate 13 0" by (simp add: dir_addrs_def i2)
  have F2: "files_ok {0, 1} file2_fs" by (rule file2_ok(2))
  then have "file_ok file3_fs 0" using fo [of 0] by (simp add: files_ok_def)
  then have "kinv (frame_of file3_fs) file3_fs" by (simp add: file_ok_def)
  then have ok2: "file_ok file3_fs 2" unfolding file_ok_def a2 by (simp add: i2 no_blocks(3) sample_inode_def)
  have "files_ok {0, 1} file3_fs" using F2 fo a by (simp add: files_ok_def f(2))
  then have "files_ok (insert 2 {0, 1}) file3_fs"
    by (rule files_ok_insert [OF _ ok2]) (simp add: a2 no_blocks(2))
  moreover have "insert 2 {0, 1} = {0, 1, 2 :: iref}" by auto
  moreover have "dir_ok file2_fs 0" using file2_ok(1) by (simp add: dir_inv_def)
  then have "dir_ok file3_fs 0" using fo [of 0] f(5) [of 0] by (simp add: dir_ok_file is_dir_def)
  moreover have "i_rwsem (inodes file3_fs j) = Unlocked" if "j \<in> {0, 1, 2}" for j
    using that f(5) i2 by (auto simp: dir3_fs_def dir_fs_def sample_inode_def)
  moreover have "fi_size (info file3_fs) \<le> 8192" by (simp add: f(1))
  ultimately show ?thesis by (simp add: run_ok_def)
qed

text \<open>A write to the empty file and an erasure in the directory, with the other file between them untouched.\<close>

theorem run_keeps_files_witness:
  "\<exists>t. file_run {0, 1, 2} {0} file3_fs [2, 0] t \<and> run_ok {0, 1, 2} {0} t \<and> refs t = refs file3_fs
     \<and> file_owned file3_fs 1 = {47} \<and> file_byte t 1 = file_byte file3_fs 1 \<and> inodes t 1 = inodes file3_fs 1"
proof -
  note R = file3_run_ok
  have ok: "file_ok file3_fs 2" "i_rwsem (inodes file3_fs 2) = Unlocked" "fi_size (info file3_fs) \<le> 8192"
    using R by (auto simp: run_ok_def files_ok_def)
  have b: "unat (0 :: u64) + unat (3 :: u64) \<le> MAXFILE * BSIZE" "length [1, 2, 3 :: u8] = unat (3 :: u64)"
    by (simp_all add: file_limit)
  have p: "(0 :: u64) = (if False then i_size (inodes file3_fs 2) else 0)" by simp
  obtain r q u where w: "xv6_file_write False 2 [1, 2, 3] 3 0 file3_fs = Some (r, q, u)"
    by (rule write_run [OF ok p b]) blast
  have o1: "file_op {0} 2 file3_fs u" by (rule op_write [OF _ b(2) _ w]) (use b(1) in simp_all)
  have "run_ok {0, 1, 2} {0} u" by (rule op_run_ok(1) [OF R _ op_local [OF o1 R]]) simp_all
  then have d: "dir_ok u 0" by (simp add: run_ok_def)
  have nm: "cstr DIRSIZ [97] \<noteq> []" by simp
  obtain e t where er: "xv6_dir_erase 0 [97] u = Some (e, t)" by (cases rule: erase_cases [OF d nm]) auto
  have o2: "file_op {0} 0 u t" by (rule op_erase [OF _ nm er]) simp
  have run: "file_run {0, 1, 2} {0} file3_fs [2, 0] t"
    by (rule run_op [OF _ o1 run_op [OF _ o2 run_nil]]) simp_all
  have "dir_addrs file3_fs 1 = 47 # replicate 12 0" by (simp add: dir_addrs_def file3_fs_def)
  then have "file_owned file3_fs 1 = {47}" by (simp add: one_block)
  then show ?thesis using run_keeps_files [OF run R] run by auto
qed

end
