(* ===== verification/Uart.thy ===== *)
theory Uart
  imports Xv6_Prelude
begin

text \<open>
  \<^verbatim>\<open>pl010/kmod.c\<close>: the character device driver of the mini UART of the Raspberry Pi 3. The device
  is a parameter: what a register or the system counter reads may depend on the whole history of
  accesses (\<open>bus\<close>), so any behaviour of the hardware and of what is attached to it is an instance.
  Polling loops are \<open>partial_function\<close>s: a device that is never ready makes them not return.
  \<^verbatim>\<open>char\<close> is unsigned in the kernel. The user's memory is the list of bytes that can be read at an
  address, or the number of bytes that can be written there.
\<close>

section \<open>Registers\<close>

definition MMIO_BASE :: u32 where "MMIO_BASE = 0x0 + 0x3F000000"
definition GPIO_BASE :: u32 where "GPIO_BASE = MMIO_BASE + 0x200000"
definition ADR_MASK :: u32 where "ADR_MASK = 0x1ffff"
definition GPPUD :: u32 where "GPPUD = GPIO_BASE + 0x94"
definition GPPUDCLK0 :: u32 where "GPPUDCLK0 = GPIO_BASE + 0x98"
definition AUX_BASE :: u32 where "AUX_BASE = MMIO_BASE + 0x215000"
definition AUX_ENABLES :: u32 where "AUX_ENABLES = AUX_BASE + 0x04"
definition AUX_MU_IO_REG :: u32 where "AUX_MU_IO_REG = AUX_BASE + 0x40"
definition AUX_MU_IER_REG :: u32 where "AUX_MU_IER_REG = AUX_BASE + 0x44"
definition AUX_MU_IIR_REG :: u32 where "AUX_MU_IIR_REG = AUX_BASE + 0x48"
definition AUX_MU_LCR_REG :: u32 where "AUX_MU_LCR_REG = AUX_BASE + 0x4C"
definition AUX_MU_MCR_REG :: u32 where "AUX_MU_MCR_REG = AUX_BASE + 0x50"
definition AUX_MU_LSR_REG :: u32 where "AUX_MU_LSR_REG = AUX_BASE + 0x54"
definition AUX_MU_CNTL_REG :: u32 where "AUX_MU_CNTL_REG = AUX_BASE + 0x60"
definition AUX_MU_BAUD_REG :: u32 where "AUX_MU_BAUD_REG = AUX_BASE + 0x68"

lemmas reg_defs = MMIO_BASE_def GPIO_BASE_def ADR_MASK_def GPPUD_def GPPUDCLK0_def AUX_BASE_def
  AUX_ENABLES_def AUX_MU_IO_REG_def AUX_MU_IER_REG_def AUX_MU_IIR_REG_def AUX_MU_LCR_REG_def
  AUX_MU_MCR_REG_def AUX_MU_LSR_REG_def AUX_MU_CNTL_REG_def AUX_MU_BAUD_REG_def

definition AUX_MU_BAUD :: "u32 \<Rightarrow> u32" where
  "AUX_MU_BAUD baudrate = 250000000 div (baudrate * 8) - 1"

definition BUFSIZ :: nat where "BUFSIZ = 256"

section \<open>The device\<close>

text \<open>An access: a register read with its value, a register write, a reading of the counter.\<close>

datatype access = Get u32 u32 | Put u32 u32 | Stamp u64

record uart =
  reg_value :: "access list \<Rightarrow> u32 \<Rightarrow> u32"
  timestamp :: "access list \<Rightarrow> u64"
  clock_freq :: u64
  bus :: "access list"

definition get_timestamp :: "uart \<Rightarrow> u64 \<times> uart" where
  "get_timestamp s = (let v = timestamp s (bus s) in (v, s\<lparr>bus := bus s @ [Stamp v]\<rparr>))"

partial_function (option) delay_loop :: "u64 \<Rightarrow> uart \<Rightarrow> uart option" where
  "delay_loop stop s = (let (now, s) = get_timestamp s in if now \<le> stop then delay_loop stop s else Some s)"

definition delay_us :: "u64 \<Rightarrow> uart \<Rightarrow> uart option" where
  "delay_us n s = (let freq = clock_freq s; (stop, s) = get_timestamp s
     in delay_loop (stop + freq div 1000000 * n) s)"

text \<open>The window of the mapped registers is addressed by the low bits of the address.\<close>

definition device_put_u32 :: "u32 \<Rightarrow> u32 \<Rightarrow> uart \<Rightarrow> uart" where
  "device_put_u32 addr v s = s\<lparr>bus := bus s @ [Put (addr AND ADR_MASK) v]\<rparr>"

definition device_get_u32 :: "u32 \<Rightarrow> uart \<Rightarrow> u32 \<times> uart" where
  "device_get_u32 addr s = (let a = addr AND ADR_MASK; v = reg_value s (bus s) a
     in (v, s\<lparr>bus := bus s @ [Get a v]\<rparr>))"

definition uart_init :: "uart \<Rightarrow> uart option" where
  "uart_init s = do {
     let s = device_put_u32 GPPUD 0 s;
     s \<leftarrow> delay_us 5 s;
     let s = device_put_u32 GPPUDCLK0 (push_bit 14 1 OR push_bit 15 1) s;
     s \<leftarrow> delay_us 5 s;
     let s = device_put_u32 GPPUDCLK0 0 s;
     let s = device_put_u32 AUX_ENABLES 1 s;
     let s = device_put_u32 AUX_MU_CNTL_REG 0 s;
     let s = device_put_u32 AUX_MU_IER_REG (push_bit 2 3 OR 1) s;
     let s = device_put_u32 AUX_MU_LCR_REG 3 s;
     let s = device_put_u32 AUX_MU_MCR_REG 0 s;
     let s = device_put_u32 AUX_MU_BAUD_REG (AUX_MU_BAUD 115200) s;
     let s = device_put_u32 AUX_MU_IIR_REG 6 s;
     Some (device_put_u32 AUX_MU_CNTL_REG 3 s)
   }"

partial_function (option) wait_rx :: "u32 \<Rightarrow> uart \<Rightarrow> uart option" where
  "wait_rx state s = (if state AND 1 \<noteq> 0 \<or> state AND 6 \<noteq> 4
     then let (state, s) = device_get_u32 AUX_MU_IIR_REG s in wait_rx state s else Some s)"

definition uart_get_char :: "uart \<Rightarrow> (u8 \<times> uart) option" where
  "uart_get_char s = do {
     let (state, s) = device_get_u32 AUX_MU_IIR_REG s;
     s \<leftarrow> wait_rx state s;
     let (v, s) = device_get_u32 AUX_MU_IO_REG s;
     Some (ucast (v AND 0xff), s)
   }"

partial_function (option) wait_tx :: "uart \<Rightarrow> uart option" where
  "wait_tx s = (let (v, s) = device_get_u32 AUX_MU_LSR_REG s in if v AND 0x20 = 0 then wait_tx s else Some s)"

text \<open>10 and 13 are newline and carriage return.\<close>

partial_function (option) uart_put_char :: "u8 \<Rightarrow> uart \<Rightarrow> uart option" where
  "uart_put_char c s = do {
     s \<leftarrow> wait_tx s;
     let s = device_put_u32 AUX_MU_IO_REG (ucast c) s;
     if c = 10 then uart_put_char 13 s else Some s
   }"

text \<open>
  \<open>mapped\<close> tells whether the registers could be mapped. The registration with the kernel that
  follows does not touch the device, and its results are ignored.
\<close>

definition pl010_init :: "bool \<Rightarrow> uart \<Rightarrow> (int \<times> uart) option" where
  "pl010_init mapped s = (if \<not> mapped then Some (- EINVAL, s) else do { s \<leftarrow> uart_init s; Some (0, s) })"

section \<open>Reading and writing the device file\<close>

text \<open>The loop of \<^verbatim>\<open>pl010_read\<close>: its results are what is left of \<^verbatim>\<open>nr\<close>, and the buffer.\<close>

fun read_chars :: "nat \<Rightarrow> bytes \<Rightarrow> uart \<Rightarrow> (nat \<times> bytes \<times> uart) option" where
  "read_chars nr buf s =
     (if nr = 0 then Some (0, buf, s)
      else do {
        (ch, s) \<leftarrow> uart_get_char s;
        s \<leftarrow> uart_put_char ch s;
        (ch, s) \<leftarrow> (if ch = 13 then do { s \<leftarrow> uart_put_char 10 s; Some (10, s) } else Some (ch, s));
        if ch = 10 then Some (nr - 1, buf @ [ch], s) else read_chars (nr - 1) (buf @ [ch]) s
      })"

text \<open>
  \<open>room\<close> is the number of bytes that can be written at the user's address; the results are the
  returned value, the bytes copied there, the offset and the state.
\<close>

definition pl010_read :: "nat \<Rightarrow> u64 \<Rightarrow> u64 \<Rightarrow> uart \<Rightarrow> (int \<times> bytes \<times> u64 \<times> uart) option" where
  "pl010_read room count off s = do {
     let nr = (if BUFSIZ > unat count then unat count else BUFSIZ);
     let count = nr;
     (nr, buf, s) \<leftarrow> read_chars nr [] s;
     let off = off + of_nat (count - nr);
     let pgfault = room < count - nr;
     Some (if pgfault then - EFAULT else int (count - nr), take room buf, off, s)
   }"

primrec put_chars :: "bytes \<Rightarrow> uart \<Rightarrow> uart option" where
  "put_chars [] s = Some s"
| "put_chars (c # cs) s = do { s \<leftarrow> uart_put_char c s; put_chars cs s }"

text \<open>
  The loop of \<^verbatim>\<open>pl010_write\<close>; \<open>addrspace\<close> is the readable memory at the user's address. Its
  counters never exceed \<^verbatim>\<open>count\<close> and are natural numbers.
\<close>

function write_chunks :: "bytes \<Rightarrow> nat \<Rightarrow> nat \<Rightarrow> uart \<Rightarrow> (int \<times> nat \<times> uart) option" where
  "write_chunks addrspace count nw s =
     (if nw < count
      then let ncpy = count - nw; ncpy = (if ncpy > BUFSIZ then BUFSIZ else ncpy)
           in if length addrspace < ncpy then Some (- EFAULT, nw, s)
              else do {
                s \<leftarrow> put_chars (take ncpy addrspace) s;
                write_chunks (drop ncpy addrspace) count (nw + ncpy) s
              }
      else Some (0, nw, s))"
  by pat_completeness auto
termination
  by (relation "measure (\<lambda>(_, count, nw, _). count - nw)") (auto simp: BUFSIZ_def)

definition pl010_write :: "bytes \<Rightarrow> u64 \<Rightarrow> u64 \<Rightarrow> uart \<Rightarrow> (int \<times> u64 \<times> uart) option" where
  "pl010_write addrspace count off s = do {
     (error, nw, s) \<leftarrow> write_chunks addrspace (unat count) 0 s;
     Some (if nw > 0 then int nw else error, off + of_nat nw, s)
   }"

end
