(* ===== verification/Uart_Spec.thy ===== *)
theory Uart_Spec
  imports Uart
begin

text \<open>
  What the UART driver does, in terms of the bytes that pass the data register: \<open>sent\<close> and
  \<open>received\<close> read them off the history of accesses. The driver's loops return when the device
  becomes ready sooner or later (\<open>tx_live\<close>, \<open>rx_live\<close>) and the counter counts (\<open>clock_ok\<close>).
\<close>

section \<open>Histories\<close>

text \<open>The registers the driver reads and writes.\<close>

definition readable_regs :: "u32 set" where
  "readable_regs = {AUX_MU_IO_REG, AUX_MU_IIR_REG, AUX_MU_LSR_REG}"

definition writable_regs :: "u32 set" where
  "writable_regs = {GPPUD, GPPUDCLK0, AUX_ENABLES, AUX_MU_IO_REG, AUX_MU_IER_REG, AUX_MU_IIR_REG,
     AUX_MU_LCR_REG, AUX_MU_MCR_REG, AUX_MU_CNTL_REG, AUX_MU_BAUD_REG}"

text \<open>An access is typed when its offset is the one of a register of its direction.\<close>

fun typed :: "access \<Rightarrow> bool" where
  "typed (Get a v) \<longleftrightarrow> a \<le> ADR_MASK \<and> GPIO_BASE + a \<in> readable_regs"
| "typed (Put a v) \<longleftrightarrow> a \<le> ADR_MASK \<and> GPIO_BASE + a \<in> writable_regs"
| "typed (Stamp v) \<longleftrightarrow> True"

fun rx_byte :: "access \<Rightarrow> bytes" where
  "rx_byte (Get a v) = (if GPIO_BASE + a = AUX_MU_IO_REG then [ucast v] else [])"
| "rx_byte _ = []"

fun tx_byte :: "access \<Rightarrow> bytes" where
  "tx_byte (Put a v) = (if GPIO_BASE + a = AUX_MU_IO_REG then [ucast v] else [])"
| "tx_byte _ = []"

definition received :: "access list \<Rightarrow> bytes" where "received h = concat (map rx_byte h)"
definition sent :: "access list \<Rightarrow> bytes" where "sent h = concat (map tx_byte h)"

text \<open>Going from one state to another, receiving and sending these bytes.\<close>

definition does :: "uart \<Rightarrow> bytes \<Rightarrow> bytes \<Rightarrow> uart \<Rightarrow> bool" where
  "does s rx tx t \<longleftrightarrow> (\<exists>h. t = s\<lparr>bus := bus s @ h\<rparr> \<and> received h = rx \<and> sent h = tx \<and> (\<forall>x\<in>set h. typed x))"

lemma does_refl [simp]: "does s [] [] s"
  by (simp add: does_def received_def sent_def exI [of _ "[]"])

lemma does_trans:
  assumes "does s a b t" "does t c d u"
  shows "does s (a @ c) (b @ d) u"
proof -
  obtain h where h: "t = s\<lparr>bus := bus s @ h\<rparr>" "received h = a" "sent h = b" "\<forall>x\<in>set h. typed x"
    using assms(1) by (auto simp: does_def)
  obtain k where k: "u = t\<lparr>bus := bus t @ k\<rparr>" "received k = c" "sent k = d" "\<forall>x\<in>set k. typed x"
    using assms(2) by (auto simp: does_def)
  show ?thesis
    unfolding does_def by (rule exI [of _ "h @ k"]) (use h k in \<open>auto simp: received_def sent_def\<close>)
qed

lemma doesD:
  assumes "does s a b t"
  shows "reg_value t = reg_value s" "timestamp t = timestamp s" "clock_freq t = clock_freq s"
    "\<exists>h. bus t = bus s @ h \<and> received h = a \<and> sent h = b \<and> (\<forall>x\<in>set h. typed x)"
  using assms by (auto simp: does_def)

lemma does_put:
  assumes "r \<in> writable_regs"
  shows "does s [] (if r = AUX_MU_IO_REG then [ucast v] else []) (device_put_u32 r v s)"
  unfolding does_def device_put_u32_def
  by (rule exI [of _ "[Put (r AND ADR_MASK) v]"])
    (use assms in \<open>auto simp: received_def sent_def writable_regs_def reg_defs\<close>)

lemma does_get:
  assumes "device_get_u32 r s = (v, t)" "r \<in> readable_regs"
  shows "does s (if r = AUX_MU_IO_REG then [ucast v] else []) [] t" "v = reg_value s (bus s) (r AND ADR_MASK)"
    "bus t = bus s @ [Get (r AND ADR_MASK) v]"
proof -
  have t: "v = reg_value s (bus s) (r AND ADR_MASK)" "t = s\<lparr>bus := bus s @ [Get (r AND ADR_MASK) v]\<rparr>"
    using assms(1) by (auto simp: device_get_u32_def Let_def)
  then show "v = reg_value s (bus s) (r AND ADR_MASK)" "bus t = bus s @ [Get (r AND ADR_MASK) v]" by simp_all
  show "does s (if r = AUX_MU_IO_REG then [ucast v] else []) [] t"
    unfolding does_def by (rule exI [of _ "[Get (r AND ADR_MASK) v]"])
      (use t(2) assms(2) in \<open>auto simp: received_def sent_def readable_regs_def reg_defs\<close>)
qed

lemma does_stamp:
  assumes "get_timestamp s = (v, t)"
  shows "does s [] [] t" "v = timestamp s (bus s)" "bus t = bus s @ [Stamp v]"
  using assms by (auto simp: get_timestamp_def does_def received_def sent_def Let_def intro: exI [of _ "[Stamp v]"])


section \<open>Sending and receiving a byte\<close>

lemma wait_tx_does:
  assumes "wait_tx s = Some t"
  shows "does s [] [] t"
proof (rule wait_tx.raw_induct [OF _ assms])
  fix f s t
  assume IH: "\<And>s t. f s = Some t \<Longrightarrow> does s [] [] t"
    and r: "(let (v, s) = device_get_u32 AUX_MU_LSR_REG s in if v AND 0x20 = 0 then f s else Some s) = Some t"
  obtain v u where g: "device_get_u32 AUX_MU_LSR_REG s = (v, u)" by fastforce
  have "does s [] [] u" using does_get(1) [OF g] by (simp add: readable_regs_def reg_defs)
  moreover have "does u [] [] t" using r g IH by (auto split: if_splits)
  ultimately show "does s [] [] t" using does_trans by fastforce
qed

lemma wait_rx_does:
  assumes "wait_rx state s = Some t"
  shows "does s [] [] t"
proof (rule wait_rx.raw_induct [OF _ assms])
  fix f state s t
  assume IH: "\<And>state s t. f state s = Some t \<Longrightarrow> does s [] [] t"
    and r: "(if state AND 1 \<noteq> 0 \<or> state AND 6 \<noteq> 4
      then let (state, s) = device_get_u32 AUX_MU_IIR_REG s in f state s else Some s) = Some t"
  obtain v u where g: "device_get_u32 AUX_MU_IIR_REG s = (v, u)" by fastforce
  have "does s [] [] u" using does_get(1) [OF g] by (simp add: readable_regs_def reg_defs)
  moreover have "does u [] [] t" if "state AND 1 \<noteq> 0 \<or> state AND 6 \<noteq> 4"
    using r g that IH by auto
  ultimately show "does s [] [] t"
    using does_trans [of s "[]" "[]" u "[]" "[]" t] r by (auto split: if_splits)
qed

text \<open>The bytes sent for a character.\<close>

definition crlf :: "u8 \<Rightarrow> bytes" where "crlf c = (if c = 10 then [10, 13] else [c])"

lemma put_does: "does s [] [c] (device_put_u32 AUX_MU_IO_REG (ucast c) s)"
proof -
  have "ucast (ucast c :: u32) = c" by (rule bit_word_eqI) (simp add: bit_simps)
  then show ?thesis using does_put [of AUX_MU_IO_REG s "ucast c"] by (simp add: writable_regs_def)
qed

lemma put_char_does:
  assumes "uart_put_char c s = Some t"
  shows "does s [] (crlf c) t"
proof -
  have plain: "does u [] [d] v" if n: "d \<noteq> 10" and r: "uart_put_char d u = Some v" for d u v
  proof -
    obtain w where w: "wait_tx u = Some w" "v = device_put_u32 AUX_MU_IO_REG (ucast d) w"
      using n r [unfolded uart_put_char.simps [of d u]] by (auto simp: Let_def elim!: bind_SomeE)
    show ?thesis using does_trans [OF wait_tx_does [OF w(1)] put_does] w(2) by simp
  qed
  show ?thesis
  proof (cases "c = 10")
    case True
    obtain w where w: "wait_tx s = Some w" "uart_put_char 13 (device_put_u32 AUX_MU_IO_REG (ucast c) w) = Some t"
      using True assms [unfolded uart_put_char.simps [of c s]] by (auto simp: Let_def elim!: bind_SomeE)
    show ?thesis
      using does_trans [OF does_trans [OF wait_tx_does [OF w(1)] put_does] plain [OF _ w(2)]] True
      by (simp add: crlf_def)
  next
    case False
    then show ?thesis using plain [OF False assms] by (simp add: crlf_def)
  qed
qed

lemma get_char_does:
  assumes "uart_get_char s = Some (c, t)"
  shows "does s [c] [] t"
proof -
  obtain v u where g: "device_get_u32 AUX_MU_IIR_REG s = (v, u)" by fastforce
  obtain w where w: "wait_rx v u = Some w" using assms g by (auto simp: uart_get_char_def elim!: bind_SomeE)
  obtain x y where x: "device_get_u32 AUX_MU_IO_REG w = (x, y)" by fastforce
  have "ucast (x AND 0xff) = (ucast x :: u8)"
    by (rule bit_word_eqI) (auto simp: bit_simps, auto simp: less_Suc_eq numeral_eq_Suc)
  then have c: "c = ucast x" "t = y" using assms g w x by (simp_all add: uart_get_char_def)
  have "does s [] [] u" using does_get(1) [OF g] by (simp add: readable_regs_def reg_defs)
  moreover have "does w [ucast x] [] y" using does_get(1) [OF x] by (simp add: readable_regs_def)
  ultimately show ?thesis using does_trans [OF does_trans [OF _ wait_rx_does [OF w]]] c by fastforce
qed

section \<open>Readiness\<close>

text \<open>After \<open>k\<close> reads of a register.\<close>

primrec polls :: "u32 \<Rightarrow> nat \<Rightarrow> uart \<Rightarrow> uart" where
  "polls r 0 s = s"
| "polls r (Suc k) s = polls r k (snd (device_get_u32 r s))"

text \<open>Whatever happened before, polling the status sees the device ready at last.\<close>

definition tx_live :: "uart \<Rightarrow> bool" where
  "tx_live s \<longleftrightarrow> (\<forall>h. \<exists>k. fst (device_get_u32 AUX_MU_LSR_REG (polls AUX_MU_LSR_REG k (s\<lparr>bus := h\<rparr>))) AND 0x20 \<noteq> 0)"

definition rx_live :: "uart \<Rightarrow> bool" where
  "rx_live s \<longleftrightarrow> (\<forall>h. \<exists>k. let v = fst (device_get_u32 AUX_MU_IIR_REG (polls AUX_MU_IIR_REG k (s\<lparr>bus := h\<rparr>)))
     in v AND 1 = 0 \<and> v AND 6 = 4)"

lemma does_live:
  assumes "does s a b t"
  shows "tx_live t = tx_live s" "rx_live t = rx_live s"
proof -
  have "t\<lparr>bus := h\<rparr> = s\<lparr>bus := h\<rparr>" for h using assms by (auto simp: does_def)
  then show "tx_live t = tx_live s" "rx_live t = rx_live s" by (simp_all add: tx_live_def rx_live_def)
qed

lemma wait_tx_total:
  assumes "tx_live s" shows "\<exists>t. wait_tx s = Some t"
proof -
  have "\<exists>t. wait_tx s = Some t" if "fst (device_get_u32 AUX_MU_LSR_REG (polls AUX_MU_LSR_REG k s)) AND 0x20 \<noteq> 0" for k
    using that
  proof (induction k arbitrary: s)
    case 0
    then show ?case by (subst wait_tx.simps) (simp add: case_prod_beta Let_def)
  next
    case (Suc k)
    then have "\<exists>t. wait_tx (snd (device_get_u32 AUX_MU_LSR_REG s)) = Some t" by simp
    then show ?case by (subst wait_tx.simps) (simp add: case_prod_beta Let_def)
  qed
  moreover obtain k where "fst (device_get_u32 AUX_MU_LSR_REG (polls AUX_MU_LSR_REG k (s\<lparr>bus := bus s\<rparr>))) AND 0x20 \<noteq> 0"
    using assms unfolding tx_live_def by blast
  ultimately show ?thesis by simp
qed

lemma wait_rx_total:
  assumes "rx_live s" "device_get_u32 AUX_MU_IIR_REG s = (v, u)" shows "\<exists>t. wait_rx v u = Some t"
proof -
  have "\<exists>t. wait_rx (fst (device_get_u32 AUX_MU_IIR_REG s)) (snd (device_get_u32 AUX_MU_IIR_REG s)) = Some t"
    if "let v = fst (device_get_u32 AUX_MU_IIR_REG (polls AUX_MU_IIR_REG k s)) in v AND 1 = 0 \<and> v AND 6 = 4" for k
    using that
  proof (induction k arbitrary: s)
    case 0
    then show ?case by (subst wait_rx.simps) (simp add: Let_def)
  next
    case (Suc k)
    have "\<exists>t. wait_rx (fst (device_get_u32 AUX_MU_IIR_REG (snd (device_get_u32 AUX_MU_IIR_REG s))))
        (snd (device_get_u32 AUX_MU_IIR_REG (snd (device_get_u32 AUX_MU_IIR_REG s)))) = Some t"
      by (rule Suc.IH) (use Suc.prems in simp)
    then show ?case by (subst wait_rx.simps) (simp add: case_prod_beta Let_def)
  qed
  moreover obtain k where "let v = fst (device_get_u32 AUX_MU_IIR_REG (polls AUX_MU_IIR_REG k (s\<lparr>bus := bus s\<rparr>)))
      in v AND 1 = 0 \<and> v AND 6 = 4"
    using assms(1) unfolding rx_live_def by blast
  ultimately show ?thesis using assms(2) by simp
qed

lemma put_char_total:
  assumes "tx_live s" shows "\<exists>t. uart_put_char c s = Some t \<and> does s [] (crlf c) t"
proof -
  have plain: "\<exists>t. uart_put_char d u = Some t" if "tx_live u" "d \<noteq> 10" for d u
    using wait_tx_total [OF that(1)] that(2) by (subst uart_put_char.simps) auto
  obtain w where w: "wait_tx s = Some w" using wait_tx_total [OF assms] by blast
  let ?w = "device_put_u32 AUX_MU_IO_REG (ucast c) w"
  have "tx_live ?w" using does_live [OF does_trans [OF wait_tx_does [OF w] put_does]] assms by simp
  then have "\<exists>t. uart_put_char 13 ?w = Some t" by (rule plain) simp
  then have "\<exists>t. uart_put_char c s = Some t" using w by (subst uart_put_char.simps) (auto simp: Let_def)
  then show ?thesis using put_char_does by blast
qed

lemma get_char_total:
  assumes "rx_live s" shows "\<exists>c t. uart_get_char s = Some (c, t) \<and> does s [c] [] t"
proof -
  obtain v u where g: "device_get_u32 AUX_MU_IIR_REG s = (v, u)" by fastforce
  obtain w where w: "wait_rx v u = Some w" using wait_rx_total [OF assms g] by blast
  have "\<exists>c t. uart_get_char s = Some (c, t)"
    using g w by (simp add: uart_get_char_def split: prod.split)
  then show ?thesis using get_char_does by blast
qed

section \<open>Lines\<close>

text \<open>What a received character becomes, what is echoed for it.\<close>

definition cooked :: "u8 \<Rightarrow> u8" where "cooked c = (if c = 13 then 10 else c)"
definition echo :: "u8 \<Rightarrow> bytes" where "echo c = crlf c @ (if c = 13 then crlf 10 else [])"

text \<open>At most \<open>n\<close> characters, and no line end before the last of them.\<close>

definition line_of :: "nat \<Rightarrow> bytes \<Rightarrow> bool" where
  "line_of n raw \<longleftrightarrow> length raw \<le> n \<and> (\<forall>c\<in>set (butlast raw). cooked c \<noteq> 10)
     \<and> (length raw = n \<or> raw \<noteq> [] \<and> cooked (last raw) = 10)"

lemma line_of_0: "line_of 0 raw \<longleftrightarrow> raw = []"
  by (auto simp: line_of_def)

lemma line_of_end: "cooked c = 10 \<Longrightarrow> 0 < n \<Longrightarrow> line_of n [c]"
  by (auto simp: line_of_def)

lemma line_of_Cons: "cooked c \<noteq> 10 \<Longrightarrow> line_of n raw \<Longrightarrow> line_of (Suc n) (c # raw)"
  by (auto simp: line_of_def)

text \<open>One round of the loop.\<close>

definition read_char :: "uart \<Rightarrow> (u8 \<times> uart) option" where
  "read_char s = do {
     (ch, s) \<leftarrow> uart_get_char s;
     s \<leftarrow> uart_put_char ch s;
     if ch = 13 then do { s \<leftarrow> uart_put_char 10 s; Some (10, s) } else Some (ch, s)
   }"

lemma read_chars_Suc:
  "read_chars (Suc nr) buf s = do {
     (ch, s) \<leftarrow> read_char s;
     if ch = 10 then Some (nr, buf @ [ch], s) else read_chars nr (buf @ [ch]) s }"
  by (subst read_chars.simps) (simp add: read_char_def split_def del: read_chars.simps cong: if_cong)

lemma read_char_does:
  assumes "read_char s = Some (ch, t)"
  obtains c where "does s [c] (echo c) t" "ch = cooked c"
proof -
  obtain c u v where g: "uart_get_char s = Some (c, u)" and p: "uart_put_char c u = Some v"
    and r: "(if c = 13 then do { s \<leftarrow> uart_put_char 10 v; Some (10, s) } else Some (c, v)) = Some (ch, t)"
    using assms by (auto simp: read_char_def elim!: bind_SomeE)
  have d: "does s [c] (crlf c) v"
    using does_trans [OF get_char_does [OF g] put_char_does [OF p]] by simp
  have "does s [c] (echo c) t \<and> ch = cooked c"
  proof (cases "c = 13")
    case True
    then obtain w where "uart_put_char 10 v = Some w" "ch = 10" "t = w" using r by (auto elim!: bind_SomeE)
    then show ?thesis using does_trans [OF d put_char_does] True by (auto simp: echo_def cooked_def)
  next
    case False
    then show ?thesis using r d by (simp add: echo_def cooked_def)
  qed
  then show thesis using that by blast
qed

lemma read_char_total:
  assumes "tx_live s" "rx_live s" shows "\<exists>ch t. read_char s = Some (ch, t)"
proof -
  obtain c u where g: "uart_get_char s = Some (c, u)" "does s [c] [] u" using get_char_total [OF assms(2)] by blast
  have lu: "tx_live u" using does_live [OF g(2)] assms by simp
  obtain v where p: "uart_put_char c u = Some v" "does u [] (crlf c) v" using put_char_total [OF lu] by blast
  have "tx_live v" using does_live [OF p(2)] lu by simp
  then obtain w where "uart_put_char 10 v = Some w" using put_char_total by blast
  then show ?thesis using g(1) p(1) by (simp add: read_char_def)
qed

lemma read_chars_does:
  assumes "read_chars nr buf s = Some (n, b, t)"
  shows "\<exists>raw. does s raw (concat (map echo raw)) t \<and> b = buf @ map cooked raw \<and> line_of nr raw \<and> n = nr - length raw"
  using assms
proof (induction nr arbitrary: buf s)
  case 0
  then show ?case by (subst (asm) read_chars.simps) (auto simp: line_of_0)
next
  case (Suc nr)
  from Suc.prems obtain ch u where u: "read_char s = Some (ch, u)"
    and r: "(if ch = 10 then Some (nr, buf @ [ch], u) else read_chars nr (buf @ [ch]) u) = Some (n, b, t)"
    by (auto simp: read_chars_Suc simp del: read_chars.simps elim!: bind_SomeE)
  obtain c where c: "does s [c] (echo c) u" "ch = cooked c" by (rule read_char_does [OF u])
  show ?case
  proof (cases "ch = 10")
    case True
    then show ?thesis using r c line_of_end [of c "Suc nr"] by (intro exI [of _ "[c]"]) auto
  next
    case False
    with r have "read_chars nr (buf @ [ch]) u = Some (n, b, t)" by (simp del: read_chars.simps)
    from Suc.IH [OF this] obtain raw where "does u raw (concat (map echo raw)) t" "b = (buf @ [ch]) @ map cooked raw"
      "line_of nr raw" "n = nr - length raw" by blast
    then show ?thesis
      using does_trans [OF c(1)] line_of_Cons [of c nr raw] False c(2) by (intro exI [of _ "c # raw"]) auto
  qed
qed

lemma read_chars_total:
  assumes "tx_live s" "rx_live s"
  shows "\<exists>n b t. read_chars nr buf s = Some (n, b, t)"
  using assms
proof (induction nr arbitrary: buf s)
  case 0
  then show ?case by (subst read_chars.simps) simp
next
  case (Suc nr)
  obtain ch u where u: "read_char s = Some (ch, u)" using read_char_total Suc.prems by blast
  obtain c where "does s [c] (echo c) u" by (rule read_char_does [OF u])
  then have "\<exists>n b t. read_chars nr (buf @ [ch]) u = Some (n, b, t)"
    using Suc.IH does_live Suc.prems by simp
  then show ?case using u by (auto simp: read_chars_Suc simp del: read_chars.simps)
qed

lemma put_chars_does: "put_chars cs s = Some t \<Longrightarrow> does s [] (concat (map crlf cs)) t"
proof (induction cs arbitrary: s)
  case (Cons c cs)
  then obtain u where u: "uart_put_char c s = Some u" "put_chars cs u = Some t" by (auto elim!: bind_SomeE)
  show ?case using does_trans [OF put_char_does [OF u(1)] Cons.IH [OF u(2)]] by simp
qed simp

lemma put_chars_total: "tx_live s \<Longrightarrow> \<exists>t. put_chars cs s = Some t"
proof (induction cs arbitrary: s)
  case (Cons c cs)
  obtain u where u: "uart_put_char c s = Some u" "does s [] (crlf c) u" using put_char_total [OF Cons.prems] by blast
  then show ?case using Cons.IH [of u] Cons.prems does_live [OF u(2)] by auto
qed simp

text \<open>
  How many bytes a write sends: all of them, or the full buffers of readable memory before the
  first fault.
\<close>

definition writable :: "bytes \<Rightarrow> nat \<Rightarrow> nat" where
  "writable a n = (if n \<le> length a then n else 256 * (length a div 256))"

lemma writable_step:
  assumes "256 \<le> length a"
  shows "writable a (256 + q) = 256 + writable (drop 256 a) q"
proof -
  obtain r where r: "length a = 256 + r" using assms le_Suc_ex by blast
  then have d: "length (drop 256 a) = r" by simp
  have e: "256 * ((256 + r) div 256) = 256 + 256 * (r div 256)"
    by (subst div_add_self1) simp_all
  show ?thesis unfolding writable_def r d by (simp only: e nat_add_left_cancel_le) simp
qed

lemma write_chunks_does:
  assumes "write_chunks a count nw s = Some (e, n, t)"
  shows "does s [] (concat (map crlf (take (n - nw) a))) t \<and> nw \<le> n
    \<and> (nw \<le> count \<longrightarrow> n = nw + writable a (count - nw) \<and> e = (if count - nw \<le> length a then 0 else - EFAULT))"
  using assms
proof (induction a count nw s rule: write_chunks.induct)
  case (1 a count nw s)
  define m where "m = (if count - nw > BUFSIZ then BUFSIZ else count - nw)"
  show ?case
  proof (cases "nw < count")
    case False
    then show ?thesis using 1(2) by (auto simp: writable_def)
  next
    case lt: True
    show ?thesis
    proof (cases "length a < m")
      case True
      then have "e = - EFAULT" "n = nw" "t = s"
        using 1(2) lt by (simp_all add: m_def [symmetric] Let_def)
      moreover have "length a < count - nw" "length a < 256"
        using True lt by (auto simp: m_def BUFSIZ_def split: if_splits)
      ultimately show ?thesis by (simp add: writable_def)
    next
      case False
      then obtain u where u: "put_chars (take m a) s = Some u" "write_chunks (drop m a) count (nw + m) u = Some (e, n, t)"
        using 1(2) lt unfolding write_chunks.simps [of a count nw s] m_def [symmetric] Let_def
        by (auto simp del: write_chunks.simps elim!: bind_SomeE)
      have IH: "does u [] (concat (map crlf (take (n - (nw + m)) (drop m a)))) t" "nw + m \<le> n"
        "nw + m \<le> count \<longrightarrow> n = nw + m + writable (drop m a) (count - (nw + m))
          \<and> e = (if count - (nw + m) \<le> length (drop m a) then 0 else - EFAULT)"
        using 1(1) [OF lt refl m_def False u] by auto
      have mc: "nw + m \<le> count" using lt by (auto simp: m_def)
      have w: "writable a (count - nw) = m + writable (drop m a) (count - (nw + m))"
      proof (cases "count - nw \<le> length a")
        case True
        then show ?thesis using False mc by (auto simp: writable_def)
      next
        case no: False
        then have m: "m = 256" using False by (auto simp: m_def BUFSIZ_def split: if_splits)
        have c: "count - nw = 256 + (count - (nw + m))" and l: "256 \<le> length a" using mc m False by simp_all
        show ?thesis unfolding c writable_step [OF l] unfolding m ..
      qed
      have nm: "n - nw = m + (n - (nw + m))" using IH(2) by simp
      have "take (n - nw) a = take m a @ take (n - (nw + m)) (drop m a)"
        by (subst nm, rule take_add)
      then have "does s [] (concat (map crlf (take (n - nw) a))) t"
        using does_trans [OF put_chars_does [OF u(1)] IH(1)] by simp
      moreover have "n = nw + writable a (count - nw)" unfolding w using IH(3) mc by simp
      moreover have "(count - (nw + m) \<le> length (drop m a)) = (count - nw \<le> length a)"
        using False mc by auto
      then have "e = (if count - nw \<le> length a then 0 else - EFAULT)" using IH(3) mc by simp
      ultimately show ?thesis using IH(2) by simp
    qed
  qed
qed

lemma write_chunks_total: "tx_live s \<Longrightarrow> write_chunks a count nw s \<noteq> None"
proof (induction a count nw s rule: write_chunks.induct)
  case (1 a count nw s)
  define m where "m = (if count - nw > BUFSIZ then BUFSIZ else count - nw)"
  show ?case
  proof (cases "nw < count \<and> \<not> length a < m")
    case True
    obtain u where u: "put_chars (take m a) s = Some u" using put_chars_total [OF 1(2)] by blast
    have "tx_live u" using does_live [OF put_chars_does [OF u]] 1(2) by simp
    then have "write_chunks (drop m a) count (nw + m) u \<noteq> None"
      using 1(1) [OF conjunct1 [OF True] refl m_def conjunct2 [OF True]] u by metis
    then show ?thesis
      using True u by (subst write_chunks.simps) (simp add: m_def [symmetric] Let_def del: write_chunks.simps)
  next
    case False
    then show ?thesis by (subst write_chunks.simps) (auto simp: m_def [symmetric] Let_def simp del: write_chunks.simps)
  qed
qed

section \<open>Delays and initialisation\<close>

text \<open>
  The accesses of a delay of \<open>d\<close> ticks: readings of the counter, of which the last one only is more than \<open>d\<close>
  above the first. \<open>ticks\<close> is the time between the first and the last reading.
\<close>

definition waited :: "nat \<Rightarrow> access list \<Rightarrow> bool" where
  "waited d h \<longleftrightarrow> (\<exists>v ws w. h = Stamp v # map Stamp ws @ [Stamp w]
     \<and> (\<forall>x \<in> set ws. unat x \<le> unat v + d) \<and> unat v + d < unat w)"

fun stamp_of :: "access \<Rightarrow> nat" where
  "stamp_of (Stamp v) = unat v" | "stamp_of _ = 0"

definition ticks :: "access list \<Rightarrow> nat" where
  "ticks h = stamp_of (last h) - stamp_of (hd h)"

lemma waited_ticks: "waited d h \<Longrightarrow> d < ticks h"
  by (auto simp: waited_def ticks_def)

text \<open>The time of a delay of five microseconds whose length in ticks was rounded down to whole megahertz.\<close>

lemma rounded_ticks:
  assumes "waited (f div 1000000 * 5) h"
  shows "1000000 dvd f \<longrightarrow> 5 * f < ticks h * 1000000" "5 * f < (ticks h + 5) * 1000000"
proof -
  have t: "f div 1000000 * 5 < ticks h" by (rule waited_ticks [OF assms])
  define q r where "q = f div 1000000" and "r = f mod 1000000"
  have "f = q * 1000000 + r" "r < 1000000" by (simp_all add: q_def r_def)
  moreover have "q * 5 < ticks h" using t by (simp add: q_def)
  ultimately show "5 * f < (ticks h + 5) * 1000000" by simp
  show "1000000 dvd f \<longrightarrow> 5 * f < ticks h * 1000000" using t by auto
qed

lemma delay_loop_does:
  assumes "delay_loop stop s = Some t"
  shows "\<exists>ws w. t = s\<lparr>bus := bus s @ map Stamp ws @ [Stamp w]\<rparr> \<and> stop < w \<and> (\<forall>x \<in> set ws. x \<le> stop)"
proof (rule delay_loop.raw_induct [OF _ assms])
  fix f stop s t
  assume IH: "\<And>stop s t. f stop s = Some t \<Longrightarrow> \<exists>ws w. t = s\<lparr>bus := bus s @ map Stamp ws @ [Stamp w]\<rparr> \<and> stop < w \<and> (\<forall>x \<in> set ws. x \<le> stop)"
    and r: "(let (now, s) = get_timestamp s in if now \<le> stop then f stop s else Some s) = Some t"
  let ?v = "timestamp s (bus s)" and ?u = "s\<lparr>bus := bus s @ [Stamp (timestamp s (bus s))]\<rparr>"
  have r: "(if ?v \<le> stop then f stop ?u else Some ?u) = Some t"
    using r by (simp add: get_timestamp_def Let_def)
  show "\<exists>ws w. t = s\<lparr>bus := bus s @ map Stamp ws @ [Stamp w]\<rparr> \<and> stop < w \<and> (\<forall>x \<in> set ws. x \<le> stop)"
  proof (cases "?v \<le> stop")
    case True
    then have "f stop ?u = Some t" using r by simp
    from IH [OF this] obtain ws w where "t = ?u\<lparr>bus := bus ?u @ map Stamp ws @ [Stamp w]\<rparr>" "stop < w" "\<forall>x \<in> set ws. x \<le> stop" by blast
    then show ?thesis using True by (intro exI [of _ "?v # ws"] exI [of _ w]) simp
  next
    case False
    then show ?thesis using r by (intro exI [of _ "[]"] exI [of _ ?v]) auto
  qed
qed

text \<open>
  The counter counts: it is below \<open>2\<^sup>62\<close> and every reading is above the one before, for as
  long as there are fewer than \<open>2\<^sup>40\<close> readings.
\<close>

fun is_stamp :: "access \<Rightarrow> bool" where
  "is_stamp (Stamp v) = True" | "is_stamp _ = False"

definition stamps :: "access list \<Rightarrow> nat" where "stamps h = length (filter is_stamp h)"

lemma stamps_simps [simp]: "stamps [] = 0" "stamps (a # h) = (if is_stamp a then 1 else 0) + stamps h"
    "stamps (h @ k) = stamps h + stamps k" "stamps (map Stamp ws) = length ws"
  by (simp_all add: stamps_def comp_def)

definition clock_ok :: "uart \<Rightarrow> bool" where
  "clock_ok s \<longleftrightarrow> (\<forall>h. stamps h < 2 ^ 40 \<longrightarrow> unat (timestamp s h) < 2 ^ 62
     \<and> timestamp s h < timestamp s (h @ [Stamp (timestamp s h)]))"

lemma clock_okD:
  assumes "clock_ok s" "stamps h < 2 ^ 40"
  shows "unat (timestamp s h) < 2 ^ 62" "unat (timestamp s h) < unat (timestamp s (h @ [Stamp (timestamp s h)]))"
  using assms by (simp_all add: clock_ok_def word_less_nat_alt)

lemma delay_loop_total:
  assumes "clock_ok s" "stamps (bus s) + j < 2 ^ 40" "unat stop < unat (timestamp s (bus s)) + j"
  shows "\<exists>t. delay_loop stop s = Some t \<and> stamps (bus t) \<le> stamps (bus s) + j + 1"
  using assms
proof (induction j arbitrary: s)
  case 0
  then show ?case by (subst delay_loop.simps) (simp add: get_timestamp_def Let_def word_le_nat_alt)
next
  case (Suc j)
  let ?v = "timestamp s (bus s)" and ?u = "s\<lparr>bus := bus s @ [Stamp (timestamp s (bus s))]\<rparr>"
  have e: "delay_loop stop s = (if ?v \<le> stop then delay_loop stop ?u else Some ?u)"
    by (subst delay_loop.simps) (simp add: get_timestamp_def Let_def)
  have "stamps (bus s) < 2 ^ 40" using Suc.prems(2) by simp
  note C = clock_okD [OF Suc.prems(1) this]
  have "\<exists>t. delay_loop stop ?u = Some t \<and> stamps (bus t) \<le> stamps (bus ?u) + j + 1"
    by (rule Suc.IH) (use Suc.prems C in \<open>simp_all add: clock_ok_def\<close>)
  then show ?case unfolding e by auto
qed

lemma delay_us_spec:
  assumes "clock_ok s" "unat (clock_freq s) < 2 ^ 40" "stamps (bus s) < 2 ^ 39"
  shows "\<exists>t h. delay_us 5 s = Some t \<and> t = s\<lparr>bus := bus s @ h\<rparr> \<and> waited (unat (clock_freq s) div 1000000 * 5) h
    \<and> stamps h \<le> 2 ^ 25"
proof -
  let ?v = "timestamp s (bus s)" and ?u = "s\<lparr>bus := bus s @ [Stamp (timestamp s (bus s))]\<rparr>"
  let ?f = "clock_freq s div 1000000 * 5"
  have st: "stamps (bus s) < 2 ^ 40" using assms(3) by simp
  note C = clock_okD [OF assms(1) st]
  have q: "unat (clock_freq s div 1000000) < 2 ^ 21" using assms(2) by (simp add: unat_div)
  then have f: "unat ?f < 2 ^ 24" by (simp add: unat_word_ariths(2))
  have fe: "unat ?f = unat (clock_freq s) div 1000000 * 5" using q by (simp add: unat_word_ariths(2) unat_div)
  have sm: "unat (?v + ?f) = unat ?v + unat ?f"
    using C(1) f by (simp add: unat_word_ariths(1))
  have "\<exists>t. delay_loop (?v + ?f) ?u = Some t \<and> stamps (bus t) \<le> stamps (bus ?u) + unat ?f + 1"
    by (rule delay_loop_total) (use assms C f sm in \<open>simp_all add: clock_ok_def\<close>)
  then obtain t where t: "delay_loop (?v + ?f) ?u = Some t" "stamps (bus t) \<le> stamps (bus s) + 2 ^ 24 + 1"
    using f by auto
  obtain ws w where w: "t = ?u\<lparr>bus := bus ?u @ map Stamp ws @ [Stamp w]\<rparr>" "?v + ?f < w" "\<forall>x \<in> set ws. x \<le> ?v + ?f"
    using delay_loop_does [OF t(1)] by blast
  have "delay_us 5 s = Some t" using t(1) by (simp add: delay_us_def get_timestamp_def Let_def)
  moreover have "waited (unat (clock_freq s) div 1000000 * 5) (Stamp ?v # map Stamp ws @ [Stamp w])"
    using w(2,3) sm unfolding fe [symmetric] by (auto simp: waited_def word_less_nat_alt word_le_nat_alt)
  moreover have "stamps (Stamp ?v # map Stamp ws @ [Stamp w]) \<le> 2 ^ 25" using t(2) w(1) by simp
  ultimately show ?thesis
    using w(1) by (intro exI [of _ t] exI [of _ "Stamp ?v # map Stamp ws @ [Stamp w]"]) simp
qed

text \<open>The writes to registers that the specification asks for.\<close>

definition reg_write :: "u32 \<Rightarrow> u32 \<Rightarrow> access" where "reg_write r v = Put (r - GPIO_BASE) v"

lemma device_put_reg:
  assumes "r \<in> writable_regs"
  shows "device_put_u32 r v s = s\<lparr>bus := bus s @ [reg_write r v]\<rparr>"
  using assms by (auto simp: device_put_u32_def reg_write_def writable_regs_def reg_defs)

lemma delay_typed: "waited d h \<Longrightarrow> (\<forall>x\<in>set h. typed x) \<and> received h = [] \<and> sent h = []"
proof -
  assume "waited d h"
  then obtain v ws w where "h = map Stamp (v # ws @ [w])" by (auto simp: waited_def)
  then obtain vs where h: "h = map Stamp vs" ..
  show ?thesis unfolding h by (induction vs) (auto simp: received_def sent_def)
qed

text \<open>
  C39. Initialisation of the driver. When the registers are mapped and the counter counts, the call
  returns 0 after this sequence of accesses: the pull-up of the pins is removed, with a delay
  before and after it is clocked in; then the UART is enabled, and its
  receiver and transmitter stay off until interrupts, 8 bit mode, 115200 baud (divisor 270) and
  empty queues are set. Without the mapping no register is touched and the result is \<^verbatim>\<open>-EINVAL\<close>.
  Each delay polls the counter until it is more than five ticks per whole megahertz of its frequency further: that is more
  than five microseconds when the frequency is a whole number of megahertz, and otherwise can fall short of them, but by less than
  five ticks (\<open>delay_too_short\<close>).
\<close>

theorem uart_init_sequence:
  assumes "clock_ok s" and "unat (clock_freq s) < 2 ^ 40" and "stamps (bus s) < 2 ^ 38"
  shows "\<exists>h k t. pl010_init True s = Some (0, t)
    \<and> bus t = bus s @ [reg_write GPPUD 0] @ h @ [reg_write GPPUDCLK0 0xC000] @ k @ [reg_write GPPUDCLK0 0,
        reg_write AUX_ENABLES 1, reg_write AUX_MU_CNTL_REG 0, reg_write AUX_MU_IER_REG 13, reg_write AUX_MU_LCR_REG 3,
        reg_write AUX_MU_MCR_REG 0, reg_write AUX_MU_BAUD_REG 270, reg_write AUX_MU_IIR_REG 6, reg_write AUX_MU_CNTL_REG 3]
    \<and> (\<forall>d \<in> {h, k}. waited (unat (clock_freq s) div 1000000 * 5) d
         \<and> (1000000 dvd unat (clock_freq s) \<longrightarrow> 5 * unat (clock_freq s) < ticks d * 1000000)
         \<and> 5 * unat (clock_freq s) < (ticks d + 5) * 1000000)
    \<and> pl010_init False s = Some (- EINVAL, s)"
proof -
  have W: "{GPPUD, GPPUDCLK0, AUX_ENABLES, AUX_MU_IER_REG, AUX_MU_IIR_REG, AUX_MU_LCR_REG,
     AUX_MU_MCR_REG, AUX_MU_CNTL_REG, AUX_MU_BAUD_REG} \<subseteq> writable_regs" by (auto simp: writable_regs_def)
  let ?s1 = "s\<lparr>bus := bus s @ [reg_write GPPUD 0]\<rparr>"
  have c1: "clock_ok ?s1" "unat (clock_freq ?s1) < 2 ^ 40" "stamps (bus ?s1) < 2 ^ 39"
    using assms by (simp_all add: clock_ok_def reg_write_def)
  obtain h where h: "delay_us 5 ?s1 = Some (?s1\<lparr>bus := bus ?s1 @ h\<rparr>)" "waited (unat (clock_freq s) div 1000000 * 5) h"
      "stamps h \<le> 2 ^ 25"
    using delay_us_spec [OF c1] by auto
  let ?s2 = "?s1\<lparr>bus := bus ?s1 @ h @ [reg_write GPPUDCLK0 0xC000]\<rparr>"
  have c2: "clock_ok ?s2" "unat (clock_freq ?s2) < 2 ^ 40" "stamps (bus ?s2) < 2 ^ 39"
    using assms h(3) by (simp_all add: clock_ok_def reg_write_def)
  obtain k where k: "delay_us 5 ?s2 = Some (?s2\<lparr>bus := bus ?s2 @ k\<rparr>)" "waited (unat (clock_freq s) div 1000000 * 5) k"
    using delay_us_spec [OF c2] by auto
  have v: "push_bit 14 1 OR push_bit 15 1 = (0xC000 :: u32)" "push_bit 2 3 OR 1 = (13 :: u32)" "AUX_MU_BAUD 115200 = 270"
    by (simp_all add: AUX_MU_BAUD_def)
  show ?thesis
    by (intro exI [of _ h] exI [of _ k])
      (use W h(1,2) k rounded_ticks [OF h(2)] rounded_ticks [OF k(2)] in \<open>simp add: pl010_init_def uart_init_def v device_put_reg Let_def\<close>)
qed

lemma delay_us_does:
  assumes "delay_us n s = Some t" shows "does s [] [] t"
proof -
  let ?u = "s\<lparr>bus := bus s @ [Stamp (timestamp s (bus s))]\<rparr>"
  have "delay_loop (timestamp s (bus s) + clock_freq s div 1000000 * n) ?u = Some t"
    using assms by (simp add: delay_us_def get_timestamp_def Let_def)
  from delay_loop_does [OF this] obtain ws w where
    t: "t = ?u\<lparr>bus := bus ?u @ map Stamp ws @ [Stamp w]\<rparr>" by blast
  define h where "h = map Stamp (timestamp s (bus s) # ws @ [w])"
  have "(\<forall>x\<in>set (map Stamp vs). typed x) \<and> received (map Stamp vs) = [] \<and> sent (map Stamp vs) = []" for vs
    by (induction vs) (auto simp: received_def sent_def)
  then have "(\<forall>x\<in>set h. typed x) \<and> received h = [] \<and> sent h = []" unfolding h_def by blast
  then show ?thesis unfolding does_def using t by (intro exI [of _ h]) (simp add: h_def)
qed

lemma pl010_init_does:
  assumes "pl010_init mapped s = Some (r, t)"
  shows "does s [] [] t"
proof (cases mapped)
  case True
  have p: "does u [] [] (device_put_u32 r v u)" if "r \<in> writable_regs - {AUX_MU_IO_REG}" for r v u
    using does_put [of r u v] that by simp
  obtain u w where u: "delay_us 5 (device_put_u32 GPPUD 0 s) = Some u"
    and w: "delay_us 5 (device_put_u32 GPPUDCLK0 (push_bit 14 1 OR push_bit 15 1) u) = Some w"
    and t: "t = device_put_u32 AUX_MU_CNTL_REG 3 (device_put_u32 AUX_MU_IIR_REG 6
       (device_put_u32 AUX_MU_BAUD_REG (AUX_MU_BAUD 115200) (device_put_u32 AUX_MU_MCR_REG 0
       (device_put_u32 AUX_MU_LCR_REG 3 (device_put_u32 AUX_MU_IER_REG (push_bit 2 3 OR 1)
       (device_put_u32 AUX_MU_CNTL_REG 0 (device_put_u32 AUX_ENABLES 1 (device_put_u32 GPPUDCLK0 0 w))))))))"
    using assms True by (auto simp: pl010_init_def uart_init_def Let_def elim!: bind_SomeE)
  have R: "{GPPUD, GPPUDCLK0, AUX_ENABLES, AUX_MU_IER_REG, AUX_MU_IIR_REG, AUX_MU_LCR_REG,
     AUX_MU_MCR_REG, AUX_MU_CNTL_REG, AUX_MU_BAUD_REG} \<subseteq> writable_regs - {AUX_MU_IO_REG}"
    by (auto simp: writable_regs_def reg_defs)
  have q: "does s [] [] v \<Longrightarrow> does v [] [] x \<Longrightarrow> does s [] [] x" for v x using does_trans by fastforce
  have "does s [] [] w"
    by (rule q [OF q [OF q [OF p delay_us_does [OF u]] p] delay_us_does [OF w]]) (use R in auto)
  then show ?thesis unfolding t by (intro q [OF _ p]) (use R in auto)
next
  case False
  then show ?thesis using assms by (simp add: pl010_init_def)
qed

section \<open>The device file\<close>

lemma pl010_read_does:
  assumes "pl010_read room count off s = Some (r, b, off', t)"
  obtains raw where "does s raw (concat (map echo raw)) t" "line_of (min 256 (unat count)) raw"
    "r = (if room < length raw then - EFAULT else int (length raw))" "b = take room (map cooked raw)"
    "off' = off + of_nat (length raw)"
proof -
  define m where "m = (if BUFSIZ > unat count then unat count else BUFSIZ)"
  have m: "m = min 256 (unat count)" by (simp add: m_def BUFSIZ_def min_def)
  obtain n buf u where u: "read_chars m [] s = Some (n, buf, u)"
    "Some (r, b, off', t) = Some (if room < m - n then - EFAULT else int (m - n), take room buf, off + of_nat (m - n), u)"
    using assms unfolding pl010_read_def m_def [symmetric] Let_def by (auto elim!: bind_SomeE simp del: read_chars.simps)
  obtain raw where raw: "does s raw (concat (map echo raw)) u" "buf = [] @ map cooked raw" "line_of m raw" "n = m - length raw"
    using read_chars_does [OF u(1)] by blast
  have "length raw \<le> m" using raw(3) by (simp add: line_of_def)
  then have "m - n = length raw" using raw(4) by simp
  then show thesis using that [of raw] u(2) raw m by simp
qed

lemma pl010_write_does:
  assumes "pl010_write a count off s = Some (r, off', t)"
    and "n = writable a (unat count)"
  shows "does s [] (concat (map crlf (take n a))) t" "off' = off + of_nat n"
    "r = (if 0 < n \<or> count = 0 then int n else - EFAULT)"
proof -
  obtain e m where u: "write_chunks a (unat count) 0 s = Some (e, m, t)" "off' = off + of_nat m"
      "r = (if m > 0 then int m else e)"
    using assms(1) by (auto simp: pl010_write_def elim!: bind_SomeE simp del: write_chunks.simps)
  have W: "does s [] (concat (map crlf (take m a))) t" "m = n" "e = (if unat count \<le> length a then 0 else - EFAULT)"
    using write_chunks_does [OF u(1)] unfolding assms(2) by auto
  then show "does s [] (concat (map crlf (take n a))) t" "off' = off + of_nat n" using u by simp_all
  show "r = (if 0 < n \<or> count = 0 then int n else - EFAULT)"
    using u(3) W(2,3) assms(2) by (auto simp: writable_def unat_eq_0 split: if_splits)
qed

text \<open>
  C38. Reading the device file. When the device becomes ready, the call returns: it receives
  characters up to a line end, or the smaller of the number asked for and 256; it
  sends each of them back, for a carriage return a newline as well; carriage returns arrive as
  newlines in the user's buffer. The result is their number, \<^verbatim>\<open>-EFAULT\<close> when the user's
  memory is too small; the offset advances by the number in both cases.
\<close>

theorem pl010_read_line:
  assumes "tx_live s" and "rx_live s"
  shows "\<exists>raw t. pl010_read room count off s = Some (if room < length raw then - EFAULT else int (length raw),
      take room (map cooked raw), off + of_nat (length raw), t)
    \<and> line_of (min 256 (unat count)) raw \<and> does s raw (concat (map echo raw)) t"
proof -
  obtain r b off' t where "pl010_read room count off s = Some (r, b, off', t)"
    using read_chars_total [OF assms, of "if BUFSIZ > unat count then unat count else BUFSIZ" "[]"]
    by (auto simp: pl010_read_def Let_def simp del: read_chars.simps)
  then obtain raw where "does s raw (concat (map echo raw)) t" "line_of (min 256 (unat count)) raw"
    "r = (if room < length raw then - EFAULT else int (length raw))" "b = take room (map cooked raw)"
    "off' = off + of_nat (length raw)"
    by (rule pl010_read_does)
  then show ?thesis using \<open>pl010_read room count off s = Some (r, b, off', t)\<close>
    by (intro exI [of _ raw] exI [of _ t]) simp
qed

text \<open>
  C37. Writing the device file. When the transmitter becomes ready, the call returns: the bytes
  that were asked for are sent in order, each newline followed by a carriage return, and their
  number is returned. When the memory at the user's address ends before, only full buffers of 256
  bytes are sent, and the result is their length, or \<^verbatim>\<open>-EFAULT\<close> when there are none.
\<close>

theorem pl010_write_transmits:
  assumes "tx_live s"
    and "n = (if unat count \<le> length a then unat count else 256 * (length a div 256))"
  shows "\<exists>t. pl010_write a count off s = Some (if 0 < n \<or> count = 0 then int n else - EFAULT, off + of_nat n, t)
    \<and> does s [] (concat (map crlf (take n a))) t"
proof -
  obtain r off' t where w: "pl010_write a count off s = Some (r, off', t)"
    using write_chunks_total [OF assms(1), of a "unat count" 0]
    by (auto simp: pl010_write_def simp del: write_chunks.simps)
  then show ?thesis using pl010_write_does [OF w] assms(2) by (auto simp: writable_def)
qed

text \<open>
  C40. Every access the driver makes is well typed: it goes to an offset inside the mapped window,
  of a register that the driver may read or write, respectively. Every operation that returns keeps this.
\<close>

theorem uart_accesses_typed:
  assumes "\<forall>x\<in>set (bus s). typed x"
    and "pl010_init mapped s = Some (r, t) \<or> pl010_read room count off s = Some (r, b, off', t)
      \<or> pl010_write a count off s = Some (r, off', t)"
  shows "\<forall>x\<in>set (bus t). typed x"
proof -
  have "\<exists>rx tx. does s rx tx t"
    using assms(2) pl010_init_does pl010_read_does pl010_write_does(1) by metis
  then show ?thesis using assms(1) by (auto dest!: doesD(4))
qed

section \<open>A device that is always ready\<close>

definition ready_uart :: uart where
  "ready_uart = \<lparr>reg_value = (\<lambda>h r. if GPIO_BASE + r = AUX_MU_LSR_REG then 0x20
      else if GPIO_BASE + r = AUX_MU_IIR_REG then 4 else 13),
     timestamp = (\<lambda>h. of_nat (stamps h)), clock_freq = 19200000, bus = []\<rparr>"

lemma ready_uart: "tx_live ready_uart" "rx_live ready_uart" "clock_ok ready_uart"
    "unat (clock_freq ready_uart) < 2 ^ 40" "bus ready_uart = []"
proof -
  show "tx_live ready_uart"
    unfolding tx_live_def by (intro allI exI [of _ 0]) (simp add: ready_uart_def device_get_u32_def Let_def reg_defs)
  show "rx_live ready_uart"
    unfolding rx_live_def by (intro allI exI [of _ 0]) (simp add: ready_uart_def device_get_u32_def Let_def reg_defs)
  have "unat (of_nat k :: u64) = k" if "k \<le> 2 ^ 40" for k using that by (simp add: unat_of_nat)
  from this [of "stamps h" for h] this [of "Suc (stamps h)" for h]
  show "clock_ok ready_uart"
    by (auto simp: clock_ok_def ready_uart_def word_less_nat_alt simp flip: of_nat_Suc)
  show "unat (clock_freq ready_uart) < 2 ^ 40" "bus ready_uart = []" by (simp_all add: ready_uart_def)
qed

theorem uart_init_sequence_witness: "\<exists>t. pl010_init True ready_uart = Some (0, t) \<and> last (bus t) = reg_write AUX_MU_CNTL_REG 3"
  using uart_init_sequence [OF ready_uart(3,4)] ready_uart(5) by fastforce

text \<open>With a counter just below two megahertz, a delay of five microseconds can take six ticks: about three microseconds.\<close>

lemma delay_too_short:
  defines "s \<equiv> ready_uart\<lparr>clock_freq := 1999999\<rparr>"
  shows "\<exists>h. delay_us 5 s = Some (s\<lparr>bus := h\<rparr>) \<and> ticks h = 6 \<and> ticks h * 1000000 < 5 * unat (clock_freq s)"
  by (simp add: s_def delay_us_def get_timestamp_def ready_uart_def delay_loop.simps ticks_def)

theorem pl010_read_line_witness:
  "\<exists>raw t. pl010_read 100 4 7 ready_uart = Some (int (length raw), map cooked raw, 7 + of_nat (length raw), t)
     \<and> line_of 4 raw"
  using pl010_read_line [OF ready_uart(1,2), of 100 4 7] by (fastforce simp: line_of_def)

theorem pl010_write_transmits_witness:
  "\<exists>t. pl010_write [72, 105, 10] 3 0 ready_uart = Some (3, 3, t) \<and> does ready_uart [] [72, 105, 10, 13] t"
  using pl010_write_transmits [OF ready_uart(1) refl, of "[72, 105, 10]" 3 0] by (simp add: crlf_def)

theorem uart_accesses_typed_witness:
  "\<exists>t. pl010_write [72, 10] 2 0 ready_uart = Some (2, 2, t) \<and> (\<forall>x\<in>set (bus t). typed x)"
proof -
  obtain t where "write_chunks [72, 10] 2 0 ready_uart = Some (0, 2, t)"
    using write_chunks_total [OF ready_uart(1), of "[72, 10]" 2 0] write_chunks_does [of "[72, 10]" 2 0 ready_uart]
    by (auto simp: writable_def simp del: write_chunks.simps)
  then have "pl010_write [72, 10] 2 0 ready_uart = Some (2, 2, t)"
    by (simp add: pl010_write_def del: write_chunks.simps)
  then show ?thesis using uart_accesses_typed [of ready_uart False 2 t 0 2 0 "[]" 2 "[72, 10]"] ready_uart(5)
    by simp
qed

end
