(* ===== verification/Spec2Isabelle.thy ===== *)
theory Spec2Isabelle
  imports Super Mkxv6_Mount Unlink_Spec Uart_Spec
begin

text \<open>
  A Linux kernel module for the file system of the teaching system xv6, its offline tools and a
  serial port driver, modelled from their sources and verified.

  \<^bold>\<open>The program.\<close> A disk is a sequence of 1024-byte blocks: super block, log, inode table, one bit
  per block, data. \<^verbatim>\<open>init.c\<close> puts the module together; \<^verbatim>\<open>super.c\<close> mounts a disk and keeps the
  active inodes in a tree; \<^verbatim>\<open>balloc.c\<close> allocates blocks; \<^verbatim>\<open>inode.c\<close> allocates, loads,
  stores and clears inodes; \<^verbatim>\<open>fs.cpp\<close> maps a position in a file to a block and walks over the
  entries of a directory, calling back; \<^verbatim>\<open>dir.c\<close> builds the directory operations from such walks;
  \<^verbatim>\<open>file.c\<close> reads, writes, links and renames. \<^verbatim>\<open>check.cpp\<close> checks a disk before it is
  mounted; \<^verbatim>\<open>xv6check.cpp\<close> runs the same check on an image file, and \<^verbatim>\<open>mkxv6.c\<close> builds
  images. \<^verbatim>\<open>fs.cpp\<close> and \<^verbatim>\<open>check.cpp\<close> reach the device through a table of functions
  (\<^verbatim>\<open>struct checker\<close>), so that kernel and tools share them. \<^verbatim>\<open>pl010/kmod.c\<close> is a driver
  of its own for the UART of the machine.

  \<^bold>\<open>How it is modelled.\<close> A function is a definition of the same name that takes and returns the
  state explicitly. Its result is an option: \<^theory_text>\<open>None\<close> is a call that does not return (a failed
  assertion, a lock taken twice, a loop that does not end), \<^theory_text>\<open>Some\<close> carries the C return value,
  out-parameters and new state; error numbers are negative integers as in C. Machine integers
  are words of their width, \<^verbatim>\<open>loff_t\<close> and \<^verbatim>\<open>size_t\<close> 64-bit words. The kernel is not
  part of the sources: the state \<open>fs\<close> (theory Buffer_Cache) has the buffer cache, the
  disk, buffer references, locks, in-memory inodes and tree, and an environment that says which service calls
  fail (block reads and writes, allocation, user memory), so every theorem holds for every
  pattern of faults it does not exclude.

  \<^bold>\<open>Theories and sources.\<close>
  \<^item> \<open>Xv6_Prelude\<close>: integer types, error numbers, memory with loads and stores, C strings,
    \<^verbatim>\<open>xv6_assert\<close> (\<^verbatim>\<open>common.h\<close>).
  \<^item> \<open>Disk_Layout\<close>: structures and constants of \<^verbatim>\<open>fs.h\<close>, byte order helpers of
    \<^verbatim>\<open>xv6c++.h\<close>, \<^verbatim>\<open>check.cpp\<close> and \<^verbatim>\<open>mkxv6.c\<close>; every structure is read back as stored.
  \<^item> \<open>Buffer_Cache\<close>: the state (\<^verbatim>\<open>fsinfo.h\<close>, locks of \<^verbatim>\<open>xv6.h\<close>) and the kernel services.
  \<^item> \<open>Block_Alloc\<close>, \<open>Block_Pool\<close>: \<^verbatim>\<open>balloc.c\<close>. The bitmap is abstracted to the set of free
    blocks; the locale \<open>block_pool\<close> is the contract (allocation removes an element, release
    adds one), interpreted on \<^verbatim>\<open>xv6_balloc\<close> and \<^verbatim>\<open>xv6_bfree\<close>. Which block is chosen,
    that it is zeroed, when the call fails, returns or hangs.
  \<^item> \<open>Checker\<close>, \<open>Checker_Spec\<close>, \<open>Dir_Walk\<close>, \<open>Dir_Search\<close>: \<^verbatim>\<open>struct checker\<close> and \<^verbatim>\<open>fs.cpp\<close>,
    generic in the device. The locale \<open>checker_dev\<close> states what a device promises; inside it the
    block map of a file is a function from block numbers to blocks that \<^verbatim>\<open>xv6_inode_addr\<close> reads or
    extends, and \<^verbatim>\<open>xv6_dir_iterate\<close> is a walk over a list of entries.
  \<^item> \<open>Modcheck\<close>: the table of the module (\<^verbatim>\<open>init.c\<close>, \<^verbatim>\<open>super.c\<close>) and the interpretation of
    \<open>checker_dev\<close> on it.
  \<^item> \<open>Inode_Tree\<close>: the tree of active inodes (\<^verbatim>\<open>super.c\<close>) refines a map from numbers to inodes.
  \<^item> \<open>Inode\<close>, \<open>Inode_Table\<close>: \<^verbatim>\<open>inode.c\<close>; the inode table as an array of inodes.
  \<^item> \<open>Dir\<close>, \<open>Dir_Spec\<close>: \<^verbatim>\<open>dir.c\<close>; a directory refines a map from names to inode numbers.
  \<^item> \<open>Namei\<close>: lookup, creation, linking, removal and renaming (\<^verbatim>\<open>inode.c\<close>, \<^verbatim>\<open>file.c\<close>, \<^verbatim>\<open>dir.c\<close>).
  \<^item> \<open>File_IO\<close>, \<open>File_Spec\<close>, \<open>File_Write\<close>: reading and writing (\<^verbatim>\<open>file.c\<close>); a file is a
    function from positions to bytes, of which a read returns and a write replaces a range.
  \<^item> \<open>File_Run\<close>: the step relation of the operations on files and directories, and what holds along every
    sequence of them, with any faults: no block is ever shared between files, or free while in use. Writes behind the
    largest file are excluded (\<open>write_behind_grows\<close> shows why).
  \<^item> \<open>Create_Spec\<close>: creation of files and directories, where allocator, inode table, directory and tree of
    active inodes meet: what a successful call adds, which blocks it takes (its own and those the directory grew by, none
    leaks), and that it leaves everything else as it was.
  \<^item> \<open>Dir_Complete\<close>: walks without faults end without an error, so lookups and erasures are complete; an erasure
    deletes from the map of names, on the disk too.
  \<^item> \<open>Unlink_Spec\<close>: clearing an inode releases exactly the blocks of its file; the last unlink removes a file,
    and undoes its creation.
  \<^item> \<open>Check\<close>, \<open>Check_Spec\<close>: \<^verbatim>\<open>check.cpp\<close> and \<^verbatim>\<open>xv6check.cpp\<close>. The locale \<open>ro_dev\<close> states
    what a device must do for reading; interpreted on the module's table and on the image file.
  \<^item> \<open>Super\<close>: mount, options, remount and unmount (\<^verbatim>\<open>super.c\<close>); what a mount establishes, and that an unmount
    stores every dirty inode.
  \<^item> \<open>Mkxv6\<close>, \<open>Mkxv6_Spec\<close>: \<^verbatim>\<open>mkxv6.c\<close>; the size of an image and its bitmap, which, read
    the kernel's way, marks exactly the blocks handed out.
  \<^item> \<open>Mkxv6_Mount\<close>: builder and kernel together. Every sector of an image under construction has a role, so that
    file contents never reach super block or inode table, and the kernel mounts every finished image.
  \<^item> \<open>Uart\<close>, \<open>Uart_Spec\<close>: \<^verbatim>\<open>pl010/kmod.c\<close> against any device, as a function of the history of accesses.

  \<^bold>\<open>Loops and bounds.\<close> No fuel is used. Loops that may run forever are \<open>partial_function\<close>s, and that
  they return is proved: the search for a free block on disks of up to 8192 blocks (beyond that
  \<open>balloc_hangs\<close> shows a search that never ends, so theorems on operations that allocate have the hypothesis
  \<open>fi_size \<le> 8192\<close>), the loops of read and write for positions up to the largest file (268 blocks), the
  polling loops of the driver for devices that become ready. The other loops are structural or have a measure.

  \<^bold>\<open>Parameters.\<close> What is not part of the sources and cannot be read off the state is an argument: the kernel's
  \<^verbatim>\<open>sync_filesystem\<close>, \<^verbatim>\<open>write_inode_now\<close>, \<^verbatim>\<open>kill_block_super\<close> and list of inodes in remount and unmount
  (the documented behaviour of \<^verbatim>\<open>write_inode_now\<close> is the hypothesis \<open>writes_dirty\<close>; nothing is claimed about a
  remount, which only sets the flag before it calls the kernel), \<^verbatim>\<open>fs_parse\<close>, \<^verbatim>\<open>full_name_hash\<close> and
  \<^verbatim>\<open>dir_emit\<close>, and the device behind the registers of the UART.

  \<^bold>\<open>Not modelled.\<close> Registration with the kernel (\<^verbatim>\<open>xv6fs_init\<close>, \<^verbatim>\<open>xv6fs_exit\<close>, the rest of
  \<^verbatim>\<open>pl010_init\<close>, \<^verbatim>\<open>pl010_exit\<close>, tables of operations, \<^verbatim>\<open>xv6_get_tree\<close>, \<^verbatim>\<open>xv6_free_fc\<close>) and attributes
  (\<^verbatim>\<open>xv6_getattr\<close>, \<^verbatim>\<open>xv6_update_time\<close>), which only call the kernel; messages; prototypes in
  \<^verbatim>\<open>xv6.h\<close>; opening and mapping of the image in \<^verbatim>\<open>xv6check.cpp\<close>; the macro of \<^verbatim>\<open>defer.h\<close>,
  whose effect (a call at the end of the scope) is written out. Operations run one after the other: the interleaving of threads inside an operation is the
  kernel's, and the module's locks appear as flags whose misuse is a call that does not return.
\<close>

end
